(* ===== verification/Bytes_Prelude.thy ===== *)
theory Bytes_Prelude
  imports Main "HOL-Library.Word" "HOL-Library.Monad_Syntax"
begin

text \<open>
  The vocabulary shared by every component: bytes and machine integers, fixed-size arrays as
  lists, little-endian integers, the checked loop of a circuit (a fold in the option monad, where
  None is an unsatisfied constraint), the result type of the host code, and the generic lemmas on
  slices and byte lists that the component proofs use.
\<close>

type_synonym byte = "8 word"
type_synonym u32 = "32 word"
type_synonym u64 = "64 word"

text \<open>Thirty-two bytes; the length is stated where it matters.\<close>

type_synonym bytes32 = "byte list"

text \<open>A field element, by its canonical representative.\<close>

type_synonym felt = nat

named_theorems bytes_simps \<open>rewriting of slices and byte lists\<close>
named_theorems circuit_simps \<open>unfolding of circuit assertions\<close>

section \<open>Slices\<close>

text \<open>Rust's \<open>xs[a..b]\<close> with both bounds inside the array.\<close>

definition segment :: "nat \<Rightarrow> nat \<Rightarrow> 'a list \<Rightarrow> 'a list" where
  "segment a b xs = take (b - a) (drop a xs)"

lemma length_segment [simp]: "b \<le> length xs \<Longrightarrow> length (segment a b xs) = b - a"
  by (simp add: segment_def)

lemma segment_append_left [bytes_simps]: "b \<le> length xs \<Longrightarrow> segment a b (xs @ ys) = segment a b xs"
  by (simp add: segment_def take_append)

lemma segment_append_right [bytes_simps]:
  "length xs \<le> a \<Longrightarrow> segment a b (xs @ ys) = segment (a - length xs) (b - length xs) ys"
  by (simp add: segment_def)

lemma segment_full [simp]: "length xs \<le> b \<Longrightarrow> segment 0 b xs = xs"
  by (simp add: segment_def)

lemma segment_map: "segment a b (map f xs) = map f (segment a b xs)"
  by (simp add: segment_def drop_map take_map)

lemma segment_upt: "b \<le> n \<Longrightarrow> segment a b [0..<n] = [a..<b]"
  by (cases "a \<le> b") (simp_all add: segment_def)

lemma segment_segment:
  "d \<le> b - a \<Longrightarrow> segment c d (segment a b xs) = segment (a + c) (a + d) xs"
proof -
  assume "d \<le> b - a"
  then have "take (d - c) (take (b - a - c) (drop (a + c) xs)) = take (d - c) (drop (a + c) xs)"
    by (simp add: min_def diff_le_mono)
  then show ?thesis by (simp add: segment_def drop_take add.commute)
qed

lemma segment_split: "a \<le> b \<Longrightarrow> b \<le> c \<Longrightarrow> segment a c xs = segment a b xs @ segment b c xs"
proof -
  assume "a \<le> b" "b \<le> c"
  then have "c - a = (b - a) + (c - b)" and "b = a + (b - a)" by simp_all
  then show ?thesis
    by (metis add.commute drop_drop segment_def take_add)
qed

lemma nth_segment [simp]: "a + i < b \<Longrightarrow> b \<le> length xs \<Longrightarrow> segment a b xs ! i = xs ! (a + i)"
  by (simp add: segment_def)

lemma upt_split: "[0..<m + n] = [0..<m] @ map (\<lambda>i. m + i) [0..<n]"
  using upt_add_eq_append [of 0 m n] map_add_upt [of m n] by (simp add: add.commute)

section \<open>Little-endian integers\<close>

text \<open>The number a byte list denotes, least significant byte first.\<close>

primrec le_nat :: "byte list \<Rightarrow> nat" where
  "le_nat [] = 0"
| "le_nat (b # bs) = unat b + 256 * le_nat bs"

text \<open>The \<open>k\<close> least significant bytes of a number, least significant first.\<close>

primrec nat_le :: "nat \<Rightarrow> nat \<Rightarrow> byte list" where
  "nat_le 0 n = []"
| "nat_le (Suc k) n = of_nat (n mod 256) # nat_le k (n div 256)"

lemma length_nat_le [simp]: "length (nat_le k n) = k"
  by (induction k arbitrary: n) simp_all

lemma le_nat_append [bytes_simps]: "le_nat (xs @ ys) = le_nat xs + 256 ^ length xs * le_nat ys"
  by (induction xs) (simp_all add: algebra_simps)

lemma unat_byte_lt [simp]: "unat (b :: byte) < 256"
  using unsigned_less [of b] by simp

lemma le_nat_less: "le_nat bs < 256 ^ length bs"
proof (induction bs)
  case (Cons b bs)
  have b: "unat b < 256" by simp
  from Cons have "256 * (le_nat bs + 1) \<le> 256 * 256 ^ length bs" by simp
  have "unat b + 256 * le_nat bs < 256 * (le_nat bs + 1)" using b by arith
  also note \<open>256 * (le_nat bs + 1) \<le> 256 * 256 ^ length bs\<close>
  finally show ?case by simp
qed simp

lemma unat_eq_one_iff: "unat (w :: 'a::len word) = Suc 0 \<longleftrightarrow> w = 1"
  by (metis One_nat_def unat_1 word_unat_eq_iff)

lemma unat_of_nat_small: "n < 2 ^ LENGTH('a) \<Longrightarrow> unat (of_nat n :: 'a::len word) = n"
  by (simp add: unat_of_nat take_bit_nat_eq_self)

lemma unat_of_nat_byte: "n < 256 \<Longrightarrow> unat (of_nat n :: byte) = n"
  by (simp add: unat_of_nat take_bit_nat_eq_self)

lemma le_nat_nat_le [bytes_simps]: "le_nat (nat_le k n) = n mod 256 ^ k"
proof (induction k arbitrary: n)
  case (Suc k)
  have "le_nat (nat_le (Suc k) n) = n mod 256 + 256 * (n div 256 mod 256 ^ k)"
    by (simp add: Suc unat_of_nat_byte)
  also have "\<dots> = n mod (256 * 256 ^ k)" by (simp add: mod_mult2_eq)
  finally show ?case by simp
qed simp

lemma nat_le_le_nat [bytes_simps]: "length bs = k \<Longrightarrow> nat_le k (le_nat bs) = bs"
proof (induction bs arbitrary: k)
  case (Cons b bs)
  have "unat b < 256" by simp
  then have "(unat b + 256 * le_nat bs) mod 256 = unat b"
    and "(unat b + 256 * le_nat bs) div 256 = le_nat bs" by simp_all
  with Cons show ?case by (auto simp: )
qed simp

lemma le_nat_inj: "length xs = length ys \<Longrightarrow> le_nat xs = le_nat ys \<Longrightarrow> xs = ys"
  by (metis nat_le_le_nat)

text \<open>Rust's \<open>to_le_bytes\<close> and \<open>from_le_bytes\<close> at the two widths the code uses, and the
  big-endian readers of the EVM encodings.\<close>

definition u32_to_le :: "u32 \<Rightarrow> byte list" where "u32_to_le n = nat_le 4 (unat n)"
definition u64_to_le :: "u64 \<Rightarrow> byte list" where "u64_to_le n = nat_le 8 (unat n)"
definition u32_from_le :: "byte list \<Rightarrow> u32" where "u32_from_le bs = of_nat (le_nat bs)"
definition u64_from_le :: "byte list \<Rightarrow> u64" where "u64_from_le bs = of_nat (le_nat bs)"

lemma length_u32_to_le [simp]: "length (u32_to_le n) = 4"
  by (simp add: u32_to_le_def)

lemma length_u64_to_le [simp]: "length (u64_to_le n) = 8"
  by (simp add: u64_to_le_def)

lemma u32_le_roundtrip [simp]: "u32_from_le (u32_to_le n) = n"
proof -
  have "unat n < 256 ^ 4" using unsigned_less [of n] by simp
  then show ?thesis by (simp add: u32_from_le_def u32_to_le_def bytes_simps)
qed

lemma u64_le_roundtrip [simp]: "u64_from_le (u64_to_le n) = n"
proof -
  have "unat n < 256 ^ 8" using unsigned_less [of n] by simp
  then show ?thesis by (simp add: u64_from_le_def u64_to_le_def bytes_simps)
qed

lemma u32_to_le_from_le: "length bs = 4 \<Longrightarrow> u32_to_le (u32_from_le bs) = bs"
proof -
  assume l: "length bs = 4"
  have "le_nat bs < 2 ^ 32" using le_nat_less [of bs] l by simp
  then have "unat (of_nat (le_nat bs) :: u32) = le_nat bs" by (simp add: unat_of_nat take_bit_nat_eq_self)
  with l show ?thesis by (simp add: u32_from_le_def u32_to_le_def bytes_simps)
qed

lemma u64_to_le_from_le: "length bs = 8 \<Longrightarrow> u64_to_le (u64_from_le bs) = bs"
proof -
  assume l: "length bs = 8"
  have "le_nat bs < 2 ^ 64" using le_nat_less [of bs] l by simp
  then have "unat (of_nat (le_nat bs) :: u64) = le_nat bs" by (simp add: unat_of_nat take_bit_nat_eq_self)
  with l show ?thesis by (simp add: u64_from_le_def u64_to_le_def bytes_simps)
qed

section \<open>Bits of a byte list\<close>

text \<open>The bits of a byte, least significant first, and their relation to the number.\<close>

definition le_bits :: "byte \<Rightarrow> bool list" where
  "le_bits b = map (bit b) [0..<8]"

lemma length_le_bits [simp]: "length (le_bits b) = 8"
  by (simp add: le_bits_def)

lemma bit_unat_byte: "bit (unat (b :: byte)) i \<longleftrightarrow> bit b i"
  by (metis bit_unsigned_iff bit_imp_le_length possible_bit_nat)

lemma le_bits_eq: "concat (map le_bits bs) = map (bit (le_nat bs)) [0..<8 * length bs]"
proof (induction bs)
  case (Cons b bs)
  let ?N = "unat b + 256 * le_nat bs"
  have lo: "bit ?N i = bit b i" if "i < 8" for i
  proof -
    have "take_bit 8 ?N = unat b" by (simp add: take_bit_eq_mod)
    then have "bit (take_bit 8 ?N) i = bit (unat b) i" by simp
    with that show ?thesis by (simp add: bit_take_bit_iff bit_unat_byte)
  qed
  have hi: "bit ?N (8 + i) = bit (le_nat bs) i" for i
  proof -
    have "drop_bit 8 ?N = le_nat bs" by (simp add: drop_bit_eq_div)
    then show ?thesis by (metis bit_drop_bit_eq comp_apply)
  qed
  have "[0..<8 * length (b # bs)] = [0..<8] @ map (\<lambda>i. 8 + i) [0..<8 * length bs]"
    using upt_add_eq_append [of 0 8 "8 * length bs"] map_add_upt [of 8 "8 * length bs"]
    by (simp add: add.commute)
  then have "map (bit (le_nat (b # bs))) [0..<8 * length (b # bs)]
      = map (bit ?N) [0..<8] @ map (\<lambda>i. bit ?N (8 + i)) [0..<8 * length bs]"
    by simp
  also have "map (bit ?N) [0..<8] = le_bits b"
    using lo by (simp add: le_bits_def)
  also have "map (\<lambda>i. bit ?N (8 + i)) [0..<8 * length bs] = map (bit (le_nat bs)) [0..<8 * length bs]"
    by (simp add: hi)
  finally show ?case using Cons by simp
qed simp

lemma horner_bits_segment:
  "horner_sum of_bool 2 (map (bit (N :: nat)) [a..<b]) = N div 2 ^ a mod 2 ^ (b - a)"
proof -
  have "map (bit N) [a..<b] = map (bit (drop_bit a N)) [0..<b - a]"
    by (rule nth_equalityI) (simp_all add: bit_drop_bit_eq)
  then have "horner_sum of_bool 2 (map (bit N) [a..<b]) = take_bit (b - a) (drop_bit a N)"
    by (simp only: horner_sum_bit_eq_take_bit)
  then show ?thesis by (simp add: take_bit_eq_mod drop_bit_eq_div)
qed

section \<open>Circuit assertions\<close>

text \<open>
  A circuit is a function from its public inputs and the values its hints return to the outputs
  it writes. None stands for an assignment no proof exists for.
\<close>

definition assert_c :: "bool \<Rightarrow> unit option" where
  "assert_c b = (if b then Some () else None)"

lemma assert_c_Some [simp]: "assert_c b = Some u \<longleftrightarrow> b"
  by (simp add: assert_c_def)

lemma assert_c_True [simp]: "assert_c True = Some ()"
  by (simp add: assert_c_def)

lemma assert_c_False [simp]: "assert_c False = None"
  by (simp add: assert_c_def)

lemma assert_c_bind_Some [circuit_simps]:
  "(assert_c b \<bind> f) = Some x \<longleftrightarrow> b \<and> f () = Some x"
  by (simp add: assert_c_def)

text \<open>A loop over a list of indices whose body may fail to satisfy a constraint.\<close>

fun fold_opt :: "('a \<Rightarrow> 's \<Rightarrow> 's option) \<Rightarrow> 'a list \<Rightarrow> 's \<Rightarrow> 's option" where
  "fold_opt f [] s = Some s"
| "fold_opt f (x # xs) s = f x s \<bind> fold_opt f xs"

lemma fold_opt_append: "fold_opt f (xs @ ys) s = fold_opt f xs s \<bind> fold_opt f ys"
  by (induction xs arbitrary: s) (auto split: Option.bind_split)

lemma fold_opt_snoc: "fold_opt f (xs @ [x]) s = fold_opt f xs s \<bind> f x"
  by (simp add: fold_opt_append) (simp split: Option.bind_split)

text \<open>A loop of assertions only: every one of them holds.\<close>

lemma fold_opt_assert:
  "fold_opt (\<lambda>i s. assert_c (P i) \<bind> (\<lambda>_. Some (g i s))) xs s
    = (if \<forall>i\<in>set xs. P i then Some (fold g xs s) else None)"
  by (induction xs arbitrary: s) (auto simp: assert_c_def)

section \<open>Results of the host code\<close>

text \<open>
  The fetchers and the operator end normally (Inr), return an error or panic (Inl). Panics are
  named after the construct of the source that raises them.
\<close>

datatype host_error =
    Overflow                \<comment> \<open>an arithmetic overflow, as the debug profile reports it\<close>
  | Unwrap_none             \<comment> \<open>\<open>unwrap\<close> or \<open>expect\<close> on a missing or failed answer\<close>
  | Index_out_of_range      \<comment> \<open>a segment or index outside its vector\<close>
  | Assertion_failed        \<comment> \<open>\<open>assert\<close>, \<open>assert_eq\<close>\<close>
  | Panic string            \<comment> \<open>an explicit \<open>panic\<close>\<close>
  | Failed string           \<comment> \<open>an error value the caller receives\<close>

type_synonym 'a host = "host_error + 'a"

definition bind_h :: "'a host \<Rightarrow> ('a \<Rightarrow> 'b host) \<Rightarrow> 'b host" where
  "bind_h m f = (case m of Inl e \<Rightarrow> Inl e | Inr x \<Rightarrow> f x)"

lemma bind_h_simps [simp]: "bind_h (Inl e) f = Inl e" "bind_h (Inr x) f = f x"
  by (simp_all add: bind_h_def)

lemma bind_h_Inr_iff: "bind_h m f = Inr y \<longleftrightarrow> (\<exists>x. m = Inr x \<and> f x = Inr y)"
  by (cases m) simp_all

definition assert_h :: "host_error \<Rightarrow> bool \<Rightarrow> unit host" where
  "assert_h e b = (if b then Inr () else Inl e)"

lemma assert_h_simps [simp]: "assert_h e True = Inr ()" "assert_h e False = Inl e"
  "assert_h e b = Inr u \<longleftrightarrow> b"
  by (simp_all add: assert_h_def)

definition unwrap :: "'a option \<Rightarrow> 'a host" where
  "unwrap x = (case x of None \<Rightarrow> Inl Unwrap_none | Some y \<Rightarrow> Inr y)"

lemma unwrap_simps [simp]: "unwrap None = Inl Unwrap_none" "unwrap (Some y) = Inr y"
  by (simp_all add: unwrap_def)

lemma unwrap_Inr_iff [simp]: "unwrap x = Inr y \<longleftrightarrow> x = Some y"
  by (cases x) simp_all

text \<open>Indexing and slicing of vectors, and counters of 64 bits kept as naturals.\<close>

definition nth_h :: "'a list \<Rightarrow> nat \<Rightarrow> 'a host" where
  "nth_h xs i = (if i < length xs then Inr (xs ! i) else Inl Index_out_of_range)"

definition slice_h :: "nat \<Rightarrow> nat \<Rightarrow> 'a list \<Rightarrow> 'a list host" where
  "slice_h a b xs = (if a \<le> b \<and> b \<le> length xs then Inr (segment a b xs) else Inl Index_out_of_range)"

definition usize_ck :: "nat \<Rightarrow> nat host" where
  "usize_ck n = (if n < 2 ^ 64 then Inr n else Inl Overflow)"

lemma nth_h_simps [simp]: "i < length xs \<Longrightarrow> nth_h xs i = Inr (xs ! i)"
  "nth_h xs i = Inr x \<longleftrightarrow> i < length xs \<and> x = xs ! i"
  by (auto simp: nth_h_def)

lemma slice_h_simps [simp]: "a \<le> b \<Longrightarrow> b \<le> length xs \<Longrightarrow> slice_h a b xs = Inr (segment a b xs)"
  "slice_h a b xs = Inr ys \<longleftrightarrow> a \<le> b \<and> b \<le> length xs \<and> ys = segment a b xs"
  by (auto simp: slice_h_def)

lemma usize_ck_simps [simp]: "n < 2 ^ 64 \<Longrightarrow> usize_ck n = Inr n"
  "usize_ck n = Inr m \<longleftrightarrow> n < 2 ^ 64 \<and> m = n"
  by (auto simp: usize_ck_def)

text \<open>A map over a list whose body may fail; the first failure wins.\<close>

fun map_h :: "('a \<Rightarrow> 'b host) \<Rightarrow> 'a list \<Rightarrow> 'b list host" where
  "map_h f [] = Inr []"
| "map_h f (x # xs) = bind_h (f x) (\<lambda>y. bind_h (map_h f xs) (\<lambda>ys. Inr (y # ys)))"

lemma map_h_append: "map_h f (xs @ ys) = bind_h (map_h f xs) (\<lambda>a. bind_h (map_h f ys) (\<lambda>b. Inr (a @ b)))"
  by (induction xs) (auto simp: bind_h_def split: sum.splits)

lemma map_h_Inr: "(\<And>x. x \<in> set xs \<Longrightarrow> f x = Inr (g x)) \<Longrightarrow> map_h f xs = Inr (map g xs)"
  by (induction xs) simp_all

lemma map_h_map: "map_h f (map g xs) = map_h (\<lambda>x. f (g x)) xs"
  by (induction xs) simp_all

lemma map_h_Inr_iff: "map_h f xs = Inr ys \<longleftrightarrow> list_all2 (\<lambda>x y. f x = Inr y) xs ys"
  by (induction xs arbitrary: ys) (auto simp: bind_h_Inr_iff list_all2_Cons1)

lemma map_h_InrD: "map_h f xs = Inr ys \<Longrightarrow> list_all2 (\<lambda>x y. f x = Inr y) xs ys"
  by (induction xs arbitrary: ys) (auto simp: bind_h_Inr_iff)

text \<open>Machine arithmetic that panics on overflow.\<close>

definition add_ck :: "'w::len word \<Rightarrow> 'w word \<Rightarrow> 'w word host" where
  "add_ck a b = (if unat a + unat b < 2 ^ LENGTH('w) then Inr (a + b) else Inl Overflow)"

definition sub_ck :: "'w::len word \<Rightarrow> 'w word \<Rightarrow> 'w word host" where
  "sub_ck a b = (if b \<le> a then Inr (a - b) else Inl Overflow)"

lemma add_ck_InrD: "add_ck a b = Inr c \<Longrightarrow> unat c = unat a + unat b"
  by (auto simp: add_ck_def unat_word_ariths split: if_splits)

lemma sub_ck_InrD: "sub_ck a b = Inr c \<Longrightarrow> unat c = unat a - unat b \<and> unat b \<le> unat a"
  by (auto simp: sub_ck_def unat_sub word_le_nat_alt split: if_splits)

end
