(* ===== verification/Vars.thy ===== *)
theory Vars
  imports Bytes_Prelude
begin

text \<open>
  The constants of \<open>circuits/consts.rs\<close> and the circuit variables of \<open>circuits/vars.rs\<close>, as the
  values the variables carry. An \<open>ArrayVariable<T, N>\<close> is a list; that it is \<open>N\<close> long is part of
  its type in the source and a well-formedness predicate here.
\<close>

section \<open>Constants\<close>

definition DATA_ROOT_OFFSET_FROM_END :: nat where [simp]: "DATA_ROOT_OFFSET_FROM_END = 32"
definition HEADERS_PER_MAP :: nat where [simp]: "HEADERS_PER_MAP = 8"
definition MAX_HEADER_CHUNK_SIZE :: nat where [simp]: "MAX_HEADER_CHUNK_SIZE = 280"
definition BLAKE2B_CHUNK_SIZE_BYTES :: nat where [simp]: "BLAKE2B_CHUNK_SIZE_BYTES = 128"
definition MAX_HEADER_SIZE :: nat where
  "MAX_HEADER_SIZE = MAX_HEADER_CHUNK_SIZE * BLAKE2B_CHUNK_SIZE_BYTES"
definition HASH_SIZE :: nat where [simp]: "HASH_SIZE = 32"
definition PUBKEY_LENGTH :: nat where [simp]: "PUBKEY_LENGTH = 32"
definition WEIGHT_LENGTH :: nat where [simp]: "WEIGHT_LENGTH = 8"
definition VALIDATOR_LENGTH :: nat where [simp]: "VALIDATOR_LENGTH = PUBKEY_LENGTH + WEIGHT_LENGTH"
definition DELAY_LENGTH :: nat where [simp]: "DELAY_LENGTH = 4"
definition MAX_COMPACT_UINT_BYTES :: nat where [simp]: "MAX_COMPACT_UINT_BYTES = 5"
definition BASE_PREFIX_LENGTH :: nat where [simp]: "BASE_PREFIX_LENGTH = 9"
definition MAX_PREFIX_LENGTH :: nat where
  [simp]: "MAX_PREFIX_LENGTH = BASE_PREFIX_LENGTH + MAX_COMPACT_UINT_BYTES"
definition ENCODED_PRECOMMIT_LENGTH :: nat where [simp]: "ENCODED_PRECOMMIT_LENGTH = 53"
definition MAX_AUTHORITY_SET_SIZE :: nat where [simp]: "MAX_AUTHORITY_SET_SIZE = 300"
definition MAX_SUBARRAY_SIZE :: nat where
  "MAX_SUBARRAY_SIZE = MAX_AUTHORITY_SET_SIZE * VALIDATOR_LENGTH + DELAY_LENGTH"
definition MAX_NUM_HEADERS :: nat where [simp]: "MAX_NUM_HEADERS = 256"

section \<open>Circuit variables\<close>

record encoded_header =
  header_bytes :: "byte list"
  header_size :: u32

record header_variable =
  block_number :: u32
  parent_hash :: bytes32
  state_root :: bytes32
  data_root :: bytes32

record precommit =
  precommit_block_hash :: bytes32
  precommit_block_number :: u32
  justification_round :: u64
  precommit_authority_set_id :: u64

text \<open>An Ed25519 signature as the circuit takes it: the compressed point and the scalar.\<close>

record signature =
  sig_r :: bytes32
  sig_s :: nat

record justification =
  encoded_precommit :: "byte list"
  validator_signed :: "bool list"
  signatures :: "signature list"
  pubkeys :: "bytes32 list"
  num_authorities :: u32

record rotate_variable =
  epoch_end_block_number :: u32
  target_header :: encoded_header
  target_header_num_authorities :: felt
  next_authority_set_start_position :: felt
  new_pubkeys :: "bytes32 list"

record subchain_verification =
  target_header_hash :: bytes32
  state_root_merkle_root :: bytes32
  data_root_merkle_root :: bytes32

section \<open>Array lengths\<close>

definition wf_header :: "nat \<Rightarrow> encoded_header \<Rightarrow> bool" where
  "wf_header S h \<longleftrightarrow> length (header_bytes h) = S"

definition wf_justification :: "nat \<Rightarrow> justification \<Rightarrow> bool" where
  "wf_justification n j \<longleftrightarrow>
     length (encoded_precommit j) = ENCODED_PRECOMMIT_LENGTH
     \<and> length (validator_signed j) = n \<and> length (signatures j) = n \<and> length (pubkeys j) = n
     \<and> (\<forall>k\<in>set (pubkeys j). length k = PUBKEY_LENGTH)"

definition wf_rotate :: "nat \<Rightarrow> nat \<Rightarrow> rotate_variable \<Rightarrow> bool" where
  "wf_rotate S n r \<longleftrightarrow>
     wf_header S (target_header r) \<and> length (new_pubkeys r) = n
     \<and> (\<forall>k\<in>set (new_pubkeys r). length k = PUBKEY_LENGTH)"

end
