(* ===== verification/Merkle_Tree.thy ===== *)
theory Merkle_Tree
  imports Bytes_Prelude
begin

text \<open>
  Pairwise reduction over a power of two of leaves: the interface a Merkle root and a map-reduce
  share (locale \<open>pairwise_root\<close>), its laws proved once for every implementation, and the reference
  trees the components are compared with.
\<close>

section \<open>The interface\<close>

locale pairwise_root =
  fixes node :: "'a \<Rightarrow> 'a \<Rightarrow> 'a"
    and root :: "'a list \<Rightarrow> 'a"
  assumes root_leaf: "root [x] = x"
    and root_node: "length xs = 2 ^ k \<Longrightarrow> length ys = 2 ^ k \<Longrightarrow> root (xs @ ys) = node (root xs) (root ys)"
begin

lemma root_halves:
  assumes "length xs = 2 ^ Suc k"
  shows "root xs = node (root (take (2 ^ k) xs)) (root (drop (2 ^ k) xs))"
proof -
  have "root (take (2 ^ k) xs @ drop (2 ^ k) xs)
      = node (root (take (2 ^ k) xs)) (root (drop (2 ^ k) xs))"
    by (rule root_node [of _ k]) (use assms in simp_all)
  then show ?thesis by simp
qed

text \<open>Roots of equal-sized blocks combine into the root of the whole: a reduction may be cut
  at any level of the tree.\<close>

lemma root_blocks:
  assumes "length xss = 2 ^ k" and "\<forall>xs\<in>set xss. length xs = 2 ^ m"
  shows "root (concat xss) = root (map root xss)"
  using assms
proof (induction k arbitrary: xss)
  case 0
  then obtain xs where "xss = [xs]" by (auto simp: length_Suc_conv)
  then show ?case by (simp add: root_leaf)
next
  case (Suc k)
  let ?l = "take (2 ^ k) xss" and ?r = "drop (2 ^ k) xss"
  have len: "length ?l = 2 ^ k" "length ?r = 2 ^ k" using Suc.prems(1) by simp_all
  have blocks: "\<forall>xs\<in>set ?l. length xs = 2 ^ m" "\<forall>xs\<in>set ?r. length xs = 2 ^ m"
    using Suc.prems(2) by (auto dest: in_set_takeD in_set_dropD)
  have sized: "length (concat yss) = 2 ^ (k + m)"
    if "length yss = 2 ^ k" "\<forall>xs\<in>set yss. length xs = 2 ^ m" for yss :: "'a list list"
  proof -
    have "sum_list (map length yss) = length yss * 2 ^ m"
      using that(2) by (induction yss) simp_all
    then show ?thesis using that(1) by (simp add: length_concat power_add)
  qed
  have "root (concat xss) = root (concat ?l @ concat ?r)"
    by (metis append_take_drop_id concat_append)
  also have "\<dots> = node (root (concat ?l)) (root (concat ?r))"
    by (rule root_node [of _ "k + m"]) (use sized len blocks in blast)+
  also have "\<dots> = node (root (map root ?l)) (root (map root ?r))"
    by (simp add: Suc.IH [OF len(1) blocks(1)] Suc.IH [OF len(2) blocks(2)])
  also have "\<dots> = root (map root xss)"
    using root_halves [of "map root xss" k] Suc.prems(1) by (simp add: take_map drop_map)
  finally show ?case .
qed

text \<open>The interface fixes the root: two implementations over the same node function agree.\<close>

lemma root_unique:
  assumes "pairwise_root node root'" and "length xs = 2 ^ k"
  shows "root xs = root' xs"
  using assms(2)
proof (induction k arbitrary: xs)
  case 0
  then obtain x where "xs = [x]" by (auto simp: length_Suc_conv)
  then show ?case using pairwise_root.root_leaf [OF assms(1)] by (simp add: root_leaf)
next
  case (Suc k)
  then show ?case
    using root_halves [of xs k] pairwise_root.root_halves [OF assms(1), of xs k] by simp
qed

end

section \<open>The reference trees\<close>

text \<open>The root of a perfect binary tree of depth \<open>k\<close> over the leaves of a list.\<close>

primrec tree_root :: "('a \<Rightarrow> 'a \<Rightarrow> 'a) \<Rightarrow> nat \<Rightarrow> 'a list \<Rightarrow> 'a" where
  "tree_root node 0 xs = hd xs"
| "tree_root node (Suc k) xs
    = node (tree_root node k (take (2 ^ k) xs)) (tree_root node k (drop (2 ^ k) xs))"

text \<open>The same tree with a node function whose constraints may fail.\<close>

primrec tree_reduce :: "('a \<Rightarrow> 'a \<Rightarrow> 'a option) \<Rightarrow> nat \<Rightarrow> 'a list \<Rightarrow> 'a option" where
  "tree_reduce node 0 xs = Some (hd xs)"
| "tree_reduce node (Suc k) xs = do {
     l \<leftarrow> tree_reduce node k (take (2 ^ k) xs);
     r \<leftarrow> tree_reduce node k (drop (2 ^ k) xs);
     node l r }"

text \<open>The depth of a list that is a power of two long.\<close>

fun log2_floor :: "nat \<Rightarrow> nat" where
  "log2_floor n = (if n \<le> 1 then 0 else Suc (log2_floor (n div 2)))"

declare log2_floor.simps [simp del]

lemma log2_floor_power [simp]: "log2_floor (2 ^ k) = k"
proof (induction k)
  case (Suc k)
  have "\<not> (2 :: nat) ^ Suc k \<le> 1" using one_less_power [of "2 :: nat" "Suc k"] by simp
  with Suc show ?case by (subst log2_floor.simps) simp
qed (simp add: log2_floor.simps)

definition list_root :: "('a \<Rightarrow> 'a \<Rightarrow> 'a) \<Rightarrow> 'a list \<Rightarrow> 'a" where
  "list_root node xs = tree_root node (log2_floor (length xs)) xs"

interpretation ref_root: pairwise_root node "list_root node" for node
proof
  fix x :: 'a
  show "list_root node [x] = x" by (simp add: list_root_def log2_floor.simps)
next
  fix xs ys :: "'a list" and k
  assume "length xs = 2 ^ k" "length ys = 2 ^ k"
  moreover from this have "length (xs @ ys) = 2 ^ Suc k" by simp
  ultimately show "list_root node (xs @ ys) = node (list_root node xs) (list_root node ys)"
    by (simp only: list_root_def log2_floor_power) simp
qed

section \<open>Splitting into batches\<close>

fun chunks :: "nat \<Rightarrow> 'a list \<Rightarrow> 'a list list" where
  "chunks n xs = (if n = 0 \<or> xs = [] then [] else take n xs # chunks n (drop n xs))"

declare chunks.simps [simp del]

lemma chunks_Nil [simp]: "chunks n [] = []"
  by (simp add: chunks.simps)

lemma chunks_append:
  assumes "length xs = n" and "0 < n"
  shows "chunks n (xs @ ys) = xs # chunks n ys"
proof -
  have "xs \<noteq> []" using assms by auto
  with assms show ?thesis by (simp add: chunks.simps [of n "xs @ ys"])
qed

lemma chunks_concat:
  assumes "0 < n" and "\<forall>xs\<in>set xss. length xs = n"
  shows "chunks n (concat xss) = xss"
  using assms(2) by (induction xss) (simp_all add: chunks_append assms(1))

end
