(* ===== verification/Circuit_Gadgets.thy ===== *)
theory Circuit_Gadgets
  imports Vars Merkle_Tree
begin

text \<open>
  The gadgets of plonky2x the circuits call. Their code is not part of the repository, so they are
  parameters: one field of the record \<open>gadgets\<close> per builder method, and one named predicate per
  group of gadgets for the documented behaviour the circuits rely on. Boolean connectives, the
  equality test, the two-way select, constants and \<open>assert_is_equal\<close> are the connectives the
  circuits are written in and are read as such.
  \<open>toy_gadgets\<close> is a concrete instance that satisfies every predicate; the witnesses evaluate on it.
\<close>

record gadgets =
  field_order :: nat                 \<comment> \<open>the order of \<open>L::Field\<close>\<close>
  as_bool_targets :: "byte \<Rightarrow> bool list"
  le_sum :: "bool list \<Rightarrow> felt"
  select_felt :: "felt list \<Rightarrow> felt \<Rightarrow> felt"          \<comment> \<open>\<open>select_array_random_gate\<close> on variables\<close>
  select_hash :: "bytes32 list \<Rightarrow> felt \<Rightarrow> bytes32"    \<comment> \<open>\<open>select_array_random_gate\<close> on hashes\<close>
  u32_add :: "u32 \<Rightarrow> u32 \<Rightarrow> u32"
  u32_sub :: "u32 \<Rightarrow> u32 \<Rightarrow> u32"
  u32_mul :: "u32 \<Rightarrow> u32 \<Rightarrow> u32"
  u32_decode :: "byte list \<Rightarrow> u32"    \<comment> \<open>\<open>U32Variable::decode\<close>\<close>
  u64_decode :: "byte list \<Rightarrow> u64"    \<comment> \<open>\<open>U64Variable::decode\<close>\<close>
  get_fixed_subarray :: "nat \<Rightarrow> byte list \<Rightarrow> felt \<Rightarrow> byte list \<Rightarrow> byte list option"
  sha256 :: "byte list \<Rightarrow> bytes32"
  curta_sha256 :: "byte list \<Rightarrow> bytes32"
  blake2b :: "byte list \<Rightarrow> bytes32"   \<comment> \<open>the digest \<open>curta_blake2b_variable\<close> computes\<close>
  curta_blake2b_variable :: "byte list \<Rightarrow> u32 \<Rightarrow> bytes32"
  sig_valid :: "bytes32 \<Rightarrow> byte list \<Rightarrow> signature \<Rightarrow> bool"  \<comment> \<open>Ed25519\<close>
  curta_eddsa_verify_sigs_conditional ::
    "bool list \<Rightarrow> u32 list \<Rightarrow> byte list list \<Rightarrow> signature list \<Rightarrow> bytes32 list \<Rightarrow> bool"
  get_root_from_hashed_leaves :: "bytes32 list \<Rightarrow> felt \<Rightarrow> bytes32"

text \<open>Addition of field variables.\<close>

definition f_add :: "gadgets \<Rightarrow> felt \<Rightarrow> felt \<Rightarrow> felt" where
  "f_add G a b = (a + b) mod field_order G"

section \<open>What the circuits rely on\<close>

text \<open>The field holds every 32-bit value; bytes are exposed most significant bit first; \<open>le_sum\<close>
  is the binary value of a list of bits.\<close>

definition bit_gadgets :: "gadgets \<Rightarrow> bool" where
  "bit_gadgets G \<longleftrightarrow>
     2 ^ 32 < field_order G
     \<and> (\<forall>b. as_bool_targets G b = rev (le_bits b))
     \<and> (\<forall>bs. le_sum G bs = horner_sum of_bool 2 bs mod field_order G)"

text \<open>The random-access gate returns the element at the index.\<close>

definition select_gadgets :: "gadgets \<Rightarrow> bool" where
  "select_gadgets G \<longleftrightarrow>
     (\<forall>xs i. i < length xs \<longrightarrow> select_felt G xs i = xs ! i)
     \<and> (\<forall>xs i. i < length xs \<longrightarrow> select_hash G xs i = xs ! i)"

text \<open>Arithmetic on \<open>U32Variable\<close> is modulo \<open>2^32\<close>; integers are decoded big-endian.\<close>

definition u32_gadgets :: "gadgets \<Rightarrow> bool" where
  "u32_gadgets G \<longleftrightarrow>
     (\<forall>a b. u32_add G a b = a + b) \<and> (\<forall>a b. u32_sub G a b = a - b)
     \<and> (\<forall>a b. u32_mul G a b = a * b)
     \<and> (\<forall>bs. length bs = 4 \<longrightarrow> u32_decode G bs = u32_from_le (rev bs))
     \<and> (\<forall>bs. length bs = 8 \<longrightarrow> u64_decode G bs = u64_from_le (rev bs))"

text \<open>The subarray at an index, which must lie inside the array.\<close>

definition subarray_gadget :: "gadgets \<Rightarrow> bool" where
  "subarray_gadget G \<longleftrightarrow>
     (\<forall>n xs i seed. get_fixed_subarray G n xs i seed
        = (if i + n \<le> length xs then Some (segment i (i + n) xs) else None))"

text \<open>The two SHA-256 gadgets compute one function with digests of 32 bytes, and the variable
  length Blake2b gadget hashes the first \<open>length\<close> bytes of its input.\<close>

definition hash_gadgets :: "gadgets \<Rightarrow> bool" where
  "hash_gadgets G \<longleftrightarrow>
     (\<forall>m. length (sha256 G m) = HASH_SIZE) \<and> curta_sha256 G = sha256 G
     \<and> (\<forall>m. length (blake2b G m) = HASH_SIZE)
     \<and> (\<forall>m n. unat n \<le> length m \<longrightarrow> curta_blake2b_variable G m n = blake2b G (take (unat n) m))"

text \<open>Every active signature verifies on its message.\<close>

definition signature_gadget :: "gadgets \<Rightarrow> bool" where
  "signature_gadget G \<longleftrightarrow>
     (\<forall>act lens msgs sigs pks. curta_eddsa_verify_sigs_conditional G act lens msgs sigs pks \<longleftrightarrow>
        (\<forall>i<length act. act ! i \<longrightarrow>
           sig_valid G (pks ! i) (take (unat (lens ! i)) (msgs ! i)) (sigs ! i)))"

text \<open>The node function of the simple Merkle tree and the root over the enabled leaves, the others
  being the all-zero hash.\<close>

definition sha_node :: "gadgets \<Rightarrow> bytes32 \<Rightarrow> bytes32 \<Rightarrow> bytes32" where
  "sha_node G l r = sha256 G (l @ r)"

definition zero_hash :: bytes32 where "zero_hash = replicate 32 0"

definition enable_leaves :: "nat \<Rightarrow> bytes32 list \<Rightarrow> bytes32 list" where
  "enable_leaves n xs = take n xs @ replicate (length xs - n) zero_hash"

definition merkle_gadget :: "gadgets \<Rightarrow> bool" where
  "merkle_gadget G \<longleftrightarrow>
     (\<forall>leaves n k. length leaves = 2 ^ k \<longrightarrow> n \<le> length leaves \<longrightarrow>
        get_root_from_hashed_leaves G leaves n = list_root (sha_node G) (enable_leaves n leaves))"

definition gadgets_ok :: "gadgets \<Rightarrow> bool" where
  "gadgets_ok G \<longleftrightarrow> bit_gadgets G \<and> select_gadgets G \<and> u32_gadgets G \<and> subarray_gadget G
     \<and> hash_gadgets G \<and> signature_gadget G \<and> merkle_gadget G"

section \<open>Rewriting with the hypotheses\<close>

lemma gadgets_okD:
  assumes "gadgets_ok G"
  shows "bit_gadgets G" "select_gadgets G" "u32_gadgets G" "subarray_gadget G"
    "hash_gadgets G" "signature_gadget G" "merkle_gadget G"
  using assms by (simp_all add: gadgets_ok_def)

lemma field_order_gt: "bit_gadgets G \<Longrightarrow> 2 ^ 32 < field_order G"
  by (simp add: bit_gadgets_def)

lemma select_felt_nth: "select_gadgets G \<Longrightarrow> i < length xs \<Longrightarrow> select_felt G xs i = xs ! i"
  by (simp add: select_gadgets_def)

lemma select_hash_nth: "select_gadgets G \<Longrightarrow> i < length xs \<Longrightarrow> select_hash G xs i = xs ! i"
  by (simp add: select_gadgets_def)

lemma u32_gadget_simps:
  assumes "u32_gadgets G"
  shows "u32_add G a b = a + b" "u32_sub G a b = a - b" "u32_mul G a b = a * b"
    "length bs = 4 \<Longrightarrow> u32_decode G bs = u32_from_le (rev bs)"
    "length bs = 8 \<Longrightarrow> u64_decode G bs = u64_from_le (rev bs)"
  using assms by (simp_all add: u32_gadgets_def)

lemma subarray_Some_iff:
  "subarray_gadget G \<Longrightarrow>
    get_fixed_subarray G n xs i seed = Some ys \<longleftrightarrow> i + n \<le> length xs \<and> ys = segment i (i + n) xs"
  by (auto simp: subarray_gadget_def)

lemma hash_gadget_simps:
  assumes "hash_gadgets G"
  shows "length (sha256 G m) = 32" "curta_sha256 G = sha256 G" "length (blake2b G m) = 32"
    "unat n \<le> length m \<Longrightarrow> curta_blake2b_variable G m n = blake2b G (take (unat n) m)"
  using assms by (simp_all add: hash_gadgets_def)

lemma signature_gadgetD:
  "signature_gadget G \<Longrightarrow> curta_eddsa_verify_sigs_conditional G act lens msgs sigs pks \<longleftrightarrow>
     (\<forall>i<length act. act ! i \<longrightarrow>
        sig_valid G (pks ! i) (take (unat (lens ! i)) (msgs ! i)) (sigs ! i))"
  by (simp add: signature_gadget_def)

lemma merkle_gadgetD:
  "merkle_gadget G \<Longrightarrow> length leaves = 2 ^ k \<Longrightarrow> n \<le> length leaves \<Longrightarrow>
    get_root_from_hashed_leaves G leaves n = list_root (sha_node G) (enable_leaves n leaves)"
  by (auto simp: merkle_gadget_def)

section \<open>A concrete instance\<close>

text \<open>A digest for the examples: a rolling sum, the length and the first bytes, padded to 32.\<close>

definition toy_digest :: "byte list \<Rightarrow> bytes32" where
  "toy_digest m = foldl (\<lambda>a x. 3 * a + x + 1) 0 m # of_nat (length m) # replicate 30 0"

text \<open>A signature of the examples is valid when its scalar is the sum of the key's and the
  message's first bytes.\<close>

definition toy_sig_valid :: "bytes32 \<Rightarrow> byte list \<Rightarrow> signature \<Rightarrow> bool" where
  "toy_sig_valid pk m s \<longleftrightarrow> sig_s s = unat (hd pk) + unat (m ! 1)"

definition toy_gadgets :: gadgets where
  "toy_gadgets = \<lparr>
     field_order = 2 ^ 64 - 2 ^ 32 + 1,
     as_bool_targets = (\<lambda>b. rev (le_bits b)),
     le_sum = (\<lambda>bs. horner_sum of_bool 2 bs mod (2 ^ 64 - 2 ^ 32 + 1)),
     select_felt = (\<lambda>xs i. xs ! i),
     select_hash = (\<lambda>xs i. xs ! i),
     u32_add = (+), u32_sub = (-), u32_mul = (*),
     u32_decode = (\<lambda>bs. u32_from_le (rev bs)),
     u64_decode = (\<lambda>bs. u64_from_le (rev bs)),
     get_fixed_subarray =
       (\<lambda>n xs i seed. if i + n \<le> length xs then Some (segment i (i + n) xs) else None),
     sha256 = toy_digest, curta_sha256 = toy_digest, blake2b = toy_digest,
     curta_blake2b_variable = (\<lambda>m n. toy_digest (take (unat n) m)),
     sig_valid = toy_sig_valid,
     curta_eddsa_verify_sigs_conditional = (\<lambda>act lens msgs sigs pks.
       list_all (\<lambda>i. act ! i \<longrightarrow> toy_sig_valid (pks ! i) (take (unat (lens ! i)) (msgs ! i)) (sigs ! i))
         [0..<length act]),
     get_root_from_hashed_leaves = (\<lambda>leaves n.
       list_root (\<lambda>l r. toy_digest (l @ r)) (enable_leaves n leaves))\<rparr>"

lemma toy_gadgets_ok: "gadgets_ok toy_gadgets"
proof -
  have "sha_node toy_gadgets = (\<lambda>l r. toy_digest (l @ r))"
    by (simp add: fun_eq_iff sha_node_def toy_gadgets_def)
  then have "merkle_gadget toy_gadgets" by (simp add: merkle_gadget_def) (simp add: toy_gadgets_def)
  moreover have "signature_gadget toy_gadgets"
    by (auto simp: signature_gadget_def toy_gadgets_def list_all_iff)
  moreover have "bit_gadgets toy_gadgets" "select_gadgets toy_gadgets" "u32_gadgets toy_gadgets"
    "subarray_gadget toy_gadgets" "hash_gadgets toy_gadgets"
    by (simp_all add: toy_gadgets_def bit_gadgets_def select_gadgets_def u32_gadgets_def
        subarray_gadget_def hash_gadgets_def toy_digest_def)
  ultimately show ?thesis by (simp add: gadgets_ok_def)
qed

end
