(* ===== verification/Authority_Set.thy ===== *)
theory Authority_Set
  imports Circuit_Gadgets
begin

text \<open>
  The commitment to an authority set, a chain of SHA-256 hashes over the public keys. It is computed
  twice in the source: by the circuits (\<open>compute_authority_set_commitment\<close> of
  \<open>circuits/builder/justification.rs\<close>) and by the fetcher (\<open>compute_authority_set_hash\<close> of
  \<open>circuits/input/mod.rs\<close>). The locale \<open>chained_hash\<close> is the contract of both.
\<close>

section \<open>The contract\<close>

text \<open>The messages hashed while a list of keys is committed to.\<close>

definition commit_messages :: "(bytes32 list \<Rightarrow> bytes32) \<Rightarrow> bytes32 list \<Rightarrow> byte list set" where
  "commit_messages commit ks =
     (\<lambda>i. if i = 0 then ks ! 0 else commit (take i ks) @ ks ! i) ` {..<length ks}"

locale chained_hash =
  fixes H :: "byte list \<Rightarrow> bytes32"
    and commit :: "bytes32 list \<Rightarrow> bytes32"
  assumes commit_single: "commit [k] = H k"
    and commit_snoc: "ks \<noteq> [] \<Longrightarrow> commit (ks @ [k]) = H (commit ks @ k)"
begin

lemma commit_unique:
  assumes "chained_hash H commit'" and "ks \<noteq> []"
  shows "commit ks = commit' ks"
  using assms(2)
proof (induction ks rule: rev_induct)
  case (snoc k ks)
  note c = chained_hash.commit_single [OF assms(1)] chained_hash.commit_snoc [OF assms(1)]
  show ?case
    using snoc.IH by (cases "ks = []") (simp_all add: commit_single commit_snoc c)
qed simp

lemma commit_is_hash: "ks \<noteq> [] \<Longrightarrow> \<exists>m. commit ks = H m"
  by (cases ks rule: rev_cases) (metis append_Nil commit_single commit_snoc)+

lemma commit_messages_snoc:
  "commit_messages commit (ks @ [k])
    = insert (if ks = [] then k else commit ks @ k) (commit_messages commit ks)"
proof -
  have "{..<length (ks @ [k])} = insert (length ks) {..<length ks}" by auto
  then show ?thesis
    by (auto simp: commit_messages_def image_iff nth_append split: if_splits)
qed

text \<open>The commitment binds: two lists of 32-byte keys with one commitment are equal, unless two of
  the messages hashed on the way collide.\<close>

lemma commit_binding:
  assumes len: "\<And>m. length (H m) = 32"
    and keys: "\<forall>k\<in>set ks \<union> set ks'. length k = 32"
    and inj: "inj_on H (commit_messages commit ks \<union> commit_messages commit ks')"
    and ne: "ks \<noteq> []" "ks' \<noteq> []" and eq: "commit ks = commit ks'"
  shows "ks = ks'"
  using keys inj ne eq
proof (induction ks arbitrary: ks' rule: rev_induct)
  case (snoc k ks)
  obtain k' js where ks': "ks' = js @ [k']" using snoc.prems(4) by (cases ks' rule: rev_cases) auto
  let ?m = "if ks = [] then k else commit ks @ k" and ?m' = "if js = [] then k' else commit js @ k'"
  have hash: "commit (ks @ [k]) = H ?m" "commit (js @ [k']) = H ?m'"
    by (simp_all add: commit_single commit_snoc)
  have mem: "?m \<in> commit_messages commit (ks @ [k])" "?m' \<in> commit_messages commit (js @ [k'])"
    by (simp_all add: commit_messages_snoc)
  have "?m = ?m'"
    by (rule inj_onD [OF snoc.prems(2)]) (use snoc.prems(5) hash mem ks' in auto)
  moreover have "length k = 32" "length k' = 32" using snoc.prems(1) ks' by auto
  moreover have "length (commit xs) = 32" if "xs \<noteq> []" for xs
    using commit_is_hash [OF that] len by auto
  ultimately have "k = k'" and both: "ks = [] \<longleftrightarrow> js = []" and "ks \<noteq> [] \<Longrightarrow> commit ks = commit js"
    by (auto split: if_splits dest: arg_cong [of _ _ length])
  moreover have "ks = js" if "ks \<noteq> []"
  proof (rule snoc.IH)
    show "\<forall>k\<in>set ks \<union> set js. length k = 32" using snoc.prems(1) ks' by auto
    show "inj_on H (commit_messages commit ks \<union> commit_messages commit js)"
      by (rule inj_on_subset [OF snoc.prems(2)]) (auto simp: ks' commit_messages_snoc)
  qed (use that both \<open>ks \<noteq> [] \<Longrightarrow> commit ks = commit js\<close> in auto)
  ultimately show ?case using ks' by (cases "ks = []") auto
qed simp

end

section \<open>The fetcher's hash\<close>

definition compute_authority_set_hash :: "(byte list \<Rightarrow> bytes32) \<Rightarrow> bytes32 list \<Rightarrow> byte list" where
  "compute_authority_set_hash sha authorities =
     foldl (\<lambda>hash_so_far authority. sha (hash_so_far @ authority)) [] authorities"

interpretation host_commit: chained_hash sha "compute_authority_set_hash sha" for sha
  by unfold_locales (simp_all add: compute_authority_set_hash_def)

section \<open>The circuit's commitment\<close>

text \<open>One iteration of the loop over the slots 1, 2, ...: the state is the flag
  \<open>authority_enabled\<close> and \<open>commitment_so_far\<close>.\<close>

definition commitment_step ::
    "gadgets \<Rightarrow> felt \<Rightarrow> bytes32 list \<Rightarrow> nat \<Rightarrow> bool \<times> bytes32 \<Rightarrow> bool \<times> bytes32" where
  "commitment_step G num_active signers i st =
     (let (authority_enabled, commitment_so_far) = st;
          at_end = (i = num_active);
          authority_enabled = (authority_enabled \<and> \<not> at_end);
          input_to_hash = commitment_so_far @ signers ! i;
          chained_hash = curta_sha256 G input_to_hash
      in (authority_enabled, if authority_enabled then chained_hash else commitment_so_far))"

definition compute_authority_set_commitment :: "gadgets \<Rightarrow> felt \<Rightarrow> bytes32 list \<Rightarrow> bytes32 option" where
  "compute_authority_set_commitment G num_active_authorities authority_set_signers = do {
     assert_c ((num_active_authorities = 0) = False);
     let commitment_so_far = curta_sha256 G (authority_set_signers ! 0);
     Some (snd (fold (commitment_step G num_active_authorities authority_set_signers)
                 [1..<length authority_set_signers] (True, commitment_so_far))) }"

lemma commitment_loop:
  assumes "0 < n" "j \<le> length ks" "1 \<le> j"
  shows "fold (commitment_step G n ks) [1..<j] (True, curta_sha256 G (ks ! 0))
    = (j \<le> n, compute_authority_set_hash (curta_sha256 G) (take (min n j) ks))"
  using assms(3,2)
proof (induction j rule: nat_induct_at_least)
  case base
  then have "take 1 ks = [ks ! 0]" by (cases ks) simp_all
  moreover have "min n 1 = 1" using assms(1) by simp
  ultimately show ?case using assms(1)
    by (simp del: One_nat_def add: compute_authority_set_hash_def)
next
  case (Suc j)
  have "compute_authority_set_hash (curta_sha256 G) (take (Suc j) ks)
      = curta_sha256 G (compute_authority_set_hash (curta_sha256 G) (take j ks) @ ks ! j)"
    using Suc.prems Suc.hyps by (simp add: take_Suc_conv_app_nth compute_authority_set_hash_def)
  with Suc show ?case
    by (auto simp: commitment_step_def min_def not_less_eq_eq)
qed

text \<open>The circuit commits to the first \<open>num_active_authorities\<close> slots, and to all of them when the
  number is larger than the array.\<close>

lemma compute_authority_set_commitment_eq:
  assumes "ks \<noteq> []"
  shows "compute_authority_set_commitment G n ks =
    (if n = 0 then None else Some (compute_authority_set_hash (curta_sha256 G) (take n ks)))"
  using assms commitment_loop [of n "length ks" ks G]
  by (auto simp: compute_authority_set_commitment_def Suc_le_eq min_def)

lemma compute_authority_set_commitment_sha:
  assumes "hash_gadgets G" and "ks \<noteq> []"
  shows "compute_authority_set_commitment G n ks =
    (if n = 0 then None else Some (compute_authority_set_hash (sha256 G) (take n ks)))"
  using assms by (simp add: compute_authority_set_commitment_eq hash_gadget_simps)

lemma length_authority_set_hash:
  assumes "hash_gadgets G" and "ks \<noteq> []"
  shows "length (compute_authority_set_hash (sha256 G) ks) = 32"
proof -
  obtain m where "compute_authority_set_hash (sha256 G) ks = sha256 G m"
    using host_commit.commit_is_hash [OF assms(2)] by blast
  then show ?thesis using assms(1) by (simp add: hash_gadget_simps)
qed

interpretation circuit_commit: chained_hash "curta_sha256 G"
    "\<lambda>ks. the (compute_authority_set_commitment G (length ks) ks)" for G
  by unfold_locales
    (simp_all add: compute_authority_set_commitment_eq host_commit.commit_single host_commit.commit_snoc)

section \<open>Properties\<close>

text \<open>C33. The circuit and the fetcher compute the same commitment: for any number of active
  authorities from 1 on, the circuit's result over an array of slots is the fetcher's hash of the
  first that many keys; with no active authority there is no proof.\<close>

theorem commitment_circuit_matches_fetcher:
  assumes "hash_gadgets G" and "ks \<noteq> []"
  shows "compute_authority_set_commitment G n ks =
    (if n = 0 then None else Some (compute_authority_set_hash (sha256 G) (take n ks)))"
  using assms by (rule compute_authority_set_commitment_sha)

theorem commitment_circuit_matches_fetcher_witness:
  "compute_authority_set_commitment toy_gadgets 2 [replicate 32 1, replicate 32 2, replicate 32 3] =
    Some (compute_authority_set_hash toy_digest [replicate 32 1, replicate 32 2])"
  using commitment_circuit_matches_fetcher [OF gadgets_okD(5) [OF toy_gadgets_ok],
      of "[replicate 32 1, replicate 32 2, replicate 32 3]" 2]
  by (simp add: toy_gadgets_def)

text \<open>C34. The commitment binds the authority set: if the circuit computes from its slots the
  commitment of a list of keys, the active slots hold exactly those keys in that order, as long as
  SHA-256 does not collide on the messages hashed for the two lists.\<close>

theorem commitment_binding:
  assumes "hash_gadgets G" and "slots \<noteq> []" and "authorities \<noteq> []"
    and "\<forall>k\<in>set slots \<union> set authorities. length k = 32"
    and "inj_on (sha256 G) (commit_messages (compute_authority_set_hash (sha256 G)) (take n slots)
           \<union> commit_messages (compute_authority_set_hash (sha256 G)) authorities)"
    and "compute_authority_set_commitment G n slots
           = Some (compute_authority_set_hash (sha256 G) authorities)"
  shows "take n slots = authorities"
proof -
  from assms(6) have "0 < n" and eq: "compute_authority_set_hash (sha256 G) (take n slots)
      = compute_authority_set_hash (sha256 G) authorities"
    by (auto simp: compute_authority_set_commitment_eq [OF assms(2)] hash_gadget_simps [OF assms(1)]
        split: if_splits)
  show ?thesis
  proof (rule host_commit.commit_binding [where sha = "sha256 G"])
    show "\<forall>k\<in>set (take n slots) \<union> set authorities. length k = 32"
      using assms(4) by (auto dest: in_set_takeD)
  qed (use assms(1-3,5) \<open>0 < n\<close> eq in \<open>auto simp: hash_gadget_simps\<close>)
qed

theorem commitment_binding_witness:
  "take 2 [replicate 32 1, replicate 32 2, replicate 32 (3 :: byte)] = [replicate 32 1, replicate 32 2]"
proof (rule commitment_binding [OF gadgets_okD(5) [OF toy_gadgets_ok], where n = 2])
  let ?slots = "[replicate 32 1, replicate 32 2, replicate 32 (3 :: byte)]"
  have "{..<length (take 2 ?slots)} = {0, 1}" "{..<length [replicate 32 1, replicate 32 (2 :: byte)]} = {0, 1}"
    by auto
  moreover have "sha256 toy_gadgets = toy_digest" by (simp add: toy_gadgets_def)
  ultimately show "inj_on (sha256 toy_gadgets)
     (commit_messages (compute_authority_set_hash (sha256 toy_gadgets)) (take 2 ?slots)
      \<union> commit_messages (compute_authority_set_hash (sha256 toy_gadgets)) [replicate 32 1, replicate 32 2])"
    by (simp add: commit_messages_def inj_on_def toy_digest_def compute_authority_set_hash_def)
qed (simp_all add: compute_authority_set_commitment_sha [OF gadgets_okD(5) [OF toy_gadgets_ok]])

end
