(* ===== verification/Codec.thy ===== *)
theory Codec
  imports Bytes_Prelude
begin

text \<open>
  The contract between an encoder and a decoder, and the encodings the light client exchanges with
  Avail: SCALE compact integers, as their specification gives them, and the precommit message
  that GRANDPA authorities sign.
\<close>

section \<open>The contract\<close>

locale codec =
  fixes valid :: "'a \<Rightarrow> bool"
    and enc :: "'a \<Rightarrow> byte list"
    and dec :: "byte list \<Rightarrow> 'a option"
  assumes dec_enc: "valid x \<Longrightarrow> dec (enc x) = Some x"
begin

lemma enc_inj: "valid x \<Longrightarrow> valid y \<Longrightarrow> enc x = enc y \<Longrightarrow> x = y"
  by (metis dec_enc option.inject)

end

text \<open>A decoder that looks at a window of fixed size at the front of a buffer and reports how many
  bytes of it the value took.\<close>

locale windowed_codec =
  fixes valid :: "'a \<Rightarrow> bool"
    and enc :: "'a \<Rightarrow> byte list"
    and window :: nat
    and dec :: "byte list \<Rightarrow> ('a \<times> nat) option"
  assumes dec_window: "valid x \<Longrightarrow> window \<le> length (enc x @ rest) \<Longrightarrow>
      dec (take window (enc x @ rest)) = Some (x, length (enc x))"
begin

text \<open>Buffers starting with encodings of two values agree only if the values and the rests do.\<close>

lemma prefix_unique:
  assumes "valid x" "valid y" and "enc x @ r = enc y @ s" and "window \<le> length (enc x @ r)"
  shows "x = y \<and> r = s"
proof -
  have "dec (take window (enc x @ r)) = Some (x, length (enc x))"
    using assms(1,4) by (rule dec_window)
  moreover have "dec (take window (enc x @ r)) = Some (y, length (enc y))"
    using dec_window [OF assms(2), of s] assms(3,4) by simp
  ultimately have "x = y" by simp
  with assms(3) show ?thesis by simp
qed

end

text \<open>A windowed codec reads its own encoding padded with anything that fills the window.\<close>

sublocale windowed_codec \<subseteq> padded: codec valid "\<lambda>x. enc x @ replicate window 0"
    "\<lambda>bs. map_option fst (dec (take window bs))"
proof
  fix x assume "valid x"
  moreover have "window \<le> length (enc x @ replicate window 0)" by simp
  ultimately show "map_option fst (dec (take window (enc x @ replicate window 0))) = Some x"
    using dec_window by fastforce
qed

section \<open>SCALE compact integers\<close>

text \<open>The four modes of the compact encoding of a \<open>u32\<close>, in the two low bits of the first byte.\<close>

definition compact_mode :: "u32 \<Rightarrow> nat" where
  "compact_mode n = (if unat n < 2 ^ 6 then 0 else if unat n < 2 ^ 14 then 1
     else if unat n < 2 ^ 30 then 2 else 3)"

definition scale_compact :: "u32 \<Rightarrow> byte list" where
  "scale_compact n =
     (if unat n < 2 ^ 6 then nat_le 1 (4 * unat n)
      else if unat n < 2 ^ 14 then nat_le 2 (4 * unat n + 1)
      else if unat n < 2 ^ 30 then nat_le 4 (4 * unat n + 2)
      else 3 # nat_le 4 (unat n))"

definition compact_length :: "nat \<Rightarrow> nat" where
  "compact_length mode = [1, 2, 4, 5] ! mode"

lemma compact_mode_lt: "compact_mode n < 4"
  by (simp add: compact_mode_def)

lemma compact_mode_cases:
  obtains "compact_mode n = 0" "unat n < 2 ^ 6" | "compact_mode n = 1" "unat n < 2 ^ 14"
    | "compact_mode n = 2" "unat n < 2 ^ 30" | "compact_mode n = 3"
  unfolding compact_mode_def
  by (cases "unat n < 2 ^ 6"; cases "unat n < 2 ^ 14"; cases "unat n < 2 ^ 30") simp_all

lemma length_scale_compact: "length (scale_compact n) = compact_length (compact_mode n)"
  by (simp add: scale_compact_def compact_mode_def compact_length_def numeral_3_eq_3 numeral_2_eq_2)

lemma length_scale_compact_le: "length (scale_compact n) \<le> 5"
  by (simp add: scale_compact_def)

text \<open>What the low bits of a buffer that starts with a compact integer are.\<close>

lemma le_nat_scale_compact:
  "\<exists>r. le_nat (scale_compact n @ rest) =
     (if compact_mode n = 3 then 3 + 256 * unat n + 256 ^ 5 * r
      else compact_mode n + 4 * unat n + 256 ^ compact_length (compact_mode n) * r)"
proof -
  have n32: "unat n < 2 ^ 32" using unsigned_less [of n] by simp
  show ?thesis
    by (rule exI [of _ "le_nat rest"])
      (use n32 in \<open>simp del: nat_le.simps add: scale_compact_def compact_mode_def compact_length_def bytes_simps\<close>)
qed

section \<open>The signed precommit message\<close>

record target_precommit =
  target_hash :: bytes32
  target_number :: u32

datatype signer_message = DummyMessage u32 | PrecommitMessage target_precommit

text \<open>The derived SCALE encoding: the constructor's index, then its fields.\<close>

fun encode_signer_message :: "signer_message \<Rightarrow> byte list" where
  "encode_signer_message (DummyMessage n) = 0 # u32_to_le n"
| "encode_signer_message (PrecommitMessage p) = 1 # target_hash p @ u32_to_le (target_number p)"

text \<open>What a GRANDPA authority signs: the message, the round and the authority set id.\<close>

definition signed_message :: "target_precommit \<Rightarrow> u64 \<Rightarrow> u64 \<Rightarrow> byte list" where
  "signed_message p round set_id =
     encode_signer_message (PrecommitMessage p) @ u64_to_le round @ u64_to_le set_id"

lemma length_signed_message: "length (target_hash p) = 32 \<Longrightarrow> length (signed_message p r i) = 53"
  by (simp add: signed_message_def)

lemma signed_message_segments:
  assumes "length (target_hash p) = 32"
  shows "segment 1 33 (signed_message p r i) = target_hash p"
    "segment 33 37 (signed_message p r i) = u32_to_le (target_number p)"
    "segment 37 45 (signed_message p r i) = u64_to_le r"
    "segment 45 53 (signed_message p r i) = u64_to_le i"
  using assms by (simp_all add: signed_message_def segment_def)

text \<open>Any 53 bytes that start with the precommit tag are the message of their fields.\<close>

lemma signed_message_of_bytes:
  assumes "length m = 53" and "m ! 0 = 1"
  shows "signed_message \<lparr>target_hash = segment 1 33 m, target_number = u32_from_le (segment 33 37 m)\<rparr>
      (u64_from_le (segment 37 45 m)) (u64_from_le (segment 45 53 m)) = m"
proof -
  have "segment 0 53 m = m" using assms(1) by simp
  moreover have "segment 0 53 m = segment 0 1 m @ segment 1 33 m @ segment 33 37 m
      @ segment 37 45 m @ segment 45 53 m"
    by (simp only: segment_split [of 0 1 53 m] segment_split [of 1 33 53 m]
        segment_split [of 33 37 53 m] segment_split [of 37 45 53 m])
  moreover have "segment 0 1 m = [1]"
    using assms by (cases m) (simp_all add: segment_def)
  ultimately show ?thesis
    using assms(1) by (simp add: signed_message_def u32_to_le_from_le u64_to_le_from_le)
qed

end
