(* ===== verification/Client.thy ===== *)
theory Client
  imports Authority_Set Codec
begin

text \<open>
  The fetcher's access to the chain and to Redis (\<open>circuits/input/mod.rs\<close>): the connections with their
  retries, the getters, the ranges of headers and the Merkle roots over them. The RPC node, Redis, the
  SCALE encoders of \<open>avail_subxt\<close> and the cryptographic primitives are fields of the record \<open>client\<close>;
  their answers are those of a finalised chain and do not change during a call.
\<close>

section \<open>What the fetcher talks to\<close>

text \<open>A log of a header's digest; only consensus logs are told apart.\<close>

datatype digest_item = Consensus "byte list" "byte list" | Other_log "byte list"

record avail_header =
  hdr_parent_hash :: bytes32
  hdr_number :: u32
  hdr_state_root :: bytes32
  hdr_extrinsics_root :: bytes32
  hdr_logs :: "digest_item list"
  hdr_extension :: "byte list"
  hdr_data_root :: bytes32

record signed_precommit =
  sp_precommit :: target_precommit
  sp_signature :: "byte list"
  sp_id :: bytes32

record commit =
  cm_target_hash :: bytes32
  cm_target_number :: u32
  cm_precommits :: "signed_precommit list"

record grandpa_justification =
  gj_round :: u64
  gj_commit :: commit

record stored_justification =
  st_block_number :: u32
  st_signed_message :: "byte list"
  st_pubkeys :: "bytes32 list"
  st_signatures :: "byte list list"
  st_validator_signed :: "bool list"
  st_num_authorities :: nat

text \<open>None is an error of the node or a missing value; the code unwraps both.\<close>

record client =
  c_health :: "nat \<Rightarrow> bool"
  c_build :: "nat \<Rightarrow> bool"
  c_block_hash :: "u32 \<Rightarrow> bytes32 option"
  c_header :: "bytes32 \<Rightarrow> avail_header option"
  c_finalized_head :: "bytes32 option"
  c_set_id :: "bytes32 \<Rightarrow> u64 option"
  c_authorities :: "bytes32 \<Rightarrow> byte list option"
  c_prove_finality :: "u32 \<Rightarrow> grandpa_justification option"
  c_redis :: "nat \<Rightarrow> bool"
  c_stored :: "u32 \<Rightarrow> stored_justification list option option"
    \<comment> \<open>the JSON value under a key, the inner None one that does not deserialize\<close>
  c_stored_blocks :: "u32 \<Rightarrow> u32 \<Rightarrow> u32 list option"
  c_encode_header :: "avail_header \<Rightarrow> byte list"
  c_encode_log :: "digest_item \<Rightarrow> byte list"
  c_compact :: "u32 \<Rightarrow> byte list"
  c_header_hash :: "avail_header \<Rightarrow> bytes32"
  c_sha256 :: "byte list \<Rightarrow> bytes32"
  c_verify :: "bytes32 \<Rightarrow> byte list \<Rightarrow> byte list \<Rightarrow> bool"   \<comment> \<open>Ed25519, signatures of 64 bytes\<close>
  c_dummy_key :: bytes32              \<comment> \<open>\<open>DUMMY_PUBLIC_KEY\<close>\<close>
  c_dummy_signature :: "byte list"    \<comment> \<open>\<open>DUMMY_SIGNATURE\<close>\<close>

text \<open>What the fetcher relies on of the encoders: the layout of a header, of a consensus log and of
  compact integers.\<close>

definition header_layout :: "(digest_item \<Rightarrow> byte list) \<Rightarrow> avail_header \<Rightarrow> byte list" where
  "header_layout enc_log h = hdr_parent_hash h @ scale_compact (hdr_number h) @ hdr_state_root h
     @ hdr_extrinsics_root h @ scale_compact (of_nat (length (hdr_logs h)))
     @ concat (map enc_log (hdr_logs h)) @ hdr_extension h @ hdr_data_root h"

definition avail_encoding :: "client \<Rightarrow> bool" where
  "avail_encoding c \<longleftrightarrow> (\<forall>h. c_encode_header c h = header_layout (c_encode_log c) h)
     \<and> (\<forall>engine v. c_encode_log c (Consensus engine v) = 4 # engine @ scale_compact (of_nat (length v)) @ v)
     \<and> (\<forall>n. c_compact c n = scale_compact n)"

section \<open>A concrete client\<close>

text \<open>A node that serves the headers \<open>hdr\<close>, set ids \<open>ids\<close> and authority encodings \<open>auths\<close> of the blocks
  up to \<open>head\<close>, under a given hash function, reachable at the third attempt.\<close>

fun toy_encode_log :: "digest_item \<Rightarrow> byte list" where
  "toy_encode_log (Consensus engine v) = 4 # engine @ scale_compact (of_nat (length v)) @ v"
| "toy_encode_log (Other_log bs) = 0 # bs"

definition toy_client :: "(nat \<Rightarrow> avail_header) \<Rightarrow> nat \<Rightarrow> (nat \<Rightarrow> nat) \<Rightarrow> (nat \<Rightarrow> byte list)
    \<Rightarrow> (byte list \<Rightarrow> bytes32) \<Rightarrow> client" where
  "toy_client hdr head ids auths hash = (let number = (\<lambda>h. unat (u32_from_le h)) in
     \<lparr>c_health = (\<lambda>i. i = 2), c_build = (\<lambda>i. False), c_block_hash = (\<lambda>n. Some (u32_to_le n)),
      c_header = (\<lambda>h. Some (hdr (number h))), c_finalized_head = Some (u32_to_le (of_nat head)),
      c_set_id = (\<lambda>h. Some (of_nat (ids (number h)))), c_authorities = (\<lambda>h. Some (auths (number h))),
      c_prove_finality = (\<lambda>n. None), c_redis = (\<lambda>i. i = 1), c_stored = (\<lambda>n. None),
      c_stored_blocks = (\<lambda>a b. Some []),
      c_encode_header = header_layout toy_encode_log, c_encode_log = toy_encode_log,
      c_compact = scale_compact, c_header_hash = (\<lambda>h. hash (header_layout toy_encode_log h)),
      c_sha256 = hash, c_verify = (\<lambda>pk m s. s \<noteq> []), c_dummy_key = replicate 32 1,
      c_dummy_signature = replicate 64 1\<rparr>)"

lemma toy_client_encoding: "avail_encoding (toy_client hdr head ids auths hash)"
  by (simp add: avail_encoding_def toy_client_def Let_def)

section \<open>Connections\<close>

definition MAX_RECONNECT_ATTEMPTS :: nat where "MAX_RECONNECT_ATTEMPTS = 3"

text \<open>Attempt \<open>i\<close> of each loop; the loops end after \<open>MAX_RECONNECT_ATTEMPTS\<close>.\<close>

fun refresh_loop :: "client \<Rightarrow> nat list \<Rightarrow> unit host" where
  "refresh_loop c [] = Inl (Failed ''Failed to connect to Avail client after multiple attempts!'')"
| "refresh_loop c (i # is) =
     (if c_health c i then Inr () else if c_build c i then Inr () else refresh_loop c is)"

definition refresh_ws_connection :: "client \<Rightarrow> unit host" where
  "refresh_ws_connection c = refresh_loop c [0..<MAX_RECONNECT_ATTEMPTS]"

fun redis_loop :: "client \<Rightarrow> nat list \<Rightarrow> unit host" where
  "redis_loop c [] = Inl (Failed ''Failed to connect to Redis after multiple attempts!'')"
| "redis_loop c (i # is) = (if c_redis c i then Inr () else redis_loop c is)"

definition get_connection :: "client \<Rightarrow> unit host" where
  "get_connection c = redis_loop c [0..<MAX_RECONNECT_ATTEMPTS]"

text \<open>\<open>expect\<close> on the result of a connection.\<close>

definition expect_h :: "'a host \<Rightarrow> 'a host" where
  "expect_h m = (case m of Inl e \<Rightarrow> Inl Unwrap_none | Inr x \<Rightarrow> Inr x)"

definition connected :: "client \<Rightarrow> bool" where
  "connected c \<longleftrightarrow> expect_h (refresh_ws_connection c) = Inr ()"

lemma connected_expect [simp]: "connected c \<Longrightarrow> expect_h (refresh_ws_connection c) = Inr ()"
  by (simp add: connected_def)

lemma refresh_loop_ok_iff: "refresh_loop c is = Inr () \<longleftrightarrow> (\<exists>i\<in>set is. c_health c i \<or> c_build c i)"
  by (induction "is") auto

lemma connected_iff: "connected c \<longleftrightarrow> (\<exists>i<3. c_health c i \<or> c_build c i)"
proof -
  have "connected c \<longleftrightarrow> refresh_loop c [0..<3] = Inr ()"
    by (cases "refresh_loop c [0..<3]")
      (simp_all add: connected_def expect_h_def refresh_ws_connection_def MAX_RECONNECT_ATTEMPTS_def)
  then show ?thesis by (auto simp: refresh_loop_ok_iff)
qed

section \<open>Getters\<close>

definition get_block_hash :: "client \<Rightarrow> u32 \<Rightarrow> bytes32 host" where
  "get_block_hash c n = unwrap (c_block_hash c n)"

definition get_header :: "client \<Rightarrow> u32 \<Rightarrow> avail_header host" where
  "get_header c n = bind_h (get_block_hash c n) (\<lambda>h. unwrap (c_header c h))"

definition get_head :: "client \<Rightarrow> avail_header host" where
  "get_head c = bind_h (expect_h (refresh_ws_connection c)) (\<lambda>_.
     bind_h (unwrap (c_finalized_head c)) (\<lambda>h. unwrap (c_header c h)))"

definition get_authority_set_id :: "client \<Rightarrow> u32 \<Rightarrow> u64 host" where
  "get_authority_set_id c n = bind_h (expect_h (refresh_ws_connection c)) (\<lambda>_.
     bind_h (get_block_hash c n) (\<lambda>h. unwrap (c_set_id c h)))"

lemma toy_client_simps:
  assumes "n < 2 ^ 32"
  shows "get_header (toy_client hdr head ids auths hash) (of_nat n) = Inr (hdr n)"
    and "get_authority_set_id (toy_client hdr head ids auths hash) (of_nat n) = Inr (of_nat (ids n))"
proof -
  have "connected (toy_client hdr head ids auths hash)"
    by (auto simp: connected_iff toy_client_def Let_def intro: exI [of _ 2])
  moreover have "unat (of_nat n :: u32) = n" using assms by (intro unat_of_nat_small) simp
  ultimately show "get_header (toy_client hdr head ids auths hash) (of_nat n) = Inr (hdr n)"
    and "get_authority_set_id (toy_client hdr head ids auths hash) (of_nat n) = Inr (of_nat (ids n))"
    by (simp_all add: get_header_def get_authority_set_id_def get_block_hash_def)
      (simp_all add: toy_client_def Let_def)
qed

section \<open>Merkle roots\<close>

text \<open>\<open>usize::count_ones\<close>.\<close>

fun count_ones :: "nat \<Rightarrow> nat" where
  "count_ones n = (if n = 0 then 0 else n mod 2 + count_ones (n div 2))"

declare count_ones.simps [simp del]

lemma count_ones_0_iff: "count_ones n = 0 \<longleftrightarrow> n = 0"
proof (induction n rule: count_ones.induct)
  case (1 n)
  then show ?case by (subst count_ones.simps) auto
qed

lemma count_ones_1_iff: "count_ones n = 1 \<longleftrightarrow> (\<exists>k. n = 2 ^ k)"
proof (induction n rule: count_ones.induct)
  case (1 n)
  show ?case
  proof (cases "n mod 2 = 1")
    case True
    then have "count_ones n = 1 \<longleftrightarrow> n = 1"
      by (subst count_ones.simps) (auto simp: count_ones_0_iff)
    moreover have "n = 1" if "n = 2 ^ k" for k using that True by (cases k) auto
    ultimately show ?thesis by (metis power_0)
  next
    case False
    show ?thesis
    proof (cases "n = 0")
      case False
      have n: "n = 2 * (n div 2)" using \<open>n mod 2 \<noteq> 1\<close> by presburger
      have "count_ones n = count_ones (n div 2)"
        using False \<open>n mod 2 \<noteq> 1\<close> by (subst count_ones.simps) simp
      also have "\<dots> = 1 \<longleftrightarrow> (\<exists>k. n div 2 = 2 ^ k)" by (rule "1.IH") (rule False)
      also have "\<dots> \<longleftrightarrow> (\<exists>k. n = 2 ^ k)"
      proof
        assume "\<exists>k. n = 2 ^ k"
        then obtain k where "n = 2 ^ k" ..
        with \<open>n mod 2 \<noteq> 1\<close> show "\<exists>k. n div 2 = 2 ^ k" by (cases k) auto
      qed (metis n power_Suc)
      finally show ?thesis .
    qed (simp add: count_ones.simps)
  qed
qed

text \<open>\<open>while leaves.len().count_ones() != 1\<close> a zero leaf is pushed.\<close>

function pad_leaves :: "byte list list \<Rightarrow> byte list list" where
  "pad_leaves leaves = (if leaves = [] \<or> count_ones (length leaves) = 1 then leaves
     else pad_leaves (leaves @ [replicate 32 0]))"
  by auto

termination
proof (relation "measure (\<lambda>leaves. LEAST d. count_ones (length leaves + d) = 1)")
  fix leaves :: "byte list list"
  assume "\<not> (leaves = [] \<or> count_ones (length leaves) = 1)"
  then have not_yet: "count_ones (length leaves + 0) \<noteq> 1" by simp
  let ?P = "\<lambda>d. count_ones (length leaves + d) = 1"
  have "length leaves < 2 ^ length leaves" by (rule less_exp)
  then have "?P (2 ^ length leaves - length leaves)" by (subst count_ones_1_iff) auto
  then have "?P (Least ?P)" by (rule LeastI)
  with not_yet obtain d where d: "Least ?P = Suc d" by (cases "Least ?P") auto
  with \<open>?P (Least ?P)\<close> have "count_ones (length (leaves @ [replicate 32 0]) + d) = 1" by simp
  then have "(LEAST d. count_ones (length (leaves @ [replicate 32 0]) + d) = 1) \<le> d" by (rule Least_le)
  with d show "(leaves @ [replicate 32 0], leaves)
      \<in> measure (\<lambda>leaves. LEAST d. count_ones (length leaves + d) = 1)" by simp
qed simp

declare pad_leaves.simps [simp del]

definition merkle_level :: "(byte list \<Rightarrow> bytes32) \<Rightarrow> byte list list \<Rightarrow> byte list list" where
  "merkle_level sha nodes = map (\<lambda>i. sha (nodes ! (2 * i) @ nodes ! (2 * i + 1))) [0..<length nodes div 2]"

function merkle_loop :: "(byte list \<Rightarrow> bytes32) \<Rightarrow> byte list list \<Rightarrow> byte list list" where
  "merkle_loop sha nodes = (if length nodes > 1 then merkle_loop sha (merkle_level sha nodes) else nodes)"
  by auto
termination by (relation "measure (\<lambda>(sha, nodes). length nodes)") (auto simp: merkle_level_def)

declare merkle_loop.simps [simp del]

definition get_merkle_root :: "(byte list \<Rightarrow> bytes32) \<Rightarrow> byte list list \<Rightarrow> byte list" where
  "get_merkle_root sha leaves = (if leaves = [] then []
     else let leaves = pad_leaves leaves in merkle_loop sha leaves ! 0)"

lemma pad_leaves_power: "length leaves = 2 ^ k \<Longrightarrow> pad_leaves leaves = leaves"
  using count_ones_1_iff [of "length leaves"] by (subst pad_leaves.simps) auto

lemma merkle_level_append:
  assumes "even (length xs)" "even (length ys)"
  shows "merkle_level sha (xs @ ys) = merkle_level sha xs @ merkle_level sha ys"
proof -
  obtain a b where ab: "length xs = 2 * a" "length ys = 2 * b" using assms by (auto elim!: evenE)
  then have "[0..<length (xs @ ys) div 2] = [0..<a] @ map (\<lambda>i. a + i) [0..<b]"
    using upt_split [of a b] by simp
  then show ?thesis using ab by (simp add: merkle_level_def nth_append)
qed

lemma merkle_loop_append:
  "length xs = 2 ^ k \<Longrightarrow> length ys = 2 ^ k \<Longrightarrow>
    merkle_loop sha (xs @ ys) = [sha (merkle_loop sha xs ! 0 @ merkle_loop sha ys ! 0)]"
proof (induction k arbitrary: xs ys)
  case 0
  then obtain x y where "xs = [x]" "ys = [y]" by (auto simp: length_Suc_conv)
  then show ?case by (simp add: merkle_loop.simps merkle_level_def)
next
  case (Suc k)
  have len: "length (merkle_level sha xs) = 2 ^ k" "length (merkle_level sha ys) = 2 ^ k"
    using Suc.prems by (simp_all add: merkle_level_def)
  have big: "1 < length xs" "1 < length ys" "1 < length (xs @ ys)"
    using Suc.prems one_less_power [of "2 :: nat" "Suc k"] by auto
  have "merkle_loop sha (xs @ ys) = merkle_loop sha (merkle_level sha xs @ merkle_level sha ys)"
    using big(3) Suc.prems by (subst merkle_loop.simps) (simp add: merkle_level_append)
  also have "\<dots> = [sha (merkle_loop sha (merkle_level sha xs) ! 0 @ merkle_loop sha (merkle_level sha ys) ! 0)]"
    by (rule Suc.IH [OF len])
  also have "merkle_loop sha (merkle_level sha xs) = merkle_loop sha xs"
    using big(1) by (subst (2) merkle_loop.simps) simp
  also have "merkle_loop sha (merkle_level sha ys) = merkle_loop sha ys"
    using big(2) by (subst (2) merkle_loop.simps) simp
  finally show ?case .
qed

text \<open>The fetcher's root is a pairwise root over \<open>SHA-256(left || right)\<close>.\<close>

interpretation host_root: pairwise_root "\<lambda>l r. sha (l @ r)" "get_merkle_root sha" for sha
proof
  fix x :: "byte list"
  show "get_merkle_root sha [x] = x"
    using pad_leaves_power [of "[x]" 0] by (simp add: get_merkle_root_def merkle_loop.simps)
next
  fix xs ys :: "byte list list" and k
  assume len: "length xs = 2 ^ k" "length ys = 2 ^ k"
  then have "length (xs @ ys) = 2 ^ Suc k" by simp
  note pads = pad_leaves_power [OF len(1)] pad_leaves_power [OF len(2)] pad_leaves_power [OF this]
  have "xs \<noteq> []" "ys \<noteq> []" using len by auto
  then show "get_merkle_root sha (xs @ ys) = sha (get_merkle_root sha xs @ get_merkle_root sha ys)"
    by (simp add: get_merkle_root_def pads merkle_loop_append [OF len])
qed

lemma get_merkle_root_eq: "length leaves = 2 ^ k \<Longrightarrow> get_merkle_root sha leaves = list_root (\<lambda>l r. sha (l @ r)) leaves"
  by (rule host_root.root_unique [OF ref_root.pairwise_root_axioms])

section \<open>Ranges of headers\<close>

definition MAX_CONCURRENT_WS_REQUESTS :: u32 where [simp]: "MAX_CONCURRENT_WS_REQUESTS = 200"

text \<open>Rust's \<open>a..b\<close> on \<open>u32\<close>.\<close>

definition u32_range :: "u32 \<Rightarrow> u32 \<Rightarrow> u32 list" where
  "u32_range a b = map of_nat [unat a..<unat b]"

lemma bind_h_cong [fundef_cong]:
  "m = m' \<Longrightarrow> (\<And>x. m' = Inr x \<Longrightarrow> f x = f' x) \<Longrightarrow> bind_h m f = bind_h m' f'"
  by (cases m') simp_all

function headers_loop :: "client \<Rightarrow> u32 \<Rightarrow> u32 \<Rightarrow> avail_header list \<Rightarrow> avail_header list host" where
  "headers_loop c curr_block end_block_number headers =
     (if curr_block \<le> end_block_number then
        bind_h (add_ck curr_block MAX_CONCURRENT_WS_REQUESTS) (\<lambda>next_block.
        bind_h (sub_ck next_block 1) (\<lambda>last.
        let end_block = min last end_block_number in
        bind_h (add_ck end_block 1) (\<lambda>stop.
        bind_h (map_h (get_header c) (u32_range curr_block stop)) (\<lambda>headers_batch.
        headers_loop c next_block end_block_number (headers @ headers_batch)))))
      else Inr headers)"
  by pat_completeness auto
termination
  by (relation "measure (\<lambda>(c, cur, stop, hs). unat stop + 1 - unat cur)")
    (auto dest!: add_ck_InrD simp: word_le_nat_alt)

declare headers_loop.simps [simp del]

definition get_block_headers_range :: "client \<Rightarrow> u32 \<Rightarrow> u32 \<Rightarrow> avail_header list host" where
  "get_block_headers_range c start_block_number end_block_number =
     bind_h (expect_h (refresh_ws_connection c)) (\<lambda>_.
       headers_loop c start_block_number end_block_number [])"

definition get_merkle_root_commitments :: "client \<Rightarrow> u32 \<Rightarrow> u32 \<Rightarrow> (byte list \<times> byte list) host" where
  "get_merkle_root_commitments c start_block end_block =
     bind_h (sub_ck end_block start_block) (\<lambda>d.
     bind_h (assert_h (Panic ''Range too large!'') (\<not> unat d > MAX_NUM_HEADERS)) (\<lambda>_.
     bind_h (add_ck start_block 1) (\<lambda>first.
     bind_h (get_block_headers_range c first end_block) (\<lambda>headers.
     let pad = replicate (MAX_NUM_HEADERS - length headers) (replicate 32 0);
         data_root_leaves = map hdr_data_root headers @ pad;
         state_root_leaves = map hdr_state_root headers @ pad
     in Inr (get_merkle_root (c_sha256 c) state_root_leaves, get_merkle_root (c_sha256 c) data_root_leaves)))))"

text \<open>The loop fetches every header of the range once and in order.\<close>

lemma headers_loop_eq:
  assumes "unat stop + 200 < 2 ^ 32"
    and "\<forall>i. unat cur \<le> i \<and> i \<le> unat stop \<longrightarrow> get_header c (of_nat i) = Inr (hdr i)"
  shows "headers_loop c cur stop hs = Inr (hs @ map hdr [unat cur..<unat stop + 1])"
  using assms
proof (induction c cur stop hs rule: headers_loop.induct)
  case (1 c cur stop hs)
  show ?case
  proof (cases "cur \<le> stop")
    case False
    then have "[unat cur..<unat stop + 1] = []" by (simp add: word_le_nat_alt)
    with False show ?thesis by (subst headers_loop.simps) simp
  next
    case True
    then have le: "unat cur \<le> unat stop" by (simp add: word_le_nat_alt)
    have next_eq: "add_ck cur 200 = Inr (cur + 200)" "unat (cur + 200) = unat cur + 200"
      using le 1(2) by (simp_all add: add_ck_def unat_word_ariths)
    have last: "sub_ck (cur + 200) 1 = Inr (cur + 200 - 1)" "unat (cur + 200 - 1) = unat cur + 199"
      using next_eq(2) unat_sub [of 1 "cur + 200"]
      by (simp_all add: sub_ck_def word_le_nat_alt)
    define e where "e = min (cur + 200 - 1) stop"
    define m where "m = min (unat cur + 200) (unat stop + 1)"
    have e: "unat e = m - 1" "0 < m" "unat cur < m" "m \<le> unat stop + 1"
      using last(2) le by (auto simp: e_def m_def min_def word_le_nat_alt)
    have stop_eq: "add_ck e 1 = Inr (e + 1)" "unat (e + 1) = m"
      using e 1(2) by (simp_all add: add_ck_def unat_word_ariths)
    have batch: "map_h (get_header c) (u32_range cur (e + 1)) = Inr (map hdr [unat cur..<m])"
    proof -
      have "map_h (get_header c) (map of_nat [unat cur..<m]) = Inr (map hdr [unat cur..<m])"
        unfolding map_h_map by (rule map_h_Inr) (use 1(3) e in auto)
      then show ?thesis by (simp add: u32_range_def stop_eq(2))
    qed
    have IH: "headers_loop c (cur + 200) stop (hs @ map hdr [unat cur..<m])
        = Inr ((hs @ map hdr [unat cur..<m]) @ map hdr [unat (cur + 200)..<unat stop + 1])"
      by (rule "1.IH" [OF True])
        (use 1(2,3) next_eq last stop_eq batch in \<open>auto simp: e_def\<close>)
    have "[unat cur..<unat stop + 1] = [unat cur..<m] @ [unat (cur + 200)..<unat stop + 1]"
      using upt_add_eq_append [of "unat cur" m "unat stop + 1 - m"] e
      by (auto simp: m_def min_def next_eq(2))
    moreover have "min (199 + cur) stop = e" by (simp add: e_def)
    ultimately show ?thesis
      using IH True next_eq(1) last(1) stop_eq(1) batch
      by (subst headers_loop.simps) (simp add: Let_def del: upt_Suc)
  qed
qed

lemma get_block_headers_range_eq:
  assumes "connected c" and "unat stop + 200 < 2 ^ 32"
    and "\<forall>i. unat start \<le> i \<and> i \<le> unat stop \<longrightarrow> get_header c (of_nat i) = Inr (hdr i)"
  shows "get_block_headers_range c start stop = Inr (map hdr [unat start..<unat stop + 1])"
  using assms headers_loop_eq [OF assms(2,3), of "[]"] by (simp add: get_block_headers_range_def)

text \<open>The commitments of a range are the roots the header range circuit outputs.\<close>

lemma get_merkle_root_commitments_eq:
  assumes "connected c" and "unat stop + 200 < 2 ^ 32" and "start \<le> stop" and "unat stop - unat start \<le> 256"
    and "\<forall>i. unat start < i \<and> i \<le> unat stop \<longrightarrow> get_header c (of_nat i) = Inr (hdr i)"
  shows "get_merkle_root_commitments c start stop =
    (let pad = replicate (256 - (unat stop - unat start)) (replicate 32 0);
         blocks = [unat start + 1..<unat stop + 1]; node = (\<lambda>l r. c_sha256 c (l @ r))
     in Inr (list_root node (map (\<lambda>i. hdr_state_root (hdr i)) blocks @ pad),
             list_root node (map (\<lambda>i. hdr_data_root (hdr i)) blocks @ pad)))"
proof -
  have le: "unat start \<le> unat stop" using assms(3) by (simp add: word_le_nat_alt)
  have diff: "sub_ck stop start = Inr (stop - start)" "unat (stop - start) = unat stop - unat start"
    using assms(3) unat_sub [of start stop] by (simp_all add: sub_ck_def)
  have first: "add_ck start 1 = Inr (start + 1)" "unat (start + 1) = unat start + 1"
    using le assms(2) by (simp_all add: add_ck_def unat_word_ariths)
  have range: "get_block_headers_range c (start + 1) stop = Inr (map hdr [unat start + 1..<unat stop + 1])"
    using get_block_headers_range_eq [OF assms(1,2), of "start + 1" hdr] assms(5) first(2) by simp
  have len: "length (map f [unat start + 1..<unat stop + 1]
      @ replicate (256 - (unat stop - unat start)) (replicate 32 (0 :: byte))) = 2 ^ 8" for f
    using assms(4) by simp
  show ?thesis
    using assms(4) diff first(1) range get_merkle_root_eq [OF len [of "\<lambda>i. hdr_state_root (hdr i)"]]
      get_merkle_root_eq [OF len [of "\<lambda>i. hdr_data_root (hdr i)"]]
    by (simp add: get_merkle_root_commitments_def Let_def comp_def del: upt_Suc)
qed

text \<open>Padding stops at the next power of two.\<close>

lemma pad_leaves_eq:
  assumes "leaves \<noteq> []"
  shows "\<exists>k. length leaves \<le> 2 ^ k \<and> 2 ^ k < 2 * length leaves
    \<and> pad_leaves leaves = leaves @ replicate (2 ^ k - length leaves) (replicate 32 0)"
  using assms
proof (induction leaves rule: pad_leaves.induct)
  case (1 leaves)
  show ?case
  proof (cases "count_ones (length leaves) = 1")
    case True
    then obtain k where "length leaves = 2 ^ k" using count_ones_1_iff by blast
    with "1.prems" show ?thesis by (intro exI [of _ k]) (auto simp: pad_leaves_power)
  next
    case False
    with "1.prems" 1 obtain k where k: "length leaves + 1 \<le> 2 ^ k" "2 ^ k < 2 * (length leaves + 1)"
      "pad_leaves (leaves @ [replicate 32 0])
        = (leaves @ [replicate 32 0]) @ replicate (2 ^ k - (length leaves + 1)) (replicate 32 0)"
      by auto
    have "length leaves \<noteq> 2 ^ (k - 1)" using False count_ones_1_iff by blast
    then have "2 ^ k < 2 * length leaves" using k(1,2) "1.prems" by (cases k) auto
    moreover have "2 ^ k - length leaves = Suc (2 ^ k - (length leaves + 1))" using k(1) by simp
    ultimately show ?thesis
      using k "1.prems" False by (intro exI [of _ k]) (subst pad_leaves.simps, simp)
  qed
qed

section \<open>Properties\<close>

text \<open>The fetcher's Merkle root pads the leaves with zero hashes to the next power of two and is the
  root of the perfect binary tree over them.\<close>

theorem get_merkle_root_padded:
  assumes "leaves \<noteq> []"
  shows "\<exists>k. length leaves \<le> 2 ^ k \<and> 2 ^ k < 2 * length leaves
    \<and> get_merkle_root sha leaves
      = list_root (\<lambda>l r. sha (l @ r)) (leaves @ replicate (2 ^ k - length leaves) (replicate 32 0))"
proof -
  obtain k where k: "length leaves \<le> 2 ^ k" "2 ^ k < 2 * length leaves"
    "pad_leaves leaves = leaves @ replicate (2 ^ k - length leaves) (replicate 32 0)"
    using pad_leaves_eq [OF assms] by blast
  let ?p = "leaves @ replicate (2 ^ k - length leaves) (replicate 32 0)"
  have len: "length ?p = 2 ^ k" using k(1) by simp
  have "get_merkle_root sha leaves = get_merkle_root sha ?p"
    using assms pad_leaves_power [OF len] by (simp add: get_merkle_root_def k(3))
  with k get_merkle_root_eq [OF len] show ?thesis by metis
qed

theorem get_merkle_root_padded_witness:
  "\<exists>k. length [[1], [2], [3 :: byte]] \<le> 2 ^ k \<and> 2 ^ k < 2 * length [[1], [2], [3 :: byte]]
    \<and> get_merkle_root (take 5) [[1], [2], [3]]
      = list_root (\<lambda>l r. take 5 (l @ r)) ([[1], [2], [3]] @ replicate (2 ^ k - length [[1], [2], [3 :: byte]]) (replicate 32 0))"
  by (rule get_merkle_root_padded) simp

text \<open>Every header of a range is fetched exactly once and in order, across the batches of 200
  requests, when the connection can be made and the range stays 200 below the end of \<open>u32\<close>.\<close>

theorem headers_range_complete:
  assumes "\<exists>i<3. c_health c i \<or> c_build c i" and "unat stop + 200 < 2 ^ 32"
    and "\<forall>i. unat start \<le> i \<and> i \<le> unat stop \<longrightarrow> get_header c (of_nat i) = Inr (hdr i)"
  shows "get_block_headers_range c start stop = Inr (map hdr [unat start..<unat stop + 1])"
  using get_block_headers_range_eq assms connected_iff by blast

text \<open>A header with its number and nothing else.\<close>

definition numbered_header :: "nat \<Rightarrow> avail_header" where
  "numbered_header i = \<lparr>hdr_parent_hash = [], hdr_number = of_nat i, hdr_state_root = [],
     hdr_extrinsics_root = [], hdr_logs = [], hdr_extension = [], hdr_data_root = []\<rparr>"

definition plain_client :: client where
  "plain_client = toy_client numbered_header 9 (\<lambda>i. 0) (\<lambda>i. []) (\<lambda>m. m)"

theorem headers_range_complete_witness:
  "get_block_headers_range plain_client 3 5 = Inr [numbered_header 3, numbered_header 4, numbered_header 5]"
proof -
  have "\<exists>i<3. c_health plain_client i \<or> c_build plain_client i"
    by (auto simp: plain_client_def toy_client_def Let_def intro: exI [of _ 2])
  then have "get_block_headers_range plain_client 3 5
      = Inr (map numbered_header [unat (3 :: u32)..<unat (5 :: u32) + 1])"
    by (rule headers_range_complete) (auto simp: plain_client_def intro: toy_client_simps)
  then show ?thesis by (simp add: upt_rec)
qed

end
