(* ===== verification/Decoder.thy ===== *)
theory Decoder
  imports Circuit_Gadgets Codec
begin

text \<open>
  The decoding circuits of \<open>circuits/builder/decoder.rs\<close> and the header hash of
  \<open>circuits/builder/header.rs\<close>: SCALE compact integers, Avail headers and precommit messages.
  Each circuit gets an equation or a characterisation in terms of the bytes it reads, from which
  the round trips with the encodings of theory Codec follow.
\<close>

section \<open>The circuits\<close>

definition hash_encoded_header :: "gadgets \<Rightarrow> encoded_header \<Rightarrow> bytes32" where
  "hash_encoded_header G header = curta_blake2b_variable G (header_bytes header) (header_size header)"

definition decode_compact_int :: "gadgets \<Rightarrow> byte list \<Rightarrow> (u32 \<times> felt) option" where
  "decode_compact_int G compact_bytes =
     (let bool_targets = concat (map (\<lambda>x. rev (as_bool_targets G x)) compact_bytes);
          compress_mode = le_sum G (segment 0 2 bool_targets);
          zero_mode_value = le_sum G (segment 2 8 bool_targets);
          one_mode_value = le_sum G (segment 2 16 bool_targets);
          two_mode_value = le_sum G (segment 2 32 bool_targets);
          three_mode_value = le_sum G (segment 8 40 bool_targets);
          value = select_felt G
            [zero_mode_value, one_mode_value, two_mode_value, three_mode_value] compress_mode;
          is_mode_three = (compress_mode = 3);
          encoded_byte_length = le_sum G (segment 2 8 bool_targets);
          is_encoded_length_zero = (encoded_byte_length = 0);
          is_valid_encoded_length_check = (is_mode_three \<and> is_encoded_length_zero)
      in do {
        assert_c (is_mode_three = is_valid_encoded_length_check);
        Some (of_nat value, compress_mode) })"

definition decode_header :: "gadgets \<Rightarrow> encoded_header \<Rightarrow> bytes32 \<Rightarrow> header_variable option" where
  "decode_header G header header_hash =
     (let bytes = header_bytes header;
          parent = segment 0 HASH_SIZE bytes;
          block_number_bytes = segment HASH_SIZE (HASH_SIZE + MAX_COMPACT_UINT_BYTES) bytes
      in do {
        (number, compress_mode) \<leftarrow> decode_compact_int G block_number_bytes;
        let all_possible_state_roots =
          [segment 33 (33 + HASH_SIZE) bytes, segment 34 (34 + HASH_SIZE) bytes,
           segment 36 (36 + HASH_SIZE) bytes, segment 37 (37 + HASH_SIZE) bytes];
        let root = select_hash G all_possible_state_roots compress_mode;
        let data_root_start = u32_sub G (header_size header) (of_nat DATA_ROOT_OFFSET_FROM_END);
        let header_is_zero_size = (header_size header = 0);
        let data_root_start = (if header_is_zero_size then 0 else data_root_start);
        data_root_bytes \<leftarrow> get_fixed_subarray G HASH_SIZE bytes (unat data_root_start) header_hash;
        Some \<lparr>block_number = number, parent_hash = parent, state_root = root,
              data_root = data_root_bytes\<rparr> })"

definition decode_precommit :: "gadgets \<Rightarrow> byte list \<Rightarrow> precommit option" where
  "decode_precommit G m = do {
     assert_c (unat (m ! 0) = 1);
     let block_hash = segment 1 33 m;
     let block_number_bytes = rev (segment 33 37 m);
     let justification_round_bytes = rev (segment 37 45 m);
     let authority_set_id_bytes = rev (segment 45 53 m);
     Some \<lparr>precommit_block_hash = block_hash,
           precommit_block_number = u32_decode G block_number_bytes,
           justification_round = u64_decode G justification_round_bytes,
           precommit_authority_set_id = u64_decode G authority_set_id_bytes\<rparr> }"

section \<open>Compact integers\<close>

lemma le_sum_bits:
  assumes "bit_gadgets G" and "b - a \<le> 32" and "b \<le> 8 * length bs"
  shows "le_sum G (segment a b (concat (map (\<lambda>x. rev (as_bool_targets G x)) bs)))
    = le_nat bs div 2 ^ a mod 2 ^ (b - a)"
proof -
  have "concat (map (\<lambda>x. rev (as_bool_targets G x)) bs) = map (bit (le_nat bs)) [0..<8 * length bs]"
    using assms(1) by (simp add: bit_gadgets_def le_bits_eq)
  then have "segment a b (concat (map (\<lambda>x. rev (as_bool_targets G x)) bs)) = map (bit (le_nat bs)) [a..<b]"
    by (simp only: segment_map segment_upt assms(3))
  moreover have "le_nat bs div 2 ^ a mod 2 ^ (b - a) < field_order G"
  proof -
    have "le_nat bs div 2 ^ a mod 2 ^ (b - a) < 2 ^ (b - a)" by simp
    also have "(2 :: nat) ^ (b - a) \<le> 2 ^ 32" using assms(2) by (rule power_increasing) simp
    also have "\<dots> < field_order G" using assms(1) by (rule field_order_gt)
    finally show ?thesis .
  qed
  ultimately show ?thesis using assms(1) by (simp add: bit_gadgets_def horner_bits_segment)
qed

text \<open>The circuit as arithmetic on the five bytes read as one little-endian number.\<close>

lemma decode_compact_int_eq:
  assumes "bit_gadgets G" "select_gadgets G" and "length bs = 5"
  defines "N \<equiv> le_nat bs"
  shows "decode_compact_int G bs =
    (if N mod 4 = 3 \<and> N div 4 mod 64 \<noteq> 0 then None
     else Some (of_nat ([N div 4 mod 2 ^ 6, N div 4 mod 2 ^ 14, N div 4 mod 2 ^ 30, N div 256 mod 2 ^ 32]
                  ! (N mod 4)), N mod 4))"
proof -
  have m: "N mod 4 < 4" by simp
  note bits = le_sum_bits [OF assms(1), of _ _ bs, unfolded assms(3), folded N_def]
  show ?thesis
    unfolding decode_compact_int_def Let_def
    by (cases "N mod 4 = 3"; cases "N div 4 mod 64 = 0")
      (use m in \<open>simp_all add: bits select_felt_nth [OF assms(2)]\<close>)
qed

lemma decode_compact_int_mode:
  assumes "bit_gadgets G" "select_gadgets G" "length bs = 5"
    and "decode_compact_int G bs = Some (v, mode)"
  shows "mode = le_nat bs mod 4" "mode < 4"
  using assms(4) unfolding decode_compact_int_eq [OF assms(1-3)]
  by (auto split: if_splits)

lemma decode_compact_int_value:
  assumes "bit_gadgets G" "select_gadgets G" and len: "length bs = 5"
    and N: "le_nat bs =
     (if compact_mode n = 3 then 3 + 256 * unat n + 256 ^ 5 * r
      else compact_mode n + 4 * unat n + 256 ^ compact_length (compact_mode n) * r)"
  shows "decode_compact_int G bs = Some (n, compact_mode n)"
proof -
  note eq = decode_compact_int_eq [OF assms(1,2) len]
  show ?thesis
  proof (cases rule: compact_mode_cases [of n])
    case 1
    then have "le_nat bs = 4 * (unat n + 64 * r)" "(unat n + 64 * r) mod 64 = unat n"
      using N by (simp_all add: compact_length_def)
    then obtain q where *: "le_nat bs = 4 * q" and q: "q mod 64 = unat n" by blast
    show ?thesis unfolding eq * using 1 q by simp
  next
    case 2
    then have "le_nat bs = 1 + 4 * (unat n + 16384 * r)" "(unat n + 16384 * r) mod 16384 = unat n"
      using N by (simp_all add: compact_length_def)
    then obtain q where *: "le_nat bs = 1 + 4 * q" and q: "q mod 16384 = unat n" by blast
    have "(1 + 4 * q) mod 4 = 1" "(1 + 4 * q) div 4 = q" by presburger+
    then show ?thesis unfolding eq * using 2 q by simp
  next
    case 3
    then have "le_nat bs = 2 + 4 * (unat n + 1073741824 * r)"
      "(unat n + 1073741824 * r) mod 1073741824 = unat n"
      using N by (simp_all add: compact_length_def)
    then obtain q where *: "le_nat bs = 2 + 4 * q" and q: "q mod 1073741824 = unat n" by blast
    have "(2 + 4 * q) mod 4 = 2" "(2 + 4 * q) div 4 = q" by presburger+
    then show ?thesis unfolding eq * using 3 q by simp
  next
    case 4
    have "unat n < 4294967296" using unsigned_less [of n] by simp
    with 4 have "le_nat bs = 3 + 256 * (unat n + 4294967296 * r)"
      "(unat n + 4294967296 * r) mod 4294967296 = unat n" using N by simp_all
    then obtain q where *: "le_nat bs = 3 + 256 * q" and q: "q mod 4294967296 = unat n" by blast
    have "(3 + 256 * q) mod 4 = 3" by presburger
    moreover have "(3 + 256 * q) div 4 = 64 * q" "(3 + 256 * q) div 256 = q" by simp_all
    ultimately show ?thesis unfolding eq * using 4 q by simp
  qed
qed

lemma decode_compact_int_window:
  assumes "bit_gadgets G" "select_gadgets G" and "5 \<le> length (scale_compact n @ rest)"
  shows "decode_compact_int G (take 5 (scale_compact n @ rest)) = Some (n, compact_mode n)"
proof -
  have split: "take 5 (scale_compact n @ rest)
      = scale_compact n @ take (5 - length (scale_compact n)) rest"
    using length_scale_compact_le [of n] by simp
  have len: "length (scale_compact n @ take (5 - length (scale_compact n)) rest) = 5"
    using assms(3) by (simp flip: split)
  show ?thesis
    unfolding split
    using le_nat_scale_compact decode_compact_int_value [OF assms(1,2) len] by blast
qed

text \<open>The circuit is a decoder of SCALE compact integers on a window of five bytes, whatever
  follows the encoding.\<close>

interpretation compact: windowed_codec "\<lambda>_. bit_gadgets G \<and> select_gadgets G" scale_compact 5
    "\<lambda>bs. map_option (\<lambda>(v, mode). (v, compact_length mode)) (decode_compact_int G bs)" for G
  by unfold_locales (simp only: decode_compact_int_window option.map prod.case length_scale_compact)

section \<open>Precommit messages\<close>

text \<open>The circuit accepts exactly the signed messages, and returns their fields.\<close>

lemma decode_precommit_Some_iff:
  assumes "u32_gadgets G" and "length m = 53"
  shows "decode_precommit G m = Some p \<longleftrightarrow>
    length (precommit_block_hash p) = 32 \<and>
    m = signed_message \<lparr>target_hash = precommit_block_hash p, target_number = precommit_block_number p\<rparr>
          (justification_round p) (precommit_authority_set_id p)"
    (is "?dec \<longleftrightarrow> ?enc")
proof -
  have dec: "decode_precommit G m = (if m ! 0 = 1 then Some
      \<lparr>precommit_block_hash = segment 1 33 m, precommit_block_number = u32_from_le (segment 33 37 m),
       justification_round = u64_from_le (segment 37 45 m),
       precommit_authority_set_id = u64_from_le (segment 45 53 m)\<rparr> else None)"
    using assms by (simp add: decode_precommit_def u32_gadget_simps [OF assms(1)] assert_c_def
        unat_eq_one_iff)
  show ?thesis
  proof
    assume ?dec
    with assms(2) show ?enc
      using signed_message_of_bytes [of m] by (auto simp: dec split: if_splits)
  next
    assume ?enc
    then have len: "length (precommit_block_hash p) = 32" and m: "m = signed_message
        \<lparr>target_hash = precommit_block_hash p, target_number = precommit_block_number p\<rparr>
        (justification_round p) (precommit_authority_set_id p)" by simp_all
    from m have "m ! 0 = 1" by (simp add: signed_message_def)
    with len show ?dec unfolding dec
      by (simp del: One_nat_def add: m signed_message_segments)
  qed
qed

lemma decode_precommit_signed_message:
  assumes "u32_gadgets G" and "length (target_hash t) = 32"
  shows "decode_precommit G (signed_message t round set_id) = Some
    \<lparr>precommit_block_hash = target_hash t, precommit_block_number = target_number t,
     justification_round = round, precommit_authority_set_id = set_id\<rparr>"
  using assms by (cases t) (simp add: decode_precommit_Some_iff length_signed_message)

interpretation precommit_circuit: codec "\<lambda>(t, round, set_id). u32_gadgets G \<and> length (target_hash t) = 32"
    "\<lambda>(t, round, set_id). signed_message t round set_id"
    "\<lambda>m. map_option (\<lambda>p. (\<lparr>target_hash = precommit_block_hash p,
       target_number = precommit_block_number p\<rparr>, justification_round p,
       precommit_authority_set_id p)) (decode_precommit G m)" for G
  by unfold_locales (auto simp: decode_precommit_signed_message)

section \<open>Headers\<close>

text \<open>The data root is read 32 bytes before the end of the header; an empty header reads it at 0.\<close>

definition data_root_position :: "encoded_header \<Rightarrow> nat" where
  "data_root_position h = (if header_size h = 0 then 0 else unat (header_size h - 32))"

text \<open>The bytes of an Avail header, apart from what lies between its state root and its data root
  (the extrinsics root, the digest and the start of the extension).\<close>

definition avail_header_bytes ::
    "bytes32 \<Rightarrow> u32 \<Rightarrow> bytes32 \<Rightarrow> byte list \<Rightarrow> bytes32 \<Rightarrow> byte list" where
  "avail_header_bytes parent n root middle droot = parent @ scale_compact n @ root @ middle @ droot"

text \<open>A header of the source, padded with zeros to the size of the circuit's array.\<close>

definition pad_header :: "nat \<Rightarrow> byte list \<Rightarrow> encoded_header" where
  "pad_header S bs = \<lparr>header_bytes = bs @ replicate (S - length bs) 0, header_size = of_nat (length bs)\<rparr>"

lemma decode_header_Some_iff:
  assumes "u32_gadgets G" "subarray_gadget G"
  shows "decode_header G h seed = Some v \<longleftrightarrow>
    (\<exists>mode. decode_compact_int G (segment 32 37 (header_bytes h)) = Some (block_number v, mode)
      \<and> state_root v = select_hash G [segment 33 65 (header_bytes h), segment 34 66 (header_bytes h),
            segment 36 68 (header_bytes h), segment 37 69 (header_bytes h)] mode)
    \<and> parent_hash v = segment 0 32 (header_bytes h)
    \<and> data_root_position h + 32 \<le> length (header_bytes h)
    \<and> data_root v = segment (data_root_position h) (data_root_position h + 32) (header_bytes h)"
  unfolding decode_header_def Let_def data_root_position_def
  by (cases v) (auto simp: u32_gadget_simps [OF assms(1)] subarray_Some_iff [OF assms(2)]
      Option.bind_eq_Some_conv)

lemma length_avail_header_bytes:
  "length parent = 32 \<Longrightarrow> length root = 32 \<Longrightarrow> length droot = 32 \<Longrightarrow>
    length (avail_header_bytes parent n root middle droot)
      = 96 + length (scale_compact n) + length middle"
  by (simp add: avail_header_bytes_def)

lemma state_root_position:
  assumes "select_gadgets G" and "length parent = 32" "length root = 32"
    and "bytes = parent @ scale_compact n @ root @ rest"
  shows "select_hash G [segment 33 65 bytes, segment 34 66 bytes, segment 36 68 bytes, segment 37 69 bytes]
    (compact_mode n) = root"
proof -
  let ?k = "compact_length (compact_mode n)"
  have "segment (32 + ?k) (64 + ?k) bytes = root"
    using assms(2,3) by (simp add: assms(4) segment_def length_scale_compact)
  moreover have "[segment 33 65 bytes, segment 34 66 bytes, segment 36 68 bytes, segment 37 69 bytes]
      ! compact_mode n = segment (32 + ?k) (64 + ?k) bytes"
    by (cases rule: compact_mode_cases [of n]) (simp_all add: compact_length_def)
  ultimately show ?thesis using compact_mode_lt [of n] by (simp add: select_hash_nth [OF assms(1)])
qed

lemma decode_header_fields:
  assumes ok: "bit_gadgets G" "select_gadgets G" "u32_gadgets G" "subarray_gadget G"
    and len: "length parent = 32" "length root = 32" "length droot = 32"
    and bytes: "header_bytes h = avail_header_bytes parent n root middle droot @ rest"
    and size: "unat (header_size h) = length (avail_header_bytes parent n root middle droot)"
  shows "decode_header G h seed = Some
    \<lparr>block_number = n, parent_hash = parent, state_root = root, data_root = droot\<rparr>"
proof -
  let ?b = "header_bytes h"
  have b: "?b = parent @ scale_compact n @ root @ (middle @ droot @ rest)"
    by (simp add: bytes avail_header_bytes_def)
  have "segment 32 37 ?b = take 5 (scale_compact n @ root @ middle @ droot @ rest)"
    using len(1) by (simp add: b segment_def)
  then have number: "decode_compact_int G (segment 32 37 ?b) = Some (n, compact_mode n)"
    using decode_compact_int_window [OF ok(1,2), of n "root @ middle @ droot @ rest"] len(2) by simp
  have "96 \<le> unat (header_size h)" using size len by (simp add: length_avail_header_bytes)
  then have pos: "data_root_position h = unat (header_size h) - 32"
    by (auto simp: data_root_position_def unat_sub word_le_nat_alt)
  have "segment (data_root_position h) (data_root_position h + 32) ?b = droot"
    using len by (simp add: pos size avail_header_bytes_def bytes segment_def)
  moreover have "data_root_position h + 32 \<le> length ?b"
    using size len \<open>96 \<le> _\<close> by (simp add: pos bytes)
  moreover have "segment 0 32 ?b = parent" using len(1) by (simp add: b segment_def)
  ultimately show ?thesis
    using number state_root_position [OF ok(2) len(1,2) b]
    by (simp add: decode_header_Some_iff [OF ok(3,4)])
qed

text \<open>The empty header that fills the unused slots of a batch decodes too, to zeros.\<close>

lemma decode_header_empty:
  assumes ok: "bit_gadgets G" "select_gadgets G" "u32_gadgets G" "subarray_gadget G" and "69 \<le> S"
  shows "decode_header G (pad_header S []) seed = Some
    \<lparr>block_number = 0, parent_hash = zero_hash, state_root = zero_hash, data_root = zero_hash\<rparr>"
proof -
  have seg: "segment a b (replicate S (0 :: byte)) = replicate (b - a) 0" if "b \<le> S" for a b
    using that by (simp add: segment_def min_def)
  have zeros: "le_nat (replicate k 0) = 0" for k by (induction k) simp_all
  have "decode_compact_int G (replicate 5 0) = Some (0, 0)"
    by (simp add: decode_compact_int_eq [OF ok(1,2)] zeros)
  then show ?thesis
    using assms(5) by (simp add: decode_header_Some_iff [OF ok(3,4)] pad_header_def seg
        data_root_position_def zero_hash_def select_hash_nth [OF ok(2)])
qed

section \<open>Properties\<close>

text \<open>The compact integer circuit decodes every SCALE encoding of a \<open>u32\<close>, whatever bytes
  follow it in the window of five, and its second output selects the number of bytes the encoding
  takes.\<close>

theorem decode_compact_int_roundtrip:
  assumes "bit_gadgets G" "select_gadgets G"
    and "MAX_COMPACT_UINT_BYTES \<le> length (scale_compact n @ rest)"
  shows "\<exists>mode<4. decode_compact_int G (take MAX_COMPACT_UINT_BYTES (scale_compact n @ rest)) = Some (n, mode)
    \<and> [1, 2, 4, 5] ! mode = length (scale_compact n)"
proof -
  have "decode_compact_int G (take 5 (scale_compact n @ rest)) = Some (n, compact_mode n)"
    using assms decode_compact_int_window by simp
  then show ?thesis
    using compact_mode_lt [of n] by (auto simp: length_scale_compact compact_length_def)
qed

theorem decode_compact_int_roundtrip_witness:
  "\<exists>mode<4. decode_compact_int toy_gadgets (take MAX_COMPACT_UINT_BYTES (scale_compact 16384 @ [7]))
      = Some (16384, mode)
    \<and> [1, 2, 4, 5] ! mode = length (scale_compact 16384)"
  by (rule decode_compact_int_roundtrip [OF gadgets_okD(1,2) [OF toy_gadgets_ok]])
    (simp add: scale_compact_def)

text \<open>On any five bytes the circuit fails exactly when the mode is 3 and the upper six bits of
  the first byte, the number of bytes beyond four, are not zero; integers of more than four bytes
  cannot be proved.\<close>

theorem decode_compact_int_rejects_iff:
  assumes "bit_gadgets G" "select_gadgets G" and "length bs = MAX_COMPACT_UINT_BYTES"
  shows "decode_compact_int G bs = None \<longleftrightarrow> unat (bs ! 0) mod 4 = 3 \<and> unat (bs ! 0) div 4 \<noteq> 0"
proof -
  obtain b rest where bs: "bs = b # rest" using assms(3) by (cases bs) simp_all
  have "unat b div 4 < 64" using unat_byte_lt [of b] by (simp add: less_mult_imp_div_less)
  then have "(unat b + 256 * le_nat rest) mod 4 = unat b mod 4"
    and "(unat b + 256 * le_nat rest) div 4 mod 64 = unat b div 4"
    using mod_mult_self2 [of "unat b" 4 "64 * le_nat rest"] div_mult_self2 [of 4 "unat b" "64 * le_nat rest"]
    by simp_all
  then show ?thesis
    using decode_compact_int_eq [OF assms(1,2), of bs] assms(3) by (simp add: bs)
qed

theorem decode_compact_int_rejects_iff_witness:
  "decode_compact_int toy_gadgets [7, 1, 2, 3, 4] = None"
  by (subst decode_compact_int_rejects_iff [OF gadgets_okD(1,2) [OF toy_gadgets_ok]]) simp_all

text \<open>C38. The header circuit reads the fields of an Avail header: from a header padded to the size of
  the array it returns the block number, the parent hash, the state root behind the compact number and
  the data root at the end, whatever the digest and extension between them are.\<close>

theorem decode_header_roundtrip:
  assumes "gadgets_ok G"
    and "length parent = HASH_SIZE" "length root = HASH_SIZE" "length droot = HASH_SIZE"
    and "length (avail_header_bytes parent n root middle droot) \<le> S" and "S < 2 ^ 32"
  shows "decode_header G (pad_header S (avail_header_bytes parent n root middle droot)) seed = Some
    \<lparr>block_number = n, parent_hash = parent, state_root = root, data_root = droot\<rparr>"
proof (rule decode_header_fields [OF gadgets_okD(1-4) [OF assms(1)]])
  show "unat (header_size (pad_header S (avail_header_bytes parent n root middle droot)))
      = length (avail_header_bytes parent n root middle droot)"
    using assms(5,6) by (simp add: pad_header_def unat_of_nat take_bit_nat_eq_self)
qed (use assms in \<open>simp_all add: pad_header_def\<close>)

theorem decode_header_roundtrip_witness:
  "decode_header toy_gadgets (pad_header 200 (avail_header_bytes (replicate 32 1) 70 (replicate 32 2)
      [3, 4, 5] (replicate 32 6))) [] = Some
    \<lparr>block_number = 70, parent_hash = replicate 32 1, state_root = replicate 32 2,
     data_root = replicate 32 6\<rparr>"
  by (rule decode_header_roundtrip [OF toy_gadgets_ok])
    (simp_all add: avail_header_bytes_def scale_compact_def)

text \<open>The precommit circuit accepts exactly the messages GRANDPA authorities sign, of 53 bytes, and
  returns the fields they were encoded from.\<close>

theorem decode_precommit_iff:
  assumes "u32_gadgets G" and "length m = ENCODED_PRECOMMIT_LENGTH"
  shows "decode_precommit G m = Some p \<longleftrightarrow>
    length (precommit_block_hash p) = HASH_SIZE \<and>
    m = signed_message \<lparr>target_hash = precommit_block_hash p, target_number = precommit_block_number p\<rparr>
          (justification_round p) (precommit_authority_set_id p)"
  using decode_precommit_Some_iff assms by simp

theorem decode_precommit_iff_witness:
  "decode_precommit toy_gadgets (signed_message \<lparr>target_hash = replicate 32 8, target_number = 300\<rparr> 5 9)
    = Some \<lparr>precommit_block_hash = replicate 32 8, precommit_block_number = 300,
            justification_round = 5, precommit_authority_set_id = 9\<rparr>"
  by (subst decode_precommit_iff [OF gadgets_okD(3) [OF toy_gadgets_ok]]) (simp_all add: length_signed_message)

end
