(* ===== verification/Justification.thy ===== *)
theory Justification
  imports Decoder Authority_Set
begin

text \<open>
  The GRANDPA justification circuit of \<open>circuits/builder/justification.rs\<close>: the voting threshold and
  \<open>verify_simple_justification\<close>. The justification comes from a hint, so it is an argument that the
  prover chooses freely; what acceptance says about it is what the lemmas show.
\<close>

section \<open>The circuits\<close>

definition verify_voting_threshold :: "gadgets \<Rightarrow> u32 \<Rightarrow> bool list \<Rightarrow> u32 \<Rightarrow> u32 \<Rightarrow> unit option" where
  "verify_voting_threshold G num_active_authorities flags threshold_numerator threshold_denominator =
     (let num_signed = fold (\<lambda>i n. u32_add G n (if flags ! i then 1 else 0)) [0..<length flags] 0;
          scaled_num_signed = u32_mul G num_signed threshold_denominator;
          scaled_threshold = u32_mul G num_active_authorities threshold_numerator
      in assert_c (scaled_num_signed > scaled_threshold))"

definition verify_simple_justification ::
    "gadgets \<Rightarrow> u32 \<Rightarrow> bytes32 \<Rightarrow> u64 \<Rightarrow> bytes32 \<Rightarrow> justification \<Rightarrow> unit option" where
  "verify_simple_justification G number block_hash authority_set_id authority_set_hash j = do {
     computed_authority_set_commitment \<leftarrow>
       compute_authority_set_commitment G (unat (num_authorities j)) (pubkeys j);
     assert_c (authority_set_hash = computed_authority_set_commitment);
     decoded_precommit \<leftarrow> decode_precommit G (encoded_precommit j);
     assert_c (precommit_block_number decoded_precommit = number);
     assert_c (precommit_authority_set_id decoded_precommit = authority_set_id);
     assert_c (precommit_block_hash decoded_precommit = block_hash);
     let message_byte_lengths = replicate (length (pubkeys j)) (of_nat ENCODED_PRECOMMIT_LENGTH);
     let messages = replicate (length (pubkeys j)) (encoded_precommit j);
     assert_c (curta_eddsa_verify_sigs_conditional G (validator_signed j) message_byte_lengths
       messages (signatures j) (pubkeys j));
     verify_voting_threshold G (num_authorities j) (validator_signed j) 2 3 }"

section \<open>The threshold\<close>

definition active_slots :: "bool list \<Rightarrow> nat set" where
  "active_slots flags = {i. i < length flags \<and> flags ! i}"

lemma finite_active_slots [simp]: "finite (active_slots flags)"
  by (rule finite_subset [of _ "{..<length flags}"]) (auto simp: active_slots_def)

lemma card_active_slots_le: "card (active_slots flags) \<le> length flags"
  using card_mono [of "{..<length flags}" "active_slots flags"]
  by (auto simp: active_slots_def)

lemma count_signed:
  assumes "u32_gadgets G" and "m \<le> length flags"
  shows "fold (\<lambda>i n. u32_add G n (if flags ! i then 1 else 0)) [0..<m] 0
    = of_nat (card {i. i < m \<and> flags ! i})"
  using assms(2)
proof (induction m)
  case (Suc m)
  have "{i. i < Suc m \<and> flags ! i}
      = (if flags ! m then insert m {i. i < m \<and> flags ! i} else {i. i < m \<and> flags ! i})"
    by (auto simp: less_Suc_eq)
  then have "card {i. i < Suc m \<and> flags ! i}
      = card {i. i < m \<and> flags ! i} + (if flags ! m then 1 else 0)" by simp
  with Suc show ?case by (simp add: u32_gadget_simps [OF assms(1)])
qed simp

text \<open>The check compares both sides modulo \<open>2^32\<close>; the number of slots is small enough for the left
  side not to wrap.\<close>

lemma verify_voting_threshold_iff:
  assumes "u32_gadgets G" and "3 * length flags < 2 ^ 32"
  shows "verify_voting_threshold G n flags 2 3 = Some () \<longleftrightarrow>
    2 * unat n mod 2 ^ 32 < 3 * card (active_slots flags)"
proof -
  let ?c = "card (active_slots flags)"
  have "?c \<le> length flags" by (rule card_active_slots_le)
  with assms(2) have small: "3 * ?c < 2 ^ 32" by simp
  have "unat (of_nat ?c * 3 :: u32) = 3 * ?c"
  proof -
    have "unat (of_nat (3 * ?c) :: u32) = 3 * ?c"
      using small by (simp only: unat_of_nat take_bit_nat_eq_self_iff) simp
    then show ?thesis by (simp add: mult.commute)
  qed
  moreover have "unat (n * 2) = 2 * unat n mod 2 ^ 32"
    by (simp add: unat_word_ariths mult.commute)
  moreover have "fold (\<lambda>i n. u32_add G n (if flags ! i then 1 else 0)) [0..<length flags] 0 = of_nat ?c"
    using count_signed [OF assms(1) order_refl] by (simp add: active_slots_def)
  ultimately show ?thesis
    by (simp add: verify_voting_threshold_def u32_gadget_simps [OF assms(1)] word_less_nat_alt)
qed

section \<open>What acceptance means\<close>

definition authorities_of :: "justification \<Rightarrow> bytes32 list" where
  "authorities_of j = take (unat (num_authorities j)) (pubkeys j)"

text \<open>The five checks as one statement about the justification.\<close>

definition justified ::
    "gadgets \<Rightarrow> u32 \<Rightarrow> bytes32 \<Rightarrow> u64 \<Rightarrow> bytes32 \<Rightarrow> justification \<Rightarrow> bool" where
  "justified G bn bh set_id set_hash j \<longleftrightarrow>
     num_authorities j \<noteq> 0
     \<and> set_hash = compute_authority_set_hash (sha256 G) (authorities_of j)
     \<and> length bh = 32
     \<and> (\<exists>round. encoded_precommit j
           = signed_message \<lparr>target_hash = bh, target_number = bn\<rparr> round set_id)
     \<and> (\<forall>i\<in>active_slots (validator_signed j).
           sig_valid G (pubkeys j ! i) (encoded_precommit j) (signatures j ! i))
     \<and> 2 * unat (num_authorities j) mod 2 ^ 32 < 3 * card (active_slots (validator_signed j))"

lemma verify_simple_justification_iff:
  assumes ok: "gadgets_ok G" and wf: "wf_justification n j" and n: "0 < n" "3 * n < 2 ^ 32"
  shows "verify_simple_justification G bn bh set_id set_hash j = Some ()
    \<longleftrightarrow> justified G bn bh set_id set_hash j"
proof -
  note ok = gadgets_okD [OF ok]
  have len: "length (encoded_precommit j) = 53" "length (validator_signed j) = n"
    "length (pubkeys j) = n" using wf by (simp_all add: wf_justification_def)
  from len n have ne: "pubkeys j \<noteq> []" and small: "3 * length (validator_signed j) < 2 ^ 32" by auto
  have sigs: "curta_eddsa_verify_sigs_conditional G (validator_signed j)
       (replicate (length (pubkeys j)) 53) (replicate (length (pubkeys j)) (encoded_precommit j))
       (signatures j) (pubkeys j) \<longleftrightarrow>
     (\<forall>i\<in>active_slots (validator_signed j).
        sig_valid G (pubkeys j ! i) (encoded_precommit j) (signatures j ! i))"
    by (auto simp: signature_gadgetD [OF ok(6)] len active_slots_def)
  have precommit: "(\<exists>p. decode_precommit G (encoded_precommit j) = Some p
       \<and> precommit_block_number p = bn \<and> precommit_authority_set_id p = set_id
       \<and> precommit_block_hash p = bh) \<longleftrightarrow>
     length bh = 32 \<and> (\<exists>round. encoded_precommit j
           = signed_message \<lparr>target_hash = bh, target_number = bn\<rparr> round set_id)"
  proof
    assume "length bh = 32 \<and> (\<exists>round. encoded_precommit j
        = signed_message \<lparr>target_hash = bh, target_number = bn\<rparr> round set_id)"
    then show "\<exists>p. decode_precommit G (encoded_precommit j) = Some p
       \<and> precommit_block_number p = bn \<and> precommit_authority_set_id p = set_id
       \<and> precommit_block_hash p = bh"
      using decode_precommit_signed_message [OF ok(3)] by fastforce
  qed (auto simp: decode_precommit_Some_iff [OF ok(3) len(1)])
  show ?thesis
    unfolding verify_simple_justification_def justified_def Let_def authorities_of_def
      compute_authority_set_commitment_sha [OF ok(5) ne]
    using precommit sigs
    by (auto simp: Option.bind_eq_Some_conv verify_voting_threshold_iff [OF ok(3) small] unat_eq_0
        simp del: One_nat_def)
qed

lemma justified_slots:
  assumes "wf_justification n j"
  shows "justified G bn bh set_id set_hash j \<longleftrightarrow>
     num_authorities j \<noteq> 0
     \<and> set_hash = compute_authority_set_hash (sha256 G)
                     (take (unat (num_authorities j)) (pubkeys j))
     \<and> length bh = 32
     \<and> (\<exists>round. encoded_precommit j
           = signed_message \<lparr>target_hash = bh, target_number = bn\<rparr> round set_id)
     \<and> (\<forall>i<n. validator_signed j ! i \<longrightarrow>
           sig_valid G (pubkeys j ! i) (encoded_precommit j) (signatures j ! i))
     \<and> 2 * unat (num_authorities j) mod 2 ^ 32 < 3 * card {i. i < n \<and> validator_signed j ! i}"
proof -
  have "length (validator_signed j) = n" using assms by (simp add: wf_justification_def)
  then have "active_slots (validator_signed j) = {i. i < n \<and> validator_signed j ! i}"
    by (simp add: active_slots_def)
  then show ?thesis by (simp only: justified_def authorities_of_def) auto
qed

section \<open>An honest justification\<close>

text \<open>A justification of the concrete gadgets in which every authority of \<open>ks\<close> signs the block, in a
  circuit of \<open>n\<close> slots.\<close>

definition toy_justification :: "nat \<Rightarrow> bytes32 \<Rightarrow> u32 \<Rightarrow> u64 \<Rightarrow> bytes32 list \<Rightarrow> justification" where
  "toy_justification n bh bn set_id ks = \<lparr>
     encoded_precommit = signed_message \<lparr>target_hash = bh, target_number = bn\<rparr> 5 set_id,
     validator_signed = replicate (length ks) True @ replicate (n - length ks) False,
     signatures = map (\<lambda>k. \<lparr>sig_r = [], sig_s = unat (hd k) + unat (hd bh)\<rparr>)
       (ks @ replicate (n - length ks) zero_hash),
     pubkeys = ks @ replicate (n - length ks) zero_hash,
     num_authorities = of_nat (length ks)\<rparr>"

lemma toy_justification_wf:
  "length bh = 32 \<Longrightarrow> \<forall>k\<in>set ks. length k = 32 \<Longrightarrow> length ks \<le> n \<Longrightarrow>
    wf_justification n (toy_justification n bh bn set_id ks)"
  by (auto simp: wf_justification_def toy_justification_def length_signed_message zero_hash_def)

lemma toy_justification_justified:
  assumes "length bh = 32" and "0 < length ks" "length ks \<le> n" "3 * n < 2 ^ 32"
  shows "justified toy_gadgets bn bh set_id (compute_authority_set_hash toy_digest ks)
    (toy_justification n bh bn set_id ks)" (is "justified _ _ _ _ _ ?j")
proof -
  have num: "unat (num_authorities ?j) = length ks"
    using assms(3,4) by (simp add: toy_justification_def unat_of_nat take_bit_nat_eq_self)
  have active: "active_slots (validator_signed ?j) = {..<length ks}"
    using assms(3) by (auto simp: active_slots_def toy_justification_def nth_append)
      (metis diff_less_mono not_le nth_replicate)
  have sig: "sig_valid toy_gadgets = toy_sig_valid" "sha256 toy_gadgets = toy_digest"
    by (simp_all add: toy_gadgets_def)
  have "toy_sig_valid (pubkeys ?j ! i) (encoded_precommit ?j) (signatures ?j ! i)" if "i < length ks" for i
    using that assms(1)
    by (cases bh) (simp_all add: toy_justification_def nth_append toy_sig_valid_def signed_message_def)
  moreover have "num_authorities ?j \<noteq> 0" using num assms(2) by auto
  moreover have "authorities_of ?j = ks"
    unfolding authorities_of_def num by (simp add: toy_justification_def)
  moreover have "encoded_precommit ?j = signed_message \<lparr>target_hash = bh, target_number = bn\<rparr> 5 set_id"
    by (simp add: toy_justification_def)
  ultimately show ?thesis
    using assms num by (auto simp: justified_def active sig)
qed

section \<open>Properties\<close>

text \<open>C1. What a proof of the justification circuit attests: for a justification of the circuit's
  size, the constraints hold exactly when the active slots are those committed to by the trusted hash,
  the precommit is the signed message of this block hash, block number and authority set, every
  slot marked as signed carries a valid signature on it, and three times the marked slots exceed twice
  the number of authorities modulo \<open>2^32\<close>.\<close>

theorem justification_accepted_iff:
  assumes "gadgets_ok G" and "wf_justification n j" and "0 < n" and "3 * n < 2 ^ 32"
  shows "verify_simple_justification G bn bh set_id set_hash j = Some () \<longleftrightarrow>
     num_authorities j \<noteq> 0
     \<and> set_hash = compute_authority_set_hash (sha256 G)
                     (take (unat (num_authorities j)) (pubkeys j))
     \<and> length bh = 32
     \<and> (\<exists>round. encoded_precommit j
           = signed_message \<lparr>target_hash = bh, target_number = bn\<rparr> round set_id)
     \<and> (\<forall>i<n. validator_signed j ! i \<longrightarrow>
           sig_valid G (pubkeys j ! i) (encoded_precommit j) (signatures j ! i))
     \<and> 2 * unat (num_authorities j) mod 2 ^ 32 < 3 * card {i. i < n \<and> validator_signed j ! i}"
  unfolding verify_simple_justification_iff [OF assms] by (rule justified_slots [OF assms(2)])

text \<open>An honest justification of two authorities, both of which signed, in a circuit of three slots.\<close>

definition example_target :: target_precommit where
  "example_target = \<lparr>target_hash = replicate 32 7, target_number = 100\<rparr>"

definition example_authorities :: "bytes32 list" where
  "example_authorities = [replicate 32 1, replicate 32 2]"

definition example_justification :: justification where
  "example_justification = \<lparr>
     encoded_precommit = signed_message example_target 5 9,
     validator_signed = [True, True, False],
     signatures = [\<lparr>sig_r = [], sig_s = 8\<rparr>, \<lparr>sig_r = [], sig_s = 9\<rparr>, \<lparr>sig_r = [], sig_s = 0\<rparr>],
     pubkeys = example_authorities @ [replicate 32 3],
     num_authorities = 2\<rparr>"

lemma example_justification_wf: "wf_justification 3 example_justification"
  by (simp add: wf_justification_def example_justification_def example_authorities_def
      length_signed_message example_target_def)

lemma signed_message_second:
  "target_hash t \<noteq> [] \<Longrightarrow> signed_message t r i ! Suc 0 = hd (target_hash t)"
  by (cases "target_hash t") (simp_all add: signed_message_def)

lemma example_signatures:
  "toy_sig_valid (pubkeys example_justification ! 0) (encoded_precommit example_justification)
      (signatures example_justification ! 0)"
  "toy_sig_valid (pubkeys example_justification ! Suc 0) (encoded_precommit example_justification)
      (signatures example_justification ! Suc 0)"
  by (simp_all add: example_justification_def example_authorities_def example_target_def
      toy_sig_valid_def signed_message_second)

lemma example_facts:
  "active_slots (validator_signed example_justification) = {0, Suc 0}"
  "authorities_of example_justification = example_authorities"
  "num_authorities example_justification = 2"
  "sha256 toy_gadgets = toy_digest" "sig_valid toy_gadgets = toy_sig_valid"
  by (auto simp: active_slots_def less_Suc_eq example_justification_def)
    (simp_all add: authorities_of_def example_authorities_def toy_gadgets_def)

lemma example_message:
  "\<exists>round. encoded_precommit example_justification
     = signed_message \<lparr>target_hash = replicate 32 7, target_number = 100\<rparr> round 9"
  by (auto simp: example_justification_def example_target_def)

lemma example_justified:
  "justified toy_gadgets 100 (replicate 32 7) 9
     (compute_authority_set_hash toy_digest example_authorities) example_justification"
  using example_signatures example_message by (simp add: justified_def example_facts)

theorem justification_accepted_iff_witness:
  "verify_simple_justification toy_gadgets 100 (replicate 32 7) 9
     (compute_authority_set_hash toy_digest example_authorities) example_justification = Some ()"
proof -
  have size: "0 < (3 :: nat)" "3 * 3 < (2 :: nat) ^ 32" by simp_all
  show ?thesis
    by (rule justification_accepted_iff [OF toy_gadgets_ok example_justification_wf size, THEN iffD2,
          OF justified_slots [OF example_justification_wf, THEN iffD1, OF example_justified]])
qed

text \<open>C23. The light client's guarantee: if the trusted hash is that of an authority list, the claimed
  number of authorities is below \<open>2^31\<close> and no slot past the authority list is marked as signed, then
  an accepted justification carries valid signatures of more than two thirds of the authorities, all
  on one precommit for this block hash, number and authority set (SHA-256 not colliding on the hashed
  keys). The two side conditions are not constraints of the circuit; two properties below show what happens
  without them.\<close>

theorem justification_quorum:
  assumes ok: "gadgets_ok G" and wf: "wf_justification n j" and n: "0 < n" "3 * n < 2 ^ 32"
    and acc: "verify_simple_justification G bn bh set_id
      (compute_authority_set_hash (sha256 G) authorities) j = Some ()"
    and auth: "authorities \<noteq> []" "\<forall>k\<in>set authorities. length k = 32"
    and inj: "inj_on (sha256 G)
      (commit_messages (compute_authority_set_hash (sha256 G)) (authorities_of j)
       \<union> commit_messages (compute_authority_set_hash (sha256 G)) authorities)"
    and claimed: "unat (num_authorities j) < 2 ^ 31"
    and slots: "\<forall>i<n. validator_signed j ! i \<longrightarrow> i < length authorities"
  shows "2 * length authorities < 3 * card {i. i < length authorities \<and> i < n \<and> validator_signed j ! i
           \<and> sig_valid G (authorities ! i) (encoded_precommit j) (signatures j ! i)}
    \<and> (\<exists>round. encoded_precommit j = signed_message \<lparr>target_hash = bh, target_number = bn\<rparr> round set_id)"
proof -
  let ?H = "compute_authority_set_hash (sha256 G)"
  from acc have just: "justified G bn bh set_id (?H authorities) j"
    by (simp only: verify_simple_justification_iff [OF ok wf n])
  have len: "length (validator_signed j) = n" "length (pubkeys j) = n"
    and keys: "\<forall>k\<in>set (pubkeys j). length k = 32" using wf by (simp_all add: wf_justification_def)
  have auths: "authorities_of j = authorities"
  proof (rule host_commit.commit_binding [where sha = "sha256 G"])
    show "\<forall>k\<in>set (authorities_of j) \<union> set authorities. length k = 32"
      using keys auth(2) by (auto simp: authorities_of_def dest: in_set_takeD)
    show "authorities_of j \<noteq> []"
      using just len n(1) by (auto simp: justified_def authorities_of_def unat_eq_0)
  qed (use just inj auth(1) gadgets_okD(5) [OF ok] in \<open>auto simp: justified_def hash_gadget_simps\<close>)
  have nth: "authorities ! i = pubkeys j ! i" if "i < length authorities" for i
    using that unfolding auths [symmetric] by (simp add: authorities_of_def)
  have "active_slots (validator_signed j) \<subseteq> {i. i < length authorities \<and> i < n \<and> validator_signed j ! i
      \<and> sig_valid G (authorities ! i) (encoded_precommit j) (signatures j ! i)}" (is "_ \<subseteq> ?S")
    using just slots len nth by (auto simp: justified_def active_slots_def)
  then have "card (active_slots (validator_signed j)) \<le> card ?S" by (rule card_mono [rotated]) simp
  moreover have "2 * length authorities \<le> 2 * unat (num_authorities j)"
    unfolding auths [symmetric] by (simp add: authorities_of_def)
  moreover have "2 * unat (num_authorities j) < 3 * card (active_slots (validator_signed j))"
    using just claimed by (simp add: justified_def)
  ultimately have "2 * length authorities < 3 * card ?S" by linarith
  with just show ?thesis by (simp add: justified_def)
qed

theorem justification_quorum_witness:
  "2 * length example_authorities < 3 * card {i. i < length example_authorities \<and> i < 3
      \<and> validator_signed example_justification ! i
      \<and> sig_valid toy_gadgets (example_authorities ! i) (encoded_precommit example_justification)
          (signatures example_justification ! i)}
    \<and> (\<exists>round. encoded_precommit example_justification
          = signed_message \<lparr>target_hash = replicate 32 7, target_number = 100\<rparr> round 9)"
proof (rule justification_quorum [OF toy_gadgets_ok example_justification_wf])
  show "verify_simple_justification toy_gadgets 100 (replicate 32 7) 9
     (compute_authority_set_hash (sha256 toy_gadgets) example_authorities) example_justification = Some ()"
    using example_justified
    by (subst verify_simple_justification_iff [OF toy_gadgets_ok example_justification_wf])
      (simp_all add: example_facts)
  have "{..<length example_authorities} = {0, 1}" by (auto simp: example_authorities_def)
  then show "inj_on (sha256 toy_gadgets)
      (commit_messages (compute_authority_set_hash (sha256 toy_gadgets)) (authorities_of example_justification)
       \<union> commit_messages (compute_authority_set_hash (sha256 toy_gadgets)) example_authorities)"
    by (simp add: example_facts commit_messages_def inj_on_def)
      (simp add: toy_digest_def compute_authority_set_hash_def example_authorities_def)
qed (auto simp: example_authorities_def example_justification_def less_Suc_eq numeral_3_eq_3)

text \<open>A justification in which no authority signs: the slots past the authority list hold one
  other key, which is marked as signed in all of them.\<close>

definition padding_justification ::
    "nat \<Rightarrow> bytes32 list \<Rightarrow> bytes32 \<Rightarrow> signature \<Rightarrow> byte list \<Rightarrow> justification" where
  "padding_justification n authorities pk sig msg = \<lparr>
     encoded_precommit = msg,
     validator_signed = replicate (length authorities) False @ replicate (n - length authorities) True,
     signatures = replicate n sig,
     pubkeys = authorities @ replicate (n - length authorities) pk,
     num_authorities = of_nat (length authorities)\<rparr>"

lemma padding_justification_active:
  "active_slots (validator_signed (padding_justification n authorities pk sig msg))
    = {length authorities..<length authorities + (n - length authorities)}"
  by (auto simp: active_slots_def padding_justification_def nth_append)

lemma padding_justification_justified:
  assumes ok: "gadgets_ok G" and size: "3 * n < 2 ^ 32"
    and auth: "authorities \<noteq> []" "length authorities \<le> n" and bh: "length bh = 32"
    and quorum: "2 * length authorities < 3 * (n - length authorities)"
    and sig: "sig_valid G pk (signed_message \<lparr>target_hash = bh, target_number = bn\<rparr> round set_id) sig"
  shows "justified G bn bh set_id (compute_authority_set_hash (sha256 G) authorities)
    (padding_justification n authorities pk sig
       (signed_message \<lparr>target_hash = bh, target_number = bn\<rparr> round set_id))" (is "justified _ _ _ _ _ ?j")
proof -
  have num: "unat (num_authorities ?j) = length authorities"
    using auth(2) size by (simp add: padding_justification_def unat_of_nat take_bit_nat_eq_self)
  have slots: "pubkeys ?j ! i = pk \<and> signatures ?j ! i = sig"
    if "i \<in> active_slots (validator_signed ?j)" for i
    using that auth(2) unfolding padding_justification_active
    by (auto simp: padding_justification_def nth_append)
  have "num_authorities ?j \<noteq> 0" using num auth(1) by (metis length_0_conv unat_0)
  moreover have "encoded_precommit ?j = signed_message \<lparr>target_hash = bh, target_number = bn\<rparr> round set_id"
    and "authorities_of ?j = authorities"
    using num by (simp_all add: authorities_of_def) (simp_all add: padding_justification_def)
  moreover have "2 * unat (num_authorities ?j) mod 2 ^ 32 < 3 * card (active_slots (validator_signed ?j))"
    using quorum auth(2) size num by (simp add: padding_justification_active)
  ultimately show ?thesis using slots sig bh by (auto simp: justified_def)
qed

text \<open>C24. The threshold counts every slot marked as signed, also those past the authority set, whose
  keys the commitment does not cover. So for an authority list that leaves enough slots free
  (\<open>2 * length authorities < 3 * (n - length authorities)\<close>; with 300 slots, up to 179 authorities) any
  key that is no authority's suffices: the circuit accepts a justification of any block in which no
  authority's slot is marked as signed.\<close>

theorem justification_accepts_padding_signers:
  assumes "gadgets_ok G" and "3 * n < 2 ^ 32"
    and "authorities \<noteq> []" "length authorities \<le> n" "\<forall>k\<in>set authorities. length k = 32"
    and "2 * length authorities < 3 * (n - length authorities)"
    and "length pk = 32" "length bh = 32"
    and "sig_valid G pk (signed_message \<lparr>target_hash = bh, target_number = bn\<rparr> round set_id) sig"
  shows "\<exists>j. wf_justification n j \<and> (\<forall>i<length authorities. \<not> validator_signed j ! i)
    \<and> take (length authorities) (pubkeys j) = authorities
    \<and> verify_simple_justification G bn bh set_id
         (compute_authority_set_hash (sha256 G) authorities) j = Some ()"
proof (intro exI conjI)
  let ?j = "padding_justification n authorities pk sig
    (signed_message \<lparr>target_hash = bh, target_number = bn\<rparr> round set_id)"
  show wf: "wf_justification n ?j"
    using assms(4,5,7,8)
    by (auto simp: wf_justification_def padding_justification_def length_signed_message)
  show "\<forall>i<length authorities. \<not> validator_signed ?j ! i"
    and "take (length authorities) (pubkeys ?j) = authorities"
    by (simp_all add: padding_justification_def nth_append)
  have "0 < n" using assms(3,4) by (cases n) simp_all
  then show "verify_simple_justification G bn bh set_id
      (compute_authority_set_hash (sha256 G) authorities) ?j = Some ()"
    by (simp only: verify_simple_justification_iff [OF assms(1) wf _ assms(2)]
        padding_justification_justified [OF assms(1,2,3,4,8,6,9)])
qed

theorem justification_accepts_padding_signers_witness:
  "\<exists>j. wf_justification 3 j
    \<and> (\<forall>i<length [replicate 32 (1 :: byte)]. \<not> validator_signed j ! i)
    \<and> take (length [replicate 32 (1 :: byte)]) (pubkeys j) = [replicate 32 1]
    \<and> verify_simple_justification toy_gadgets 100 (replicate 32 7) 9
         (compute_authority_set_hash (sha256 toy_gadgets) [replicate 32 1]) j = Some ()"
  by (rule justification_accepts_padding_signers [OF toy_gadgets_ok, where pk = "replicate 32 66"
        and sig = "\<lparr>sig_r = [], sig_s = 73\<rparr>" and round = 5])
    (simp_all add: example_facts toy_sig_valid_def signed_message_second)

text \<open>C26. The number of authorities is a free 32-bit value of the hint. When the trusted hash is that of
  a list that fills every slot, claiming \<open>2^31\<close> authorities commits to the same list and makes twice
  their number wrap to 0, so a single valid signature passes the threshold.\<close>

theorem justification_threshold_wraps:
  assumes "gadgets_ok G" and "wf_justification n j" and "0 < n" "3 * n < 2 ^ 32"
    and "num_authorities j = 2 ^ 31"
    and "encoded_precommit j = signed_message \<lparr>target_hash = bh, target_number = bn\<rparr> round set_id"
    and "length bh = 32"
    and "active_slots (validator_signed j) = {i}"
    and "sig_valid G (pubkeys j ! i) (encoded_precommit j) (signatures j ! i)"
  shows "verify_simple_justification G bn bh set_id
    (compute_authority_set_hash (sha256 G) (pubkeys j)) j = Some ()"
proof -
  have "unat (num_authorities j) = 2 ^ 31" by (simp add: assms(5))
  moreover from this have "authorities_of j = pubkeys j"
    using assms(2,4) by (simp add: authorities_of_def wf_justification_def)
  ultimately show ?thesis
    using assms(5-9)
    by (auto simp: verify_simple_justification_iff [OF assms(1-4)] justified_def)
qed

theorem justification_threshold_wraps_witness:
  "verify_simple_justification toy_gadgets 100 (replicate 32 7) 9
     (compute_authority_set_hash (sha256 toy_gadgets) [replicate 32 1, replicate 32 2, replicate 32 3])
     (example_justification\<lparr>num_authorities := 2 ^ 31, validator_signed := [True, False, False]\<rparr>) = Some ()"
proof -
  let ?j = "example_justification\<lparr>num_authorities := 2 ^ 31, validator_signed := [True, False, False]\<rparr>"
  have "active_slots (validator_signed ?j) = {0}"
    by (auto simp: active_slots_def less_Suc_eq)
  moreover have "wf_justification 3 ?j"
    using example_justification_wf by (simp add: wf_justification_def)
  ultimately have "verify_simple_justification toy_gadgets 100 (replicate 32 7) 9
      (compute_authority_set_hash (sha256 toy_gadgets) (pubkeys ?j)) ?j = Some ()"
    by (intro justification_threshold_wraps [OF toy_gadgets_ok, where n = 3 and round = 5 and i = 0])
      (use example_signatures in \<open>simp_all add: example_facts\<close>,
        simp_all add: example_justification_def example_target_def)
  then show ?thesis by (simp add: example_justification_def example_authorities_def)
qed

end
