(* ===== verification/Rotate_Builder.thy ===== *)
theory Rotate_Builder
  imports Justification
begin

text \<open>
  The rotation circuits of \<open>circuits/builder/rotate.rs\<close>: the checks on an epoch end header, whose
  digest schedules the next authority set, and \<open>rotate\<close>, which ties them to a justification by the
  current set. \<open>rotate_variable\<close> and the justification come from hints.
\<close>

section \<open>The circuits\<close>

definition verify_prefix_epoch_end_header :: "gadgets \<Rightarrow> byte list \<Rightarrow> unit option" where
  "verify_prefix_epoch_end_header G subarray = do {
     assert_c (subarray ! 1 = 4);
     assert_c (segment 2 6 subarray = [70, 82, 78, 75]);
     assert_c (subarray ! 8 = 1) }"

definition get_new_authority_set_size_encoded_byte_length ::
    "gadgets \<Rightarrow> byte list \<Rightarrow> felt \<Rightarrow> felt option" where
  "get_new_authority_set_size_encoded_byte_length G subarray expected_num_authorities = do {
     let encoded_num_authorities_size_bytes =
       segment BASE_PREFIX_LENGTH (BASE_PREFIX_LENGTH + MAX_COMPACT_UINT_BYTES) subarray;
     (num, compress_mode) \<leftarrow> decode_compact_int G encoded_num_authorities_size_bytes;
     assert_c (expected_num_authorities = unat num);
     let all_possible_lengths = [1, 2, 4, 5];
     Some (select_felt G all_possible_lengths compress_mode) }"

definition expected_weight_bytes :: "byte list" where
  "expected_weight_bytes = [1, 0, 0, 0, 0, 0, 0, 0]"

definition expected_delay_bytes :: "byte list" where
  "expected_delay_bytes = [0, 0, 0, 0]"

text \<open>One iteration over the encoded validators: the state is the cursor and \<open>validator_disabled\<close>.\<close>

definition verify_validator_step ::
    "gadgets \<Rightarrow> byte list \<Rightarrow> felt \<Rightarrow> bytes32 list \<Rightarrow> nat \<Rightarrow> felt \<times> bool \<Rightarrow> (felt \<times> bool) option" where
  "verify_validator_step G enc_validator_subarray num keys i st = do {
     let (cursor, validator_disabled) = st;
     let idx = i * VALIDATOR_LENGTH;
     let curr_validator = i + 1;
     let extracted_pubkey = segment idx (idx + PUBKEY_LENGTH) enc_validator_subarray;
     let pubkey_match = (extracted_pubkey = keys ! i);
     assert_c (pubkey_match \<or> validator_disabled);
     let cursor = f_add G cursor PUBKEY_LENGTH;
     let extracted_weight = segment (idx + PUBKEY_LENGTH) (idx + VALIDATOR_LENGTH) enc_validator_subarray;
     let weight_match = (extracted_weight = expected_weight_bytes);
     assert_c (weight_match \<or> validator_disabled);
     let cursor = f_add G cursor WEIGHT_LENGTH;
     let at_end = (curr_validator = num);
     let validator_disabled = (if at_end then True else validator_disabled);
     let not_at_end = (\<not> at_end);
     let extracted_delay =
       segment (idx + VALIDATOR_LENGTH) (idx + VALIDATOR_LENGTH + DELAY_LENGTH) enc_validator_subarray;
     let delay_match = (extracted_delay = expected_delay_bytes);
     assert_c (delay_match \<or> not_at_end);
     Some (cursor, validator_disabled) }"

definition verify_epoch_end_header ::
    "gadgets \<Rightarrow> nat \<Rightarrow> encoded_header \<Rightarrow> bytes32 \<Rightarrow> felt \<Rightarrow> felt \<Rightarrow> bytes32 list \<Rightarrow> unit option" where
  "verify_epoch_end_header G max_subarray_size header header_hash num start_position keys = do {
     assert_c ((num = 0) = False);
     let cursor = start_position;
     prefix_subarray \<leftarrow> get_fixed_subarray G MAX_PREFIX_LENGTH (header_bytes header) cursor header_hash;
     verify_prefix_epoch_end_header G prefix_subarray;
     encoded_num_authorities_byte_len \<leftarrow>
       get_new_authority_set_size_encoded_byte_length G prefix_subarray num;
     let cursor = f_add G cursor BASE_PREFIX_LENGTH;
     let cursor = f_add G cursor encoded_num_authorities_byte_len;
     enc_validator_subarray \<leftarrow>
       get_fixed_subarray G max_subarray_size (header_bytes header) cursor header_hash;
     fold_opt (verify_validator_step G enc_validator_subarray num keys)
       [0..<length keys] (cursor, False);
     Some () }"

text \<open>The first assertion is checked while the circuit is built: otherwise there is no circuit.\<close>

definition rotate ::
    "gadgets \<Rightarrow> nat \<Rightarrow> nat \<Rightarrow> u64 \<Rightarrow> bytes32 \<Rightarrow> rotate_variable \<Rightarrow> justification \<Rightarrow> bytes32 option" where
  "rotate G max_authority_set_size max_subarray_size current_authority_set_id current_authority_set_hash
      r j = do {
     assert_c (max_subarray_size = max_authority_set_size * VALIDATOR_LENGTH + DELAY_LENGTH);
     let header_hash = hash_encoded_header G (target_header r);
     verify_simple_justification G (epoch_end_block_number r) header_hash
       current_authority_set_id current_authority_set_hash j;
     verify_epoch_end_header G max_subarray_size (target_header r) header_hash
       (target_header_num_authorities r) (next_authority_set_start_position r) (new_pubkeys r);
     compute_authority_set_commitment G (target_header_num_authorities r) (new_pubkeys r) }"

section \<open>The encoded authority list\<close>

text \<open>The bytes of a list of authorities of weight one, as a GRANDPA scheduled change encodes it.\<close>

definition encode_authorities :: "bytes32 list \<Rightarrow> byte list" where
  "encode_authorities ks = concat (map (\<lambda>k. k @ expected_weight_bytes) ks)"

lemma length_encode_authorities:
  "\<forall>k\<in>set ks. length k = 32 \<Longrightarrow> length (encode_authorities ks) = 40 * length ks"
  by (induction ks) (simp_all add: encode_authorities_def expected_weight_bytes_def)

lemma encode_authorities_snoc:
  "encode_authorities (ks @ [k]) = encode_authorities ks @ k @ expected_weight_bytes"
  by (simp add: encode_authorities_def)

text \<open>Slot by slot, the checks of the loop say that the bytes are the encoding.\<close>

definition slot_ok :: "byte list \<Rightarrow> bytes32 list \<Rightarrow> nat \<Rightarrow> bool" where
  "slot_ok sub ks i \<longleftrightarrow> segment (i * 40) (i * 40 + 32) sub = ks ! i
     \<and> segment (i * 40 + 32) (i * 40 + 40) sub = expected_weight_bytes"

lemma slots_encode_authorities:
  assumes "m \<le> length ks" and "40 * m \<le> length sub" and "\<forall>k\<in>set ks. length k = 32"
  shows "(\<forall>i<m. slot_ok sub ks i) \<longleftrightarrow> segment 0 (40 * m) sub = encode_authorities (take m ks)"
  using assms(1,2)
proof (induction m)
  case (Suc m)
  have split: "segment 0 (40 * Suc m) sub
      = segment 0 (40 * m) sub @ segment (40 * m) (40 * m + 32) sub @ segment (40 * m + 32) (40 * m + 40) sub"
    using segment_split [of 0 "40 * m" "40 * Suc m" sub]
      segment_split [of "40 * m" "40 * m + 32" "40 * m + 40" sub]
    by (simp add: add.commute)
  have enc: "encode_authorities (take (Suc m) ks)
      = encode_authorities (take m ks) @ ks ! m @ expected_weight_bytes"
    using Suc.prems by (simp add: take_Suc_conv_app_nth encode_authorities_snoc)
  have "length (encode_authorities (take m ks)) = 40 * m"
    using Suc.prems assms(3) length_encode_authorities [of "take m ks"]
    by (auto dest: in_set_takeD)
  then have "length (segment 0 (40 * m) sub) = length (encode_authorities (take m ks))"
    and "length (segment (40 * m) (40 * m + 32) sub) = length (ks ! m)"
    using Suc.prems assms(3) by simp_all
  then have "segment 0 (40 * Suc m) sub = encode_authorities (take (Suc m) ks) \<longleftrightarrow>
      segment 0 (40 * m) sub = encode_authorities (take m ks) \<and> slot_ok sub ks m"
    unfolding split enc by (simp add: slot_ok_def mult.commute)
  with Suc show ?case by (auto simp: less_Suc_eq)
qed (simp add: encode_authorities_def segment_def)

section \<open>The loop over the slots\<close>

lemma verify_validator_step_Some_iff:
  "verify_validator_step G sub num ks i (c, disabled) = Some st \<longleftrightarrow>
     (disabled \<or> slot_ok sub ks i)
     \<and> (i + 1 = num \<longrightarrow> segment (i * 40 + 40) (i * 40 + 44) sub = expected_delay_bytes)
     \<and> st = (f_add G (f_add G c 32) 8, disabled \<or> i + 1 = num)"
  by (auto simp: verify_validator_step_def circuit_simps slot_ok_def Let_def add.commute [of 44])

lemma validator_loop_flag:
  assumes "0 < num"
  shows "fold_opt (verify_validator_step G sub num ks) [0..<m] (c, False) = Some (c', d)
    \<Longrightarrow> d = (num \<le> m)"
proof (induction m arbitrary: c' d)
  case (Suc m)
  then obtain c'' d'' where "fold_opt (verify_validator_step G sub num ks) [0..<m] (c, False) = Some (c'', d'')"
    and "verify_validator_step G sub num ks m (c'', d'') = Some (c', d)"
    by (auto simp: fold_opt_snoc Option.bind_eq_Some_conv)
  with Suc.IH show ?case by (auto simp: verify_validator_step_Some_iff)
qed (use assms in simp)

lemma validator_loop_step:
  assumes "0 < num"
  shows "(\<exists>st. fold_opt (verify_validator_step G sub num ks) [0..<Suc m] (c, False) = Some st) \<longleftrightarrow>
    (\<exists>st. fold_opt (verify_validator_step G sub num ks) [0..<m] (c, False) = Some st)
      \<and> (num \<le> m \<or> slot_ok sub ks m)
      \<and> (m + 1 = num \<longrightarrow> segment (m * 40 + 40) (m * 40 + 44) sub = expected_delay_bytes)"
proof -
  let ?F = "fold_opt (verify_validator_step G sub num ks) [0..<m] (c, False)"
  have "(\<exists>st. fold_opt (verify_validator_step G sub num ks) [0..<Suc m] (c, False) = Some st) \<longleftrightarrow>
    (\<exists>c' d. ?F = Some (c', d) \<and> (d \<or> slot_ok sub ks m)
      \<and> (m + 1 = num \<longrightarrow> segment (m * 40 + 40) (m * 40 + 44) sub = expected_delay_bytes))"
    by (simp add: fold_opt_snoc Option.bind_eq_Some_conv verify_validator_step_Some_iff)
  then show ?thesis using validator_loop_flag [OF assms] by fastforce
qed

lemma validator_loop_iff:
  assumes "0 < num"
  shows "(\<exists>st. fold_opt (verify_validator_step G sub num ks) [0..<m] (c, False) = Some st)
    \<longleftrightarrow> (\<forall>i<min num m. slot_ok sub ks i)
      \<and> (num \<le> m \<longrightarrow> segment (num * 40) (num * 40 + 4) sub = expected_delay_bytes)"
proof (induction m)
  case 0
  from assms show ?case by auto
next
  case (Suc m)
  show ?case
  proof (cases "num \<le> m")
    case True
    then have "min num (Suc m) = min num m" "m + 1 \<noteq> num" by simp_all
    with True show ?thesis by (simp only: validator_loop_step [OF assms] Suc.IH) simp
  next
    case False
    have all: "(\<forall>i<Suc m. slot_ok sub ks i) \<longleftrightarrow> (\<forall>i<m. slot_ok sub ks i) \<and> slot_ok sub ks m"
      by (auto simp: less_Suc_eq)
    have delay: "(num \<le> Suc m \<longrightarrow> segment (num * 40) (num * 40 + 4) sub = expected_delay_bytes)
      \<longleftrightarrow> (m + 1 = num \<longrightarrow> segment (m * 40 + 40) (m * 40 + 44) sub = expected_delay_bytes)"
    proof (cases "m + 1 = num")
      case True
      then have "num * 40 = m * 40 + 40" "num * 40 + 4 = m * 40 + 44" "num \<le> Suc m" by auto
      with True show ?thesis by (simp only: True)
    qed (use False in auto)
    have m: "min num m = m" "min num (Suc m) = Suc m" using False by simp_all
    show ?thesis
      unfolding validator_loop_step [OF assms] Suc.IH m all delay using False by blast
  qed
qed

lemma validator_loop_Some_iff:
  assumes "0 < num" and "length sub = 40 * length ks + 4" and "\<forall>k\<in>set ks. length k = 32"
  shows "(\<exists>st. fold_opt (verify_validator_step G sub num ks) [0..<length ks] (c, False) = Some st)
    \<longleftrightarrow> segment 0 (40 * min num (length ks)) sub = encode_authorities (take num ks)
      \<and> (num \<le> length ks \<longrightarrow> segment (40 * num) (40 * num + 4) sub = expected_delay_bytes)"
proof -
  let ?m = "min num (length ks)"
  have "(\<exists>st. fold_opt (verify_validator_step G sub num ks) [0..<length ks] (c, False) = Some st)
    \<longleftrightarrow> (\<forall>i<?m. slot_ok sub ks i)
      \<and> (num \<le> length ks \<longrightarrow> segment (num * 40) (num * 40 + 4) sub = expected_delay_bytes)"
    by (rule validator_loop_iff [OF assms(1)])
  also have "(\<forall>i<?m. slot_ok sub ks i) \<longleftrightarrow> segment 0 (40 * ?m) sub = encode_authorities (take ?m ks)"
    by (rule slots_encode_authorities) (use assms(2,3) in auto)
  also have "take ?m ks = take num ks" by (simp add: min_def)
  finally show ?thesis by (simp add: mult.commute)
qed

section \<open>The digest log of an epoch end header\<close>

text \<open>
  What the circuit checks of the header bytes \<open>bs\<close> from \<open>start\<close> on: the consensus log of GRANDPA,
  a scheduled change, a compact length and the authorities, followed by a delay of 0 when the list
  ends within the slots. \<open>mode\<close> is the mode of the compact length.
\<close>

definition epoch_end_log :: "byte list \<Rightarrow> nat \<Rightarrow> nat \<Rightarrow> nat \<Rightarrow> bytes32 list \<Rightarrow> bool" where
  "epoch_end_log bs start mode n ks \<longleftrightarrow>
     bs ! (start + 1) = 4 \<and> segment (start + 2) (start + 6) bs = [70, 82, 78, 75] \<and> bs ! (start + 8) = 1
     \<and> (let c = start + 9 + compact_length mode in
          segment c (c + 40 * min n (length ks)) bs = encode_authorities (take n ks)
          \<and> (n \<le> length ks \<longrightarrow> segment (c + 40 * n) (c + 40 * n + 4) bs = [0, 0, 0, 0]))"

lemma compact_length_le: "mode < 4 \<Longrightarrow> compact_length mode \<le> 5"
  by (auto simp: compact_length_def less_Suc_eq numeral_eq_Suc)

lemma select_compact_length:
  "select_gadgets G \<Longrightarrow> mode < 4 \<Longrightarrow> select_felt G [1, 2, 4, 5] mode = compact_length mode"
  by (simp add: select_felt_nth compact_length_def)

lemma prefix_Some_iff:
  "start + 14 \<le> length bs \<Longrightarrow>
    verify_prefix_epoch_end_header G (segment start (start + 14) bs) = Some u \<longleftrightarrow>
      bs ! (start + 1) = 4 \<and> segment (start + 2) (start + 6) bs = [70, 82, 78, 75] \<and> bs ! (start + 8) = 1"
  by (simp add: verify_prefix_epoch_end_header_def circuit_simps segment_segment)

lemma size_byte_length_Some_iff:
  assumes "bit_gadgets G" "select_gadgets G" and "start + 14 \<le> length bs"
  shows "get_new_authority_set_size_encoded_byte_length G (segment start (start + 14) bs) n = Some k
    \<longleftrightarrow> (\<exists>v mode. decode_compact_int G (segment (start + 9) (start + 14) bs) = Some (v, mode)
          \<and> n = unat v \<and> k = compact_length mode)"
proof -
  have window: "segment 9 14 (segment start (start + 14) bs) = segment (start + 9) (start + 14) bs"
    by (simp add: segment_segment)
  have len: "length (segment (start + 9) (start + 14) bs) = 5" using assms(3) by simp
  note mode = decode_compact_int_mode(2) [OF assms(1,2) len]
  show ?thesis
    unfolding get_new_authority_set_size_encoded_byte_length_def Let_def
    using mode select_compact_length [OF assms(2)]
    by (auto simp: window Option.bind_eq_Some_conv circuit_simps)
qed

lemma enc_loop_Some_iff:
  assumes "0 < n" and "c + (40 * length ks + 4) \<le> length bs" and "\<forall>k\<in>set ks. length k = 32"
  shows "(\<exists>st. fold_opt (verify_validator_step G (segment c (c + (40 * length ks + 4)) bs) n ks)
      [0..<length ks] (x, False) = Some st)
    \<longleftrightarrow> segment c (c + 40 * min n (length ks)) bs = encode_authorities (take n ks)
      \<and> (n \<le> length ks \<longrightarrow> segment (c + 40 * n) (c + 40 * n + 4) bs = [0, 0, 0, 0])"
proof -
  let ?sub = "segment c (c + (40 * length ks + 4)) bs"
  have "segment 0 (40 * min n (length ks)) ?sub = segment c (c + 40 * min n (length ks)) bs"
    by (subst segment_segment) simp_all
  moreover have "segment (40 * n) (40 * n + 4) ?sub = segment (c + 40 * n) (c + 40 * n + 4) bs"
    if "n \<le> length ks"
    using that by (subst segment_segment) (simp_all add: add.assoc)
  ultimately show ?thesis
    using validator_loop_Some_iff [of n ?sub ks G x] assms
    by (auto simp: expected_delay_bytes_def)
qed

lemma verify_epoch_end_header_iff:
  assumes ok: "gadgets_ok G" and keys: "\<forall>k\<in>set ks. length k = 32"
    and size: "length (header_bytes h) < 2 ^ 32"
  shows "verify_epoch_end_header G (length ks * 40 + 4) h seed n start ks = Some () \<longleftrightarrow>
    (\<exists>v mode. n = unat v \<and> 0 < n \<and> start + 14 \<le> length (header_bytes h)
      \<and> decode_compact_int G (segment (start + 9) (start + 14) (header_bytes h)) = Some (v, mode)
      \<and> start + 9 + compact_length mode + 40 * length ks + 4 \<le> length (header_bytes h)
      \<and> epoch_end_log (header_bytes h) start mode n ks)" (is "?acc \<longleftrightarrow> ?spec")
proof -
  let ?bs = "header_bytes h"
  note g = gadgets_okD [OF ok]
  show ?thesis
  proof (cases "start + 14 \<le> length ?bs \<and> 0 < n")
    case False
    then show ?thesis
      by (auto simp: verify_epoch_end_header_def circuit_simps subarray_Some_iff [OF g(4)]
          Option.bind_eq_Some_conv)
  next
    case True
    then have start: "start + 14 \<le> length ?bs" and n: "0 < n" by simp_all
    have cursor: "f_add G (f_add G start 9) k = start + 9 + k" if "k \<le> 5" for k
      using start size field_order_gt [OF g(1)] that by (simp add: f_add_def)
    define tail where "tail c \<longleftrightarrow> c + (length ks * 40 + 4) \<le> length ?bs
      \<and> (\<exists>st. fold_opt (verify_validator_step G (segment c (c + (length ks * 40 + 4)) ?bs) n ks)
             [0..<length ks] (c, False) = Some st)" for c
    have tail: "tail c \<longleftrightarrow> c + 40 * length ks + 4 \<le> length ?bs
        \<and> segment c (c + 40 * min n (length ks)) ?bs = encode_authorities (take n ks)
        \<and> (n \<le> length ks \<longrightarrow> segment (c + 40 * n) (c + 40 * n + 4) ?bs = [0, 0, 0, 0])" for c
      using enc_loop_Some_iff [OF n _ keys, of c ?bs] unfolding tail_def
      by (simp only: add.assoc mult.commute [of "length ks"]) blast
    have "?acc \<longleftrightarrow> (\<exists>k. verify_prefix_epoch_end_header G (segment start (start + 14) ?bs) = Some ()
        \<and> get_new_authority_set_size_encoded_byte_length G (segment start (start + 14) ?bs) n = Some k
        \<and> tail (f_add G (f_add G start 9) k))"
      using start n
      by (simp add: verify_epoch_end_header_def circuit_simps subarray_Some_iff [OF g(4)] tail_def
          Option.bind_eq_Some_conv Let_def del: split_paired_Ex)
    also have "\<dots> \<longleftrightarrow> (\<exists>v mode. n = unat v
        \<and> decode_compact_int G (segment (start + 9) (start + 14) ?bs) = Some (v, mode)
        \<and> ?bs ! (start + 1) = 4 \<and> segment (start + 2) (start + 6) ?bs = [70, 82, 78, 75]
        \<and> ?bs ! (start + 8) = 1 \<and> tail (start + 9 + compact_length mode))"
    proof -
      have len: "length (segment (start + 9) (start + 14) ?bs) = 5" using start by simp
      note mode = decode_compact_int_mode(2) [OF g(1,2) len]
      show ?thesis
        unfolding prefix_Some_iff [OF start] size_byte_length_Some_iff [OF g(1,2) start]
        using mode cursor [OF compact_length_le] by fastforce
    qed
    also have "\<dots> \<longleftrightarrow> ?spec"
      unfolding tail epoch_end_log_def Let_def using n start by blast
    finally show ?thesis .
  qed
qed

section \<open>Scheduled changes\<close>

text \<open>The log that schedules the authorities \<open>ks\<close> with delay 0. \<open>tag\<close> and \<open>skip\<close> are the bytes the
  circuit skips.\<close>

definition scheduled_change_log :: "byte \<Rightarrow> byte list \<Rightarrow> bytes32 list \<Rightarrow> byte list" where
  "scheduled_change_log tag skip ks =
     [tag, 4, 70, 82, 78, 75] @ skip @ [1] @ scale_compact (of_nat (length ks))
       @ encode_authorities ks @ [0, 0, 0, 0]"

lemma encode_authorities_inj:
  assumes "length ks = length ks'" "\<forall>k\<in>set ks \<union> set ks'. length k = 32"
    and "encode_authorities ks = encode_authorities ks'"
  shows "ks = ks'"
  using assms by (induction ks ks' rule: list_induct2) (simp_all add: encode_authorities_def)

lemma encode_authorities_append: "encode_authorities (ks @ js) = encode_authorities ks @ encode_authorities js"
  by (simp add: encode_authorities_def)

lemma segment_append3 [bytes_simps]:
  "a = length xs \<Longrightarrow> b = length xs + length ys \<Longrightarrow> segment a b (xs @ ys @ zs) = ys"
  by (simp add: segment_def)

text \<open>Where the log starts at \<open>start\<close>, the checks say that the slots hold its authorities.\<close>

lemma epoch_end_log_at:
  assumes bs: "bs = pre @ scheduled_change_log tag skip ks @ post" and skip: "length skip = 2"
    and keys: "\<forall>k\<in>set ks \<union> set slots. length k = 32"
  shows "epoch_end_log bs (length pre) (compact_mode (of_nat (length ks))) (length ks) slots
    \<longleftrightarrow> take (length ks) slots = take (length slots) ks"
proof -
  let ?n = "length ks" and ?m = "min (length ks) (length slots)"
  let ?head = "pre @ [tag, 4, 70, 82, 78, 75] @ skip @ [1] @ scale_compact (of_nat ?n)"
  let ?c = "length pre + 9 + compact_length (compact_mode (of_nat ?n))"
  have head: "length ?head = ?c" using skip by (simp add: length_scale_compact)
  obtain s0 s1 where two: "skip = [s0, s1]" using skip
    by (auto simp: numeral_2_eq_2 length_Suc_conv)
  have enc: "length (encode_authorities (take k ks)) = 40 * min ?n k" for k
    using keys by (subst length_encode_authorities) (auto dest: in_set_takeD)
  have split: "bs = ?head @ encode_authorities (take ?m ks)
      @ encode_authorities (drop ?m ks) @ [0, 0, 0, 0] @ post"
    unfolding append_assoc [symmetric] encode_authorities_append [symmetric, of "take ?m ks" "drop ?m ks"]
    by (simp add: bs scheduled_change_log_def flip: encode_authorities_append)
  have "segment ?c (?c + 40 * ?m) bs = encode_authorities (take ?m ks)"
    unfolding split by (rule segment_append3) (simp_all only: head enc min.left_idem)
  moreover have "segment (?c + 40 * ?n) (?c + 40 * ?n + 4) bs = [0, 0, 0, 0]" if "?n \<le> length slots"
  proof -
    have "bs = (?head @ encode_authorities (take ?n ks)) @ [0, 0, 0, 0] @ post"
      by (simp add: bs scheduled_change_log_def)
    then show ?thesis
      by (simp only:)
          (rule segment_append3, use enc [of ?n] skip in \<open>simp_all add: length_scale_compact\<close>)
  qed
  moreover have "encode_authorities (take ?m ks) = encode_authorities (take ?n slots)
      \<longleftrightarrow> take ?m ks = take ?n slots"
    using encode_authorities_inj [of "take ?m ks" "take ?n slots"] keys
    by (auto simp: min.commute dest: in_set_takeD)
  moreover have "take ?m ks = take (length slots) ks" by (simp add: min_def)
  moreover have "bs ! (length pre + 1) = 4" "segment (length pre + 2) (length pre + 6) bs = [70, 82, 78, 75]"
    "bs ! (length pre + 8) = 1"
    by (simp_all add: bs scheduled_change_log_def two nth_append segment_def)
  ultimately show ?thesis unfolding epoch_end_log_def Let_def by metis
qed

lemma compact_at_log:
  assumes "bit_gadgets G" "select_gadgets G"
    and bs: "bs = pre @ scheduled_change_log tag skip ks @ post" and skip: "length skip = 2"
  shows "decode_compact_int G (segment (length pre + 9) (length pre + 14) bs)
    = Some (of_nat (length ks), compact_mode (of_nat (length ks)))"
proof -
  let ?rest = "encode_authorities ks @ [0, 0, 0, 0] @ post"
  have pos: "0 < length (scale_compact v)" for v
    by (simp add: scale_compact_def del: length_greater_0_conv)
  have "segment (length pre + 9) (length pre + 14) bs = take 5 (scale_compact (of_nat (length ks)) @ ?rest)"
    using skip by (simp add: bs scheduled_change_log_def segment_def)
  moreover have "5 \<le> length (scale_compact (of_nat (length ks)) @ ?rest)"
    using pos [of "of_nat (length ks)"] by (simp only: length_append) (simp add: Suc_le_eq)
  ultimately show ?thesis using decode_compact_int_window [OF assms(1,2)] by metis
qed

lemma rotate_Some_iff:
  assumes ok: "gadgets_ok G" and wfj: "wf_justification n j" and n: "0 < n" "3 * n < 2 ^ 32"
    and wfr: "wf_rotate S n r"
  shows "rotate G n (n * 40 + 4) set_id set_hash r j = Some out \<longleftrightarrow>
    justified G (epoch_end_block_number r) (hash_encoded_header G (target_header r)) set_id set_hash j
    \<and> verify_epoch_end_header G (n * 40 + 4) (target_header r) (hash_encoded_header G (target_header r))
        (target_header_num_authorities r) (next_authority_set_start_position r) (new_pubkeys r) = Some ()
    \<and> target_header_num_authorities r \<noteq> 0
    \<and> out = compute_authority_set_hash (sha256 G) (take (target_header_num_authorities r) (new_pubkeys r))"
proof -
  have "new_pubkeys r \<noteq> []" using wfr n(1) by (auto simp: wf_rotate_def)
  then show ?thesis
    unfolding rotate_def Let_def
    by (auto simp: circuit_simps Option.bind_eq_Some_conv verify_simple_justification_iff [OF ok wfj n]
        compute_authority_set_commitment_sha [OF gadgets_okD(5) [OF ok]])
qed

section \<open>A prover's inputs\<close>

text \<open>A hint that presents the bytes \<open>hs\<close> as the header, followed in the array by a scheduled change
  of \<open>ks\<close>. \<open>hsize\<close> is the claimed size of the header.\<close>

definition appended_log :: "nat \<Rightarrow> nat \<Rightarrow> u32 \<Rightarrow> nat \<Rightarrow> byte list \<Rightarrow> bytes32 list \<Rightarrow> rotate_variable" where
  "appended_log S n bn hsize hs ks =
     (let bytes = hs @ scheduled_change_log 6 [0, 0] ks
      in \<lparr>epoch_end_block_number = bn,
          target_header = \<lparr>header_bytes = bytes @ replicate (S - length bytes) 0, header_size = of_nat hsize\<rparr>,
          target_header_num_authorities = length ks,
          next_authority_set_start_position = length hs,
          new_pubkeys = take n (ks @ replicate n zero_hash)\<rparr>)"

lemma length_scheduled_change_log:
  "length skip = 2 \<Longrightarrow> \<forall>k\<in>set ks. length k = 32 \<Longrightarrow>
    length (scheduled_change_log tag skip ks)
      = 13 + compact_length (compact_mode (of_nat (length ks))) + 40 * length ks"
  by (simp add: scheduled_change_log_def length_scale_compact length_encode_authorities)

lemma appended_log_wf:
  assumes "\<forall>k\<in>set ks. length k = 32" and "length hs + 18 + 40 * length ks \<le> S"
  shows "wf_rotate S n (appended_log S n bn hsize hs ks)"
proof -
  have "compact_length (compact_mode (of_nat (length ks))) \<le> 5"
    by (rule compact_length_le [OF compact_mode_lt])
  then have "length (hs @ scheduled_change_log 6 [0, 0] ks) \<le> S"
    using assms by (simp add: length_scheduled_change_log)
  then show ?thesis
    using assms(1) by (auto simp: wf_rotate_def wf_header_def appended_log_def Let_def zero_hash_def
        dest!: in_set_takeD)
qed

lemma appended_log_simps:
  "header_bytes (target_header (appended_log S n bn hsize hs ks))
     = hs @ scheduled_change_log 6 [0, 0] ks
       @ replicate (S - length (hs @ scheduled_change_log 6 [0, 0] ks)) 0"
  "header_size (target_header (appended_log S n bn hsize hs ks)) = of_nat hsize"
  "epoch_end_block_number (appended_log S n bn hsize hs ks) = bn"
  "target_header_num_authorities (appended_log S n bn hsize hs ks) = length ks"
  "next_authority_set_start_position (appended_log S n bn hsize hs ks) = length hs"
  "new_pubkeys (appended_log S n bn hsize hs ks) = take n (ks @ replicate n zero_hash)"
  by (simp_all add: appended_log_def Let_def)

lemma appended_log_hash:
  assumes "hash_gadgets G" and "hsize < 2 ^ 32"
    and "hsize \<le> length (header_bytes (target_header (appended_log S n bn hsize hs ks)))"
  shows "hash_encoded_header G (target_header (appended_log S n bn hsize hs ks))
    = blake2b G (take hsize (header_bytes (target_header (appended_log S n bn hsize hs ks))))"
proof -
  have "unat (of_nat hsize :: u32) = hsize" using assms(2) by (simp add: unat_of_nat take_bit_nat_eq_self)
  then show ?thesis using assms(3)
    by (simp add: hash_encoded_header_def hash_gadget_simps [OF assms(1)] appended_log_simps(2))
qed

text \<open>Examples in a circuit of three slots: two current and \<open>m\<close> next authorities, and a justified
  header of four bytes and the log.\<close>

definition next_keys :: "nat \<Rightarrow> bytes32 list" where
  "next_keys m = map (\<lambda>i. replicate 32 (of_nat i)) [4..<4 + m]"

definition example_rotate :: "nat \<Rightarrow> rotate_variable" where
  "example_rotate m = appended_log 400 3 100 200 [9, 9, 9, 9] (next_keys m)"

definition example_rotate_hash :: "nat \<Rightarrow> bytes32" where
  "example_rotate_hash m = hash_encoded_header toy_gadgets (target_header (example_rotate m))"

definition example_rotate_justification :: "nat \<Rightarrow> justification" where
  "example_rotate_justification m = toy_justification 3 (example_rotate_hash m) 100 9 example_authorities"

lemma next_keys_wf: "length (next_keys m) = m" "\<forall>k\<in>set (next_keys m). length k = 32"
  by (auto simp: next_keys_def)

lemma example_rotate_wf: "m \<le> 4 \<Longrightarrow> wf_rotate 400 3 (example_rotate m)"
  unfolding example_rotate_def by (rule appended_log_wf) (use next_keys_wf in auto)

lemma example_rotate_hash_length: "length (example_rotate_hash m) = 32"
  by (simp add: example_rotate_hash_def hash_encoded_header_def toy_gadgets_def toy_digest_def)

lemma example_authorities_wf: "\<forall>k\<in>set example_authorities. length k = 32" "length example_authorities = 2"
  by (simp_all add: example_authorities_def)

lemma example_rotate_justification_wf: "wf_justification 3 (example_rotate_justification m)"
  unfolding example_rotate_justification_def
  by (rule toy_justification_wf) (use example_rotate_hash_length example_authorities_wf in auto)

lemma example_rotate_justified:
  "justified toy_gadgets (epoch_end_block_number (example_rotate m))
     (hash_encoded_header toy_gadgets (target_header (example_rotate m))) 9
     (compute_authority_set_hash toy_digest example_authorities) (example_rotate_justification m)"
  unfolding example_rotate_justification_def example_rotate_hash_def [symmetric]
  using toy_justification_justified [of "example_rotate_hash m" example_authorities 3]
    example_rotate_hash_length example_authorities_wf
  by (simp add: example_rotate_def appended_log_simps)

section \<open>Properties\<close>

text \<open>C20. What a rotation proof attests: the constraints hold exactly when the justification by the
  trusted set finalises the hash of the supplied header, the bytes at the supplied position are a
  scheduled change log whose compact length is the claimed number of authorities and whose
  authorities are the supplied keys, and then the output is the commitment of those keys, as many of
  them as the circuit has slots for.\<close>

theorem rotate_accepted_iff:
  assumes "gadgets_ok G" and "wf_justification n j" and "wf_rotate S n r"
    and "0 < n" and "3 * n < 2 ^ 32" and "S < 2 ^ 32"
  shows "rotate G n (n * VALIDATOR_LENGTH + DELAY_LENGTH) set_id set_hash r j = Some out \<longleftrightarrow>
    (let bs = header_bytes (target_header r); num = target_header_num_authorities r;
         start = next_authority_set_start_position r
     in justified G (epoch_end_block_number r) (hash_encoded_header G (target_header r)) set_id set_hash j
       \<and> 0 < num \<and> start + MAX_PREFIX_LENGTH \<le> S
       \<and> (\<exists>v mode. num = unat v
            \<and> decode_compact_int G (segment (start + 9) (start + 14) bs) = Some (v, mode)
            \<and> start + 9 + compact_length mode + 40 * n + 4 \<le> S
            \<and> epoch_end_log bs start mode num (new_pubkeys r))
       \<and> out = compute_authority_set_hash (sha256 G) (take num (new_pubkeys r)))"
proof -
  have wf: "\<forall>k\<in>set (new_pubkeys r). length k = 32" "length (new_pubkeys r) = n"
    "length (header_bytes (target_header r)) = S" using assms(3) by (simp_all add: wf_rotate_def wf_header_def)
  have size: "length (header_bytes (target_header r)) < 2 ^ 32" using wf assms(6) by simp
  show ?thesis
    using rotate_Some_iff [OF assms(1,2,4,5,3), of set_id set_hash out]
      verify_epoch_end_header_iff [OF assms(1) wf(1) size, unfolded wf(2,3)]
    by (auto simp: Let_def)
qed

theorem rotate_accepted_iff_witness:
  "rotate toy_gadgets 3 (3 * VALIDATOR_LENGTH + DELAY_LENGTH) 9
     (compute_authority_set_hash toy_digest example_authorities)
     (example_rotate 2) ((example_rotate_justification 2)\<lparr>num_authorities := 0\<rparr>) \<noteq> Some zero_hash"
  by (subst rotate_accepted_iff [OF toy_gadgets_ok _ example_rotate_wf])
    (use example_rotate_justification_wf [of 2] in
      \<open>simp_all add: Let_def justified_def wf_justification_def\<close>)

text \<open>On a header that holds a scheduled change at the start position.\<close>

lemma rotate_at_log:
  assumes ok: "gadgets_ok G" and wfj: "wf_justification n j" and wfr: "wf_rotate S n r"
    and n: "0 < n" "3 * n < 2 ^ 32" and S: "S < 2 ^ 32"
    and bs: "header_bytes (target_header r) = pre @ scheduled_change_log tag skip ks @ post"
    and skip: "length skip = 2" and keys: "\<forall>k\<in>set ks. length k = 32"
    and count: "0 < length ks" "length ks < 2 ^ 32"
    and room: "length pre + 18 + 40 * n \<le> S"
    and start: "next_authority_set_start_position r = length pre"
  shows "rotate G n (n * 40 + 4) set_id set_hash r j = Some out \<longleftrightarrow>
    justified G (epoch_end_block_number r) (hash_encoded_header G (target_header r)) set_id set_hash j
    \<and> target_header_num_authorities r = length ks
    \<and> take (length ks) (new_pubkeys r) = take n ks
    \<and> out = compute_authority_set_hash (sha256 G) (take n ks)"
proof -
  note g = gadgets_okD [OF ok]
  have wf: "\<forall>k\<in>set (new_pubkeys r). length k = 32" "length (new_pubkeys r) = n"
    "length (header_bytes (target_header r)) = S" using wfr by (simp_all add: wf_rotate_def wf_header_def)
  have size: "length (header_bytes (target_header r)) < 2 ^ 32" using wf S by simp
  have num: "unat (of_nat (length ks) :: u32) = length ks"
    using count by (simp add: unat_of_nat take_bit_nat_eq_self)
  have log: "epoch_end_log (header_bytes (target_header r)) (length pre) (compact_mode (of_nat (length ks)))
      (length ks) (new_pubkeys r) \<longleftrightarrow> take (length ks) (new_pubkeys r) = take n ks"
    using epoch_end_log_at [OF bs skip, of "new_pubkeys r"] keys wf by auto
  have fits: "length pre + 9 + compact_length (compact_mode (of_nat (length ks))) + 40 * n + 4 \<le> S"
    using room compact_length_le [OF compact_mode_lt [of "of_nat (length ks)"]] by linarith
  have dec: "decode_compact_int G (segment (length pre + 9) (length pre + 14) (header_bytes (target_header r)))
      = Some (v, mode) \<longleftrightarrow> v = of_nat (length ks) \<and> mode = compact_mode (of_nat (length ks))" for v mode
    using compact_at_log [OF g(1,2) bs skip] by auto
  have "verify_epoch_end_header G (n * 40 + 4) (target_header r) seed m (length pre) (new_pubkeys r) = Some ()
      \<longleftrightarrow> m = length ks \<and> take (length ks) (new_pubkeys r) = take n ks" for seed m
    unfolding verify_epoch_end_header_iff [OF ok wf(1) size, unfolded wf(2,3)] dec
    using num count log fits room by auto
  then show ?thesis
    unfolding rotate_Some_iff [OF ok wfj n wfr] start using count by (metis length_greater_0_conv neq0_conv list.size(3))
qed

text \<open>C21. Rotation is complete and determined by the header: on a header that schedules \<open>ks\<close>, with
  at most as many authorities as slots, a proof exists exactly when the header is justified and
  the hint supplies the keys \<open>ks\<close>, and the output is the commitment of \<open>ks\<close>.\<close>

theorem rotate_scheduled_change:
  assumes "gadgets_ok G" and "wf_justification n j" and "wf_rotate S n r"
    and "3 * n < 2 ^ 32" and "S < 2 ^ 32"
    and "header_bytes (target_header r) = pre @ scheduled_change_log tag skip ks @ post"
    and "length skip = 2" and "\<forall>k\<in>set ks. length k = 32"
    and "0 < length ks" and "length ks \<le> n" and "length pre + 18 + 40 * n \<le> S"
    and "next_authority_set_start_position r = length pre"
  shows "rotate G n (n * VALIDATOR_LENGTH + DELAY_LENGTH) set_id set_hash r j = Some out \<longleftrightarrow>
    justified G (epoch_end_block_number r) (hash_encoded_header G (target_header r)) set_id set_hash j
    \<and> target_header_num_authorities r = length ks \<and> take (length ks) (new_pubkeys r) = ks
    \<and> out = compute_authority_set_hash (sha256 G) ks"
proof -
  have "0 < n" using assms(9,10) by linarith
  moreover have "length ks < 2 ^ 32" "take n ks = ks" using assms(4,10) by simp_all
  ultimately show ?thesis
    using rotate_at_log [OF assms(1,2,3) _ assms(4,5,6,7,8,9) _ assms(11,12), of set_id set_hash out]
    by simp
qed

theorem rotate_scheduled_change_witness:
  "rotate toy_gadgets 3 124 9 (compute_authority_set_hash toy_digest example_authorities)
     (example_rotate 2) (example_rotate_justification 2)
   = Some (compute_authority_set_hash toy_digest (next_keys 2))"
proof -
  let ?r = "example_rotate 2" and ?j = "example_rotate_justification 2"
  have "rotate toy_gadgets 3 (3 * VALIDATOR_LENGTH + DELAY_LENGTH) 9
      (compute_authority_set_hash toy_digest example_authorities) ?r ?j
    = Some (compute_authority_set_hash (sha256 toy_gadgets) (next_keys 2))"
  proof (rule rotate_scheduled_change [OF toy_gadgets_ok example_rotate_justification_wf, where S = 400, THEN iffD2])
    show "header_bytes (target_header ?r) = [9, 9, 9, 9] @ scheduled_change_log 6 [0, 0] (next_keys 2)
       @ replicate (400 - length ([9, 9, 9, 9] @ scheduled_change_log 6 [0, 0] (next_keys 2))) 0"
      by (simp only: example_rotate_def appended_log_simps)
  qed (use next_keys_wf [of 2] example_rotate_wf [of 2] example_rotate_justified [of 2] in
      \<open>simp_all add: example_rotate_def appended_log_simps\<close>)
  then show ?thesis by (simp add: toy_gadgets_def)
qed

text \<open>C27. More authorities than slots are cut off without an error: on a header that schedules more
  than \<open>n\<close> authorities the circuit accepts and outputs the commitment of the first \<open>n\<close> alone.\<close>

theorem rotate_truncates:
  assumes "gadgets_ok G" and "wf_justification n j" and "wf_rotate S n r"
    and "0 < n" and "3 * n < 2 ^ 32" and "S < 2 ^ 32"
    and "header_bytes (target_header r) = pre @ scheduled_change_log tag skip ks @ post"
    and "length skip = 2" and "\<forall>k\<in>set ks. length k = 32"
    and "n < length ks" and "length ks < 2 ^ 32" and "length pre + 18 + 40 * n \<le> S"
    and "next_authority_set_start_position r = length pre"
    and "target_header_num_authorities r = length ks" and "new_pubkeys r = take n ks"
    and "justified G (epoch_end_block_number r) (hash_encoded_header G (target_header r)) set_id set_hash j"
  shows "rotate G n (n * VALIDATOR_LENGTH + DELAY_LENGTH) set_id set_hash r j
    = Some (compute_authority_set_hash (sha256 G) (take n ks))"
proof -
  have "0 < length ks" using assms(10) by linarith
  then show ?thesis
    using rotate_at_log [OF assms(1-9) _ assms(11-13), of set_id set_hash] assms(10,14-16)
    by simp
qed

theorem rotate_truncates_witness:
  "rotate toy_gadgets 3 (3 * VALIDATOR_LENGTH + DELAY_LENGTH) 9
     (compute_authority_set_hash toy_digest example_authorities)
     (example_rotate 4) (example_rotate_justification 4)
   = Some (compute_authority_set_hash (sha256 toy_gadgets) (take 3 (next_keys 4)))"
proof (rule rotate_truncates [OF toy_gadgets_ok example_rotate_justification_wf, where S = 400])
  show "header_bytes (target_header (example_rotate 4))
    = [9, 9, 9, 9] @ scheduled_change_log 6 [0, 0] (next_keys 4)
      @ replicate (400 - length ([9, 9, 9, 9] @ scheduled_change_log 6 [0, 0] (next_keys 4))) 0"
    by (simp only: example_rotate_def appended_log_simps)
qed (use next_keys_wf [of 4] example_rotate_wf [of 4] example_rotate_justified [of 4] in
    \<open>simp_all add: example_rotate_def appended_log_simps\<close>)

text \<open>C25. The start position is not tied to the size of the header, of which only the first
  \<open>header_size\<close> bytes are hashed. So from a justification of any header \<open>hs\<close> that leaves room in the
  array, scheduling a change or not, a prover gets a proof whose output is the commitment of any keys
  of his choice: he writes the log behind the header.\<close>

theorem rotate_accepts_appended_log:
  assumes "gadgets_ok G" and "wf_justification n j" and "3 * n < 2 ^ 32" and "S < 2 ^ 32"
    and "justified G bn (blake2b G hs) set_id set_hash j"
    and "length hs + 18 + 40 * n \<le> S"
    and "0 < length ks" and "length ks \<le> n" and "\<forall>k\<in>set ks. length k = 32"
  shows "\<exists>r. wf_rotate S n r \<and> epoch_end_block_number r = bn
    \<and> take (unat (header_size (target_header r))) (header_bytes (target_header r)) = hs
    \<and> rotate G n (n * VALIDATOR_LENGTH + DELAY_LENGTH) set_id set_hash r j
        = Some (compute_authority_set_hash (sha256 G) ks)"
proof (intro exI conjI)
  let ?r = "appended_log S n bn (length hs) hs ks"
  have small: "length hs < 2 ^ 32" using assms(4,6) by linarith
  have n: "0 < n" "length ks < 2 ^ 32" using assms(3,7,8) by linarith+
  have "length hs + 18 + 40 * length ks \<le> S" using assms(6,8) by linarith
  then show wf: "wf_rotate S n ?r" by (rule appended_log_wf [OF assms(9)])
  have "unat (of_nat (length hs) :: u32) = length hs"
    using small by (simp add: unat_of_nat take_bit_nat_eq_self)
  then show pre: "take (unat (header_size (target_header ?r))) (header_bytes (target_header ?r)) = hs"
    by (simp add: appended_log_simps)
  have hash: "hash_encoded_header G (target_header ?r) = blake2b G hs"
    using appended_log_hash [OF gadgets_okD(5) [OF assms(1)] small] by (simp add: appended_log_simps)
  show "rotate G n (n * VALIDATOR_LENGTH + DELAY_LENGTH) set_id set_hash ?r j
      = Some (compute_authority_set_hash (sha256 G) ks)"
    using rotate_at_log [OF assms(1,2) wf n(1) assms(3,4) appended_log_simps(1) _ assms(9,7) n(2) assms(6)
        appended_log_simps(5)] assms(5,8) hash
    by (simp add: appended_log_simps)
qed (simp add: appended_log_simps)

theorem rotate_accepts_appended_log_witness:
  "\<exists>r. wf_rotate 400 3 r \<and> epoch_end_block_number r = 100
    \<and> take (unat (header_size (target_header r))) (header_bytes (target_header r)) = [1, 2, 3]
    \<and> rotate toy_gadgets 3 (3 * VALIDATOR_LENGTH + DELAY_LENGTH) 9
        (compute_authority_set_hash toy_digest example_authorities) r
        (toy_justification 3 (blake2b toy_gadgets [1, 2, 3]) 100 9 example_authorities)
      = Some (compute_authority_set_hash (sha256 toy_gadgets) (next_keys 1))"
proof (rule rotate_accepts_appended_log [OF toy_gadgets_ok])
  have len: "length (blake2b toy_gadgets [1, 2, 3]) = 32"
    by (rule hash_gadget_simps(3) [OF gadgets_okD(5) [OF toy_gadgets_ok]])
  then show "wf_justification 3 (toy_justification 3 (blake2b toy_gadgets [1, 2, 3]) 100 9 example_authorities)"
    using example_authorities_wf by (simp add: toy_justification_wf)
  show "justified toy_gadgets 100 (blake2b toy_gadgets [1, 2, 3]) 9
      (compute_authority_set_hash toy_digest example_authorities)
      (toy_justification 3 (blake2b toy_gadgets [1, 2, 3]) 100 9 example_authorities)"
    by (rule toy_justification_justified) (use len example_authorities_wf in simp_all)
qed (use next_keys_wf [of 1] in simp_all)

end
