(* ===== verification/Fetcher.thy ===== *)
theory Fetcher
  imports Client Rotate_Builder
begin

text \<open>
  What the fetcher reads from the node for a proof (\<open>circuits/input/mod.rs\<close>): the authorities of a
  block, parsed from the raw storage bytes, their hash, the justification of a block from the node or
  from Redis, and the position of the data root in a header.
\<close>

section \<open>The signed message\<close>

text \<open>\<open>decode_precommit\<close> of the fetcher, which panics on a message that is too short.\<close>

definition decode_precommit_host :: "byte list \<Rightarrow> (bytes32 \<times> u32 \<times> u64 \<times> u64) host" where
  "decode_precommit_host precommit =
     bind_h (nth_h precommit 0) (\<lambda>tag.
     bind_h (assert_h Assertion_failed (tag = 1)) (\<lambda>_.
     bind_h (slice_h 1 33 precommit) (\<lambda>block_hash.
     bind_h (slice_h 33 37 precommit) (\<lambda>number.
     bind_h (slice_h 37 45 precommit) (\<lambda>round.
     bind_h (slice_h 45 53 precommit) (\<lambda>set_id.
     Inr (block_hash, u32_from_le number, u64_from_le round, u64_from_le set_id)))))))"

definition verify_signature :: "client \<Rightarrow> bytes32 \<Rightarrow> byte list \<Rightarrow> byte list \<Rightarrow> unit host" where
  "verify_signature c pubkey_bytes message sig =
     assert_h (Panic ''Signature is not valid'') (c_verify c pubkey_bytes message sig)"

lemma decode_precommit_host_eq:
  assumes "length m = 53"
  shows "decode_precommit_host m = (if m ! 0 = 1 then Inr (segment 1 33 m, u32_from_le (segment 33 37 m),
      u64_from_le (segment 37 45 m), u64_from_le (segment 45 53 m)) else Inl Assertion_failed)"
  using assms by (simp add: decode_precommit_host_def)

section \<open>The authorities of a block\<close>

text \<open>One chunk of the raw bytes: a key and its weight, which must be 1.\<close>

definition decode_authority :: "byte list \<Rightarrow> bytes32 host" where
  "decode_authority authority_pubkey_weight =
     bind_h (slice_h 0 32 authority_pubkey_weight) (\<lambda>pub_key.
     bind_h (slice_h 32 40 authority_pubkey_weight) (\<lambda>weight.
     bind_h (assert_h Assertion_failed (weight = [1, 0, 0, 0, 0, 0, 0, 0])) (\<lambda>_. Inr pub_key)))"

definition decode_authorities :: "byte list \<Rightarrow> bytes32 list host" where
  "decode_authorities bs =
     (let offset = if length bs \<le> (32 + 8) * 63 + 2 then 2 else 3 in
      if length bs < offset then Inl Overflow
      else bind_h (assert_h Assertion_failed ((length bs - offset) mod (32 + 8) = 0)) (\<lambda>_.
        map_h decode_authority (chunks VALIDATOR_LENGTH (drop offset bs))))"

definition get_authorities :: "client \<Rightarrow> u32 \<Rightarrow> bytes32 list host" where
  "get_authorities c n =
     bind_h (expect_h (refresh_ws_connection c)) (\<lambda>_.
     bind_h (get_block_hash c n) (\<lambda>block_hash.
     bind_h (unwrap (c_authorities c block_hash)) decode_authorities))"

text \<open>The method \<open>compute_authority_set_hash\<close>; \<open>H256::from_slice\<close> panics unless it gets 32 bytes.\<close>

definition authority_set_hash_at :: "client \<Rightarrow> u32 \<Rightarrow> bytes32 host" where
  "authority_set_hash_at c n =
     bind_h (get_authorities c n) (\<lambda>authorities.
     let hash_so_far = compute_authority_set_hash (c_sha256 c) authorities in
     bind_h (assert_h (Panic ''H256'') (length hash_so_far = 32)) (\<lambda>_. Inr hash_so_far))"

lemma decode_authority_iff:
  "length ch = 40 \<Longrightarrow> decode_authority ch = Inr k \<longleftrightarrow> length k = 32 \<and> ch = k @ expected_weight_bytes"
proof -
  assume len: "length ch = 40"
  then have "decode_authority ch = Inr k \<longleftrightarrow> segment 32 40 ch = expected_weight_bytes \<and> k = segment 0 32 ch"
    by (auto simp: decode_authority_def bind_h_Inr_iff expected_weight_bytes_def)
  also have "segment 32 40 ch = drop 32 ch" using len by (simp add: segment_def)
  also have "segment 0 32 ch = take 32 ch" by (simp add: segment_def)
  also have "drop 32 ch = expected_weight_bytes \<and> k = take 32 ch
      \<longleftrightarrow> length k = 32 \<and> ch = k @ expected_weight_bytes"
  proof
    assume r: "drop 32 ch = expected_weight_bytes \<and> k = take 32 ch"
    then show "length k = 32 \<and> ch = k @ expected_weight_bytes"
      using len append_take_drop_id [of 32 ch] by simp
  qed (elim conjE, simp)
  finally show ?thesis .
qed

lemma chunks_length:
  "0 < n \<Longrightarrow> n dvd length xs \<Longrightarrow> ch \<in> set (chunks n xs) \<Longrightarrow> length ch = n"
proof (induction n xs rule: chunks.induct)
  case (1 n xs)
  show ?case
  proof (cases "xs = []")
    case False
    then have "n \<le> length xs" using 1 by (simp add: dvd_imp_le)
    then show ?thesis using 1 False by (subst (asm) (2) chunks.simps) (auto simp: min_def)
  qed (use 1 in simp)
qed

lemma concat_chunks: "0 < n \<Longrightarrow> concat (chunks n xs) = xs"
proof (induction n xs rule: chunks.induct)
  case (1 n xs)
  then show ?case by (cases "xs = []") (simp_all add: chunks.simps [of n xs])
qed

lemma decode_chunks_iff:
  assumes "40 dvd length xs"
  shows "map_h decode_authority (chunks 40 xs) = Inr ks \<longleftrightarrow>
    (\<forall>k\<in>set ks. length k = 32) \<and> xs = encode_authorities ks"
proof
  assume "map_h decode_authority (chunks 40 xs) = Inr ks"
  then have *: "list_all2 (\<lambda>ch k. length k = 32 \<and> ch = k @ expected_weight_bytes) (chunks 40 xs) ks"
    unfolding map_h_Inr_iff
    by (rule list.rel_mono_strong) (use chunks_length [of 40 xs] assms in \<open>auto simp: decode_authority_iff\<close>)
  then have "chunks 40 xs = map (\<lambda>k. k @ expected_weight_bytes) ks"
    by (induction rule: list_all2_induct) simp_all
  moreover have "\<forall>k\<in>set ks. length k = 32" using * by (induction rule: list_all2_induct) simp_all
  ultimately show "(\<forall>k\<in>set ks. length k = 32) \<and> xs = encode_authorities ks"
    using concat_chunks [of 40 xs] by (simp add: encode_authorities_def)
next
  assume r: "(\<forall>k\<in>set ks. length k = 32) \<and> xs = encode_authorities ks"
  then have "chunks 40 xs = map (\<lambda>k. k @ expected_weight_bytes) ks"
    unfolding encode_authorities_def
    using chunks_concat [of 40 "map (\<lambda>k. k @ expected_weight_bytes) ks"] by (simp add: expected_weight_bytes_def)
  then show "map_h decode_authority (chunks 40 xs) = Inr ks"
    using r by (simp add: map_h_map) (rule map_h_Inr [where g = id, simplified],
        simp add: decode_authority_iff expected_weight_bytes_def)
qed

lemma decode_authorities_Inr_iff:
  "decode_authorities bs = Inr ks \<longleftrightarrow>
    (\<exists>pre. bs = pre @ encode_authorities ks \<and> (\<forall>k\<in>set ks. length k = 32)
      \<and> (length pre = 2 \<and> length ks \<le> 63 \<or> length pre = 3 \<and> 63 \<le> length ks))"
  (is "_ \<longleftrightarrow> ?R")
proof -
  define off :: nat where "off = (if length bs \<le> 2522 then 2 else 3)"
  have "decode_authorities bs = Inr ks \<longleftrightarrow>
      off \<le> length bs \<and> 40 dvd length (drop off bs) \<and> map_h decode_authority (chunks 40 (drop off bs)) = Inr ks"
    by (auto simp: decode_authorities_def off_def bind_h_Inr_iff dvd_eq_mod_eq_0)
  also have "\<dots> \<longleftrightarrow> off \<le> length bs \<and> (\<forall>k\<in>set ks. length k = 32) \<and> drop off bs = encode_authorities ks"
    using decode_chunks_iff [of "drop off bs" ks] length_encode_authorities [of ks]
    by (metis dvd_triv_left)
  also have "\<dots> \<longleftrightarrow> ?R"
  proof
    assume r: "off \<le> length bs \<and> (\<forall>k\<in>set ks. length k = 32) \<and> drop off bs = encode_authorities ks"
    then have "length bs - off = 40 * length ks" by (metis length_drop length_encode_authorities)
    with r have "length bs = off + 40 * length ks" by linarith
    then have "off = 2 \<and> length ks \<le> 63 \<or> off = 3 \<and> 63 \<le> length ks"
      by (auto simp: off_def split: if_splits)
    with r show ?R
      by (intro exI [of _ "take off bs"]) (use append_take_drop_id [of off bs] in auto)
  next
    assume ?R
    then show "off \<le> length bs \<and> (\<forall>k\<in>set ks. length k = 32) \<and> drop off bs = encode_authorities ks"
      by (auto simp: off_def length_encode_authorities)
  qed
  finally show ?thesis .
qed

text \<open>The storage value of an authority list: a version byte, the number of authorities and the
  authorities with weight 1.\<close>

definition authority_list :: "byte \<Rightarrow> bytes32 list \<Rightarrow> byte list" where
  "authority_list version ks = version # scale_compact (of_nat (length ks)) @ encode_authorities ks"

lemma decode_authority_list:
  assumes "\<forall>k\<in>set ks. length k = 32" and "length ks < 2 ^ 30"
  shows "decode_authorities (authority_list v ks) = (if length ks < 2 ^ 14 then Inr ks else Inl Assertion_failed)"
proof -
  have n: "unat (of_nat (length ks) :: u32) = length ks" using assms(2) by (intro unat_of_nat_small) simp
  show ?thesis
  proof (cases "length ks < 2 ^ 14")
    case True
    have "length (v # scale_compact (of_nat (length ks))) = (if length ks \<le> 63 then 2 else 3)"
      using True n by (simp add: scale_compact_def)
    then show ?thesis
      using True assms(1) unfolding authority_list_def by (auto simp: decode_authorities_Inr_iff)
  next
    case False
    then have "length (authority_list v ks) = 5 + 40 * length ks"
      using n assms by (simp add: authority_list_def scale_compact_def length_encode_authorities)
    moreover from this have "length (authority_list v ks) - 3 = 2 + 40 * length ks" by linarith
    moreover have "(2 + 40 * length ks) mod 40 = 2 mod 40" by (rule mod_mult_self2)
    ultimately show ?thesis using False by (auto simp: decode_authorities_def)
  qed
qed

section \<open>The justification of a block\<close>

record simple_justification_data =
  sj_pubkeys :: "bytes32 list"
  sj_signatures :: "byte list list"
  sj_validator_signed :: "bool list"
  sj_signed_message :: "byte list"
  sj_voting_weight :: nat
  sj_num_authorities :: nat

record circuit_justification =
  cj_authority_set_id :: u64
  cj_signed_message :: "byte list"
  cj_validator_signed :: "bool list"
  cj_pubkeys :: "bytes32 list"
  cj_signatures :: "byte list list"
  cj_num_authorities :: nat
  cj_current_authority_set_hash :: "byte list"

text \<open>\<open>RedisClient::get_justification\<close>.\<close>

definition get_justification :: "client \<Rightarrow> u32 \<Rightarrow> stored_justification host" where
  "get_justification c n =
     (case get_connection c of Inl e \<Rightarrow> Inl (Panic ''redis'')
      | Inr _ \<Rightarrow> bind_h (unwrap (c_stored c n)) (\<lambda>serialized.
          case serialized of None \<Rightarrow> Inl (Failed ''Failed to deserialize justification'')
          | Some js \<Rightarrow> nth_h js 0))"

text \<open>\<open>CompressedEdwardsY::from_slice(..).unwrap()\<close>.\<close>

definition compressed_key :: "byte list \<Rightarrow> bytes32 host" where
  "compressed_key bs = bind_h (assert_h Unwrap_none (length bs = 32)) (\<lambda>_. Inr bs)"

text \<open>The hash map from the signers of the precommits to their signatures; a later precommit of a
  signer replaces an earlier one.\<close>

definition signature_map :: "(bytes32 \<times> byte list) list \<Rightarrow> bytes32 \<Rightarrow> byte list option" where
  "signature_map sigs = foldl (\<lambda>m p. m(fst p \<mapsto> snd p)) Map.empty sigs"

text \<open>The slots of the authorities: those in the map signed, the others get the dummy signature.\<close>

definition slot_signatures :: "byte list \<Rightarrow> (bytes32 \<Rightarrow> byte list option) \<Rightarrow> bytes32 list \<Rightarrow> byte list list" where
  "slot_signatures dummy m ks = map (\<lambda>k. case m k of Some s \<Rightarrow> s | None \<Rightarrow> dummy) ks"

definition slot_signed :: "(bytes32 \<Rightarrow> byte list option) \<Rightarrow> bytes32 list \<Rightarrow> bool list" where
  "slot_signed m ks = map (\<lambda>k. m k \<noteq> None) ks"

text \<open>The branch of an epoch end block, whose justification the node serves.\<close>

definition epoch_end_justification_data :: "client \<Rightarrow> nat \<Rightarrow> u32 \<Rightarrow> simple_justification_data host" where
  "epoch_end_justification_data c max_size n =
     bind_h (unwrap (c_prove_finality c n)) (\<lambda>gj.
     bind_h (sub_ck n 1) (\<lambda>prev.
     bind_h (get_authority_set_id c prev) (\<lambda>set_id.
     bind_h (get_authorities c prev) (\<lambda>authorities.
     bind_h (assert_h (Panic ''Too many authorities'') (\<not> length authorities > max_size)) (\<lambda>_.
     bind_h (nth_h (cm_precommits (gj_commit gj)) 0) (\<lambda>first.
     let message = signed_message (sp_precommit first) (gj_round gj) set_id in
     bind_h (map_h (\<lambda>p. verify_signature c (sp_id p) message (sp_signature p))
        (cm_precommits (gj_commit gj))) (\<lambda>_.
     let m = signature_map (map (\<lambda>p. (sp_id p, sp_signature p)) (cm_precommits (gj_commit gj)));
         signed = slot_signed m authorities
     in Inr \<lparr>sj_pubkeys = authorities, sj_signatures = slot_signatures (c_dummy_signature c) m authorities,
          sj_validator_signed = signed, sj_signed_message = message,
          sj_voting_weight = length (filter id signed), sj_num_authorities = length authorities\<rparr>)))))))"

text \<open>The branch of any other block, whose justification the indexer stored in Redis.\<close>

definition stored_justification_data :: "client \<Rightarrow> u32 \<Rightarrow> simple_justification_data host" where
  "stored_justification_data c n =
     bind_h (get_justification c n) (\<lambda>st.
     bind_h (map_h compressed_key (st_pubkeys st)) (\<lambda>pubkeys.
     Inr \<lparr>sj_pubkeys = pubkeys, sj_signatures = st_signatures st,
       sj_validator_signed = st_validator_signed st, sj_signed_message = st_signed_message st,
       sj_voting_weight = length (filter id (st_validator_signed st)),
       sj_num_authorities = st_num_authorities st\<rparr>))"

definition get_justification_data :: "client \<Rightarrow> nat \<Rightarrow> u32 \<Rightarrow> simple_justification_data host" where
  "get_justification_data c max_size n =
     bind_h (expect_h (refresh_ws_connection c)) (\<lambda>_.
     bind_h (get_authority_set_id c n) (\<lambda>curr.
     bind_h (sub_ck n 1) (\<lambda>before.
     bind_h (get_authority_set_id c before) (\<lambda>prev.
     bind_h (add_ck prev 1) (\<lambda>next_id.
     if curr = next_id then epoch_end_justification_data c max_size n
     else stored_justification_data c n)))))"

text \<open>One slot of the padded arrays; a stored signature must have 64 bytes.\<close>

definition padded_slot :: "simple_justification_data \<Rightarrow> nat \<Rightarrow> (bytes32 \<times> byte list \<times> bool) host" where
  "padded_slot d i =
     bind_h (nth_h (sj_pubkeys d) i) (\<lambda>k.
     bind_h (nth_h (sj_signatures d) i) (\<lambda>s.
     bind_h (assert_h Unwrap_none (length s = 64)) (\<lambda>_.
     bind_h (nth_h (sj_validator_signed d) i) (\<lambda>v. Inr (k, s, v)))))"

definition get_justification_from_block :: "client \<Rightarrow> nat \<Rightarrow> u32 \<Rightarrow> circuit_justification host" where
  "get_justification_from_block c max_size n =
     bind_h (get_justification_data c max_size n) (\<lambda>d.
     bind_h (sub_ck n 1) (\<lambda>before.
     bind_h (get_authority_set_id c before) (\<lambda>set_id.
     let set_hash = compute_authority_set_hash (c_sha256 c) (sj_pubkeys d);
         num = sj_num_authorities d
     in
     bind_h (usize_ck (sj_voting_weight d * 3)) (\<lambda>votes.
     bind_h (usize_ck (num * 2)) (\<lambda>threshold.
     bind_h (assert_h (Panic ''Not enough voting power'') (\<not> votes < threshold)) (\<lambda>_.
     bind_h (map_h (padded_slot d) [0..<num]) (\<lambda>slots.
     let pad = max_size - num in
     Inr \<lparr>cj_authority_set_id = set_id, cj_signed_message = sj_signed_message d,
       cj_validator_signed = map (\<lambda>(k, s, v). v) slots @ replicate pad False,
       cj_pubkeys = map (\<lambda>(k, s, v). k) slots @ replicate pad (c_dummy_key c),
       cj_signatures = map (\<lambda>(k, s, v). s) slots @ replicate pad (c_dummy_signature c),
       cj_num_authorities = num, cj_current_authority_set_hash = set_hash\<rparr>)))))))"

lemma slot_lengths [simp]:
  "length (slot_signatures d m ks) = length ks" "length (slot_signed m ks) = length ks"
  by (simp_all add: slot_signatures_def slot_signed_def)

lemma slot_nth [simp]:
  "i < length ks \<Longrightarrow> slot_signed m ks ! i \<longleftrightarrow> m (ks ! i) \<noteq> None"
  "i < length ks \<Longrightarrow> slot_signatures d m ks ! i = (case m (ks ! i) of Some s \<Rightarrow> s | None \<Rightarrow> d)"
  by (simp_all add: slot_signatures_def slot_signed_def)

lemma signature_map_snoc: "signature_map (xs @ [p]) = (signature_map xs)(fst p \<mapsto> snd p)"
  by (simp add: signature_map_def)

lemma signature_map_Some: "signature_map xs k = Some s \<Longrightarrow> (k, s) \<in> set xs"
  by (induction xs rule: rev_induct)
    (auto simp: signature_map_snoc signature_map_def [of "[]"] split: if_splits)

lemma signature_map_dom: "dom (signature_map xs) = fst ` set xs"
proof (induction xs rule: rev_induct)
  case (snoc p xs)
  then show ?case unfolding signature_map_snoc dom_fun_upd by simp
qed (simp add: signature_map_def)

lemma padded_slots_iff:
  "map_h (padded_slot d) [0..<n] = Inr slots \<longleftrightarrow>
    n \<le> length (sj_pubkeys d) \<and> n \<le> length (sj_signatures d) \<and> n \<le> length (sj_validator_signed d)
    \<and> (\<forall>i<n. length (sj_signatures d ! i) = 64)
    \<and> slots = map (\<lambda>i. (sj_pubkeys d ! i, sj_signatures d ! i, sj_validator_signed d ! i)) [0..<n]"
  (is "?L \<longleftrightarrow> ?R")
proof -
  have "?L \<longleftrightarrow> length slots = n \<and> (\<forall>i<n. padded_slot d i = Inr (slots ! i))"
    by (auto simp: map_h_Inr_iff list_all2_conv_all_nth)
  also have "\<dots> \<longleftrightarrow> ?R"
  proof
    assume l: "length slots = n \<and> (\<forall>i<n. padded_slot d i = Inr (slots ! i))"
    then have *: "i < length (sj_pubkeys d) \<and> i < length (sj_signatures d) \<and> i < length (sj_validator_signed d)
        \<and> length (sj_signatures d ! i) = 64
        \<and> slots ! i = (sj_pubkeys d ! i, sj_signatures d ! i, sj_validator_signed d ! i)" if "i < n" for i
      using that by (auto simp: padded_slot_def bind_h_Inr_iff)
    then have "n \<le> length (sj_pubkeys d) \<and> n \<le> length (sj_signatures d) \<and> n \<le> length (sj_validator_signed d)"
      by (meson le_less_linear less_irrefl)
    with l * show ?R by (auto intro: nth_equalityI)
  qed (auto simp: padded_slot_def)
  finally show ?thesis .
qed

section \<open>The data root in a header\<close>

text \<open>\<open>check_data_commitment\<close>, which prints the first position of the data root in the encoded header.\<close>

definition check_data_commitment :: "client \<Rightarrow> u32 \<Rightarrow> int host" where
  "check_data_commitment c n =
     bind_h (expect_h (refresh_ws_connection c)) (\<lambda>_.
     bind_h (get_header c n) (\<lambda>header.
     let encoded = c_encode_header c header in
     if length encoded < HASH_SIZE then Inl Overflow
     else Inr (case find (\<lambda>i. segment i (i + HASH_SIZE) encoded = hdr_data_root header)
                 [0..<(length encoded - HASH_SIZE) + 1] of
        None \<Rightarrow> - 1 | Some i \<Rightarrow> int i)))"

lemma check_data_commitment_found:
  assumes "connected c" "avail_encoding c" "get_header c n = Inr h" "length (hdr_data_root h) = 32"
  shows "\<exists>i. check_data_commitment c n = Inr (int i) \<and> i + 32 \<le> length (c_encode_header c h)
    \<and> segment i (i + 32) (c_encode_header c h) = hdr_data_root h"
proof -
  let ?e = "c_encode_header c h"
  let ?P = "\<lambda>i. segment i (i + 32) ?e = hdr_data_root h"
  obtain pre where e: "?e = pre @ hdr_data_root h"
    using assms(2) by (auto simp: avail_encoding_def header_layout_def)
  have len: "length ?e = length pre + 32" using e assms(4) by simp
  have "?P (length pre)" using e assms(4) by (simp add: segment_def)
  then have "find ?P [0..<length ?e - 32 + 1] \<noteq> None"
    by (simp only: find_None_iff) (use len in \<open>auto intro!: bexI [of _ "length pre"]\<close>)
  then obtain i where i: "find ?P [0..<length ?e - 32 + 1] = Some i" by blast
  then have "?P i" "i < length ?e - 32 + 1" by (auto simp: find_Some_iff simp del: upt_Suc)
  then show ?thesis
    using assms i len by (intro exI [of _ i]) (auto simp: check_data_commitment_def Let_def simp del: upt_Suc)
qed

section \<open>Properties\<close>

text \<open>The fetcher and the circuit decode the signed message alike: on 53 bytes the fetcher panics
  exactly where the circuit has no proof, and reads the same four fields otherwise.\<close>

theorem precommit_decoders_agree:
  assumes "u32_gadgets G" and "length m = ENCODED_PRECOMMIT_LENGTH"
  shows "decode_precommit G m = (case decode_precommit_host m of Inl e \<Rightarrow> None
    | Inr (hash, number, round, set_id) \<Rightarrow> Some
      \<lparr>precommit_block_hash = hash, precommit_block_number = number, justification_round = round,
       precommit_authority_set_id = set_id\<rparr>)"
  using assms by (simp add: decode_precommit_host_eq decode_precommit_def u32_gadget_simps assert_c_def
      unat_eq_one_iff)

theorem precommit_decoders_agree_witness:
  "decode_precommit toy_gadgets (replicate 53 0) = None \<and> decode_precommit_host (replicate 53 0) = Inl Assertion_failed"
  using precommit_decoders_agree [OF gadgets_okD(3) [OF toy_gadgets_ok], of "replicate 53 0"]
  by (simp add: decode_precommit_host_eq)

text \<open>Which storage values the fetcher accepts: the authorities with weight 1 after two bytes, or
  after three bytes for 63 authorities and more. The version and the encoded number of authorities are
  not looked at, and with 63 authorities both offsets are accepted.\<close>

theorem decode_authorities_accepts_iff:
  "decode_authorities bs = Inr ks \<longleftrightarrow>
    (\<exists>pre. bs = pre @ encode_authorities ks \<and> (\<forall>k\<in>set ks. length k = 32)
      \<and> (length pre = 2 \<and> length ks \<le> 63 \<or> length pre = 3 \<and> 63 \<le> length ks))"
  by (rule decode_authorities_Inr_iff)

theorem decode_authorities_accepts_iff_witness:
  "decode_authorities ([9, 9] @ encode_authorities [replicate 32 1]) = Inr [replicate 32 1]"
  by (subst decode_authorities_accepts_iff) (intro exI [of _ "[9, 9]"], simp)

text \<open>Storing and reading an authority list: below \<open>2^14\<close> authorities the fetcher reads back the
  list that was encoded; from there to \<open>2^30\<close> it stops with a failed assertion, because the count takes
  four bytes.\<close>

theorem authority_list_roundtrip:
  assumes "\<forall>k\<in>set ks. length k = PUBKEY_LENGTH" and "length ks < 2 ^ 30"
  shows "decode_authorities (authority_list version ks)
    = (if length ks < 2 ^ 14 then Inr ks else Inl Assertion_failed)"
  using decode_authority_list [of ks version] assms by simp

theorem authority_list_roundtrip_witness:
  "decode_authorities (authority_list 1 (replicate 64 (replicate 32 5))) = Inr (replicate 64 (replicate 32 5))
    \<and> decode_authorities (authority_list 1 (replicate (2 ^ 14) (replicate 32 5))) = Inl Assertion_failed"
  using authority_list_roundtrip [of "replicate 64 (replicate 32 5)" 1]
    authority_list_roundtrip [of "replicate (2 ^ 14) (replicate 32 5)" 1] by simp

end
