(* ===== verification/Subchain.thy ===== *)
theory Subchain
  imports Decoder
begin

text \<open>
  The header chain circuit of \<open>circuits/builder/subchain_verification.rs\<close>: the map stage over batches
  of eight headers, the reduce stage, and \<open>verify_subchain\<close>, which runs them with plonky2x's
  map-reduce (a parameter). The headers come from a hint, an arbitrary function \<open>fetch\<close> of what the
  circuit writes to it: the first and last block of the batch and the target block.
\<close>

section \<open>The circuit\<close>

record subchain_ctx =
  global_start_block :: u32
  global_start_header_hash :: bytes32
  global_end_block :: u32

record map_reduce_subchain =
  num_blocks :: felt
  start_block :: u32
  start_header_hash :: bytes32
  start_parent :: bytes32
  end_block :: u32
  end_header_hash :: bytes32
  state_merkle_root :: bytes32
  data_merkle_root :: bytes32

text \<open>The variables the loop over a batch updates.\<close>

record map_state =
  block_nums :: "u32 list"
  block_hashes :: "bytes32 list"
  block_parent_hashes :: "bytes32 list"
  block_state_roots :: "bytes32 list"
  block_data_roots :: "bytes32 list"
  end_block_num :: u32
  last_header_hash :: bytes32        \<comment> \<open>\<open>end_header_hash\<close>\<close>
  num_headers :: felt
  nb_enabled_leaves :: felt
  curr_block_noop :: bool

definition map_init :: "bool \<Rightarrow> map_state" where
  "map_init is_batch_disabled = \<lparr>block_nums = [], block_hashes = [], block_parent_hashes = [],
     block_state_roots = [], block_data_roots = [], end_block_num = 0, last_header_hash = zero_hash,
     num_headers = 0, nb_enabled_leaves = 0, curr_block_noop = is_batch_disabled\<rparr>"

definition map_step ::
    "gadgets \<Rightarrow> u32 \<Rightarrow> encoded_header list \<Rightarrow> nat \<Rightarrow> map_state \<Rightarrow> map_state option" where
  "map_step G global_end headers i st = do {
     let hash = hash_encoded_header G (headers ! i);
     hv \<leftarrow> decode_header G (headers ! i) hash;
     let nums = block_nums st @ [block_number hv];
     let hashes = block_hashes st @ [hash];
     let parents = block_parent_hashes st @ [parent_hash hv];
     let noop = curr_block_noop st;
     (if i > 0 then do {
        let hashes_linked = (parents ! i = hashes ! (i - 1));
        let expected_block_num = u32_add G (nums ! (i - 1)) 1;
        let nums_sequential = (nums ! i = expected_block_num);
        let header_correctly_linked = (hashes_linked \<and> nums_sequential);
        assert_c (noop \<or> header_correctly_linked) }
      else Some ());
     let increment = (if noop then 0 else 1);
     let is_final_block = (block_number hv = global_end);
     Some \<lparr>block_nums = nums, block_hashes = hashes, block_parent_hashes = parents,
           block_state_roots = block_state_roots st @ [state_root hv],
           block_data_roots = block_data_roots st @ [data_root hv],
           end_block_num = (if noop then end_block_num st else block_number hv),
           last_header_hash = (if noop then last_header_hash st else hash),
           num_headers = f_add G (num_headers st) increment,
           nb_enabled_leaves = f_add G (nb_enabled_leaves st) increment,
           curr_block_noop = (noop \<or> is_final_block)\<rparr> }"

definition subchain_map ::
    "gadgets \<Rightarrow> (u32 \<Rightarrow> u32 \<Rightarrow> u32 \<Rightarrow> encoded_header list) \<Rightarrow> subchain_ctx \<Rightarrow> u32 list
      \<Rightarrow> map_reduce_subchain option" where
  "subchain_map G fetch map_ctx map_relative_block_nums = do {
     let batch_start_block = u32_add G (global_start_block map_ctx) (map_relative_block_nums ! 0);
     let batch_end_block =
       u32_add G (global_start_block map_ctx) (map_relative_block_nums ! (HEADERS_PER_MAP - 1));
     let headers = fetch batch_start_block batch_end_block (global_end_block map_ctx);
     let is_batch_disabled = (global_end_block map_ctx < batch_start_block);
     st \<leftarrow> fold_opt (map_step G (global_end_block map_ctx) headers) [0..<HEADERS_PER_MAP]
             (map_init is_batch_disabled);
     assert_c (block_nums st ! 0 = batch_start_block \<or> is_batch_disabled);
     assert_c (end_block_num st = batch_end_block \<or> curr_block_noop st);
     Some \<lparr>num_blocks = num_headers st, start_block = block_nums st ! 0,
           start_header_hash = block_hashes st ! 0, start_parent = block_parent_hashes st ! 0,
           end_block = end_block_num st, end_header_hash = last_header_hash st,
           state_merkle_root = get_root_from_hashed_leaves G (block_state_roots st) (nb_enabled_leaves st),
           data_merkle_root = get_root_from_hashed_leaves G (block_data_roots st) (nb_enabled_leaves st)\<rparr> }"

definition subchain_reduce ::
    "gadgets \<Rightarrow> map_reduce_subchain \<Rightarrow> map_reduce_subchain \<Rightarrow> map_reduce_subchain option" where
  "subchain_reduce G left right = do {
     let hashes_linked = (end_header_hash left = start_parent right);
     let expected_left_end_block_number = u32_sub G (start_block right) 1;
     let are_subchains_sequential = (end_block left = expected_left_end_block_number);
     let are_subchains_linked = (hashes_linked \<and> are_subchains_sequential);
     let is_right_subchain_inactive = (num_blocks right = 0);
     assert_c (is_right_subchain_inactive \<or> are_subchains_linked);
     Some \<lparr>num_blocks = f_add G (num_blocks left) (num_blocks right),
           start_block = start_block left, start_header_hash = start_header_hash left,
           start_parent = start_parent left,
           end_block = (if is_right_subchain_inactive then end_block left else end_block right),
           end_header_hash =
             (if is_right_subchain_inactive then end_header_hash left else end_header_hash right),
           state_merkle_root = sha256 G (state_merkle_root left @ state_merkle_root right),
           data_merkle_root = sha256 G (data_merkle_root left @ data_merkle_root right)\<rparr> }"

text \<open>\<open>f32::log2(n).ceil()\<close>, exact on the sizes in use.\<close>

definition ceil_log2 :: "nat \<Rightarrow> nat" where
  "ceil_log2 n = (if n \<le> 1 then 0 else Suc (log2_floor (n - 1)))"

definition num_map_jobs :: "nat \<Rightarrow> nat" where
  "num_map_jobs max_num_headers =
     (let jobs = max_num_headers div HEADERS_PER_MAP;
          jobs = (if max_num_headers mod HEADERS_PER_MAP \<noteq> 0 then jobs + 1 else jobs)
      in 2 ^ ceil_log2 jobs)"

type_synonym 'o mapreduce =
  "(subchain_ctx \<Rightarrow> u32 list \<Rightarrow> 'o option) \<Rightarrow> ('o \<Rightarrow> 'o \<Rightarrow> 'o option) \<Rightarrow> subchain_ctx \<Rightarrow> u32 list \<Rightarrow> 'o option"

definition verify_subchain ::
    "gadgets \<Rightarrow> map_reduce_subchain mapreduce \<Rightarrow> (u32 \<Rightarrow> u32 \<Rightarrow> u32 \<Rightarrow> encoded_header list)
      \<Rightarrow> nat \<Rightarrow> u32 \<Rightarrow> bytes32 \<Rightarrow> u32 \<Rightarrow> subchain_verification option" where
  "verify_subchain G mapreduce fetch max_num_headers trusted_block trusted_header_hash target_block = do {
     let ctx = \<lparr>global_start_block = trusted_block, global_start_header_hash = trusted_header_hash,
                global_end_block = target_block\<rparr>;
     assert_c (2 \<le> num_map_jobs max_num_headers);
     let relative_block_nums =
       map of_nat [1..<num_map_jobs max_num_headers * HEADERS_PER_MAP + 1];
     out \<leftarrow> mapreduce (subchain_map G fetch) (subchain_reduce G) ctx relative_block_nums;
     assert_c (trusted_header_hash = start_parent out);
     assert_c (target_block = end_block out);
     Some \<lparr>target_header_hash = end_header_hash out, state_root_merkle_root = state_merkle_root out,
           data_root_merkle_root = data_merkle_root out\<rparr> }"

text \<open>Map-reduce runs the map stage on consecutive batches and reduces the results pairwise in a
  perfect binary tree, each run satisfying its constraints.\<close>

fun sequence_opt :: "'a option list \<Rightarrow> 'a list option" where
  "sequence_opt [] = Some []"
| "sequence_opt (x # xs) = do { y \<leftarrow> x; ys \<leftarrow> sequence_opt xs; Some (y # ys) }"

definition tree_mapreduce :: "'o mapreduce" where
  "tree_mapreduce m r ctx xs = do {
     ys \<leftarrow> sequence_opt (map (m ctx) (chunks HEADERS_PER_MAP xs));
     tree_reduce r (log2_floor (length ys)) ys }"

definition mapreduce_gadget :: "'o mapreduce \<Rightarrow> bool" where
  "mapreduce_gadget mr \<longleftrightarrow>
     (\<forall>m r ctx xs k. length xs = HEADERS_PER_MAP * 2 ^ k \<longrightarrow> mr m r ctx xs = tree_mapreduce m r ctx xs)"

lemma mapreduce_gadgetD:
  "mapreduce_gadget mr \<Longrightarrow> length xs = HEADERS_PER_MAP * 2 ^ k \<Longrightarrow> mr m r ctx xs = tree_mapreduce m r ctx xs"
  by (auto simp: mapreduce_gadget_def)

lemma tree_mapreduce_ok: "mapreduce_gadget tree_mapreduce"
  by (simp add: mapreduce_gadget_def)

section \<open>The hint that fetches a batch\<close>

text \<open>\<open>HeaderRangeFetcherHint::hint\<close>, over the fetcher's \<open>get_block_headers_range\<close>, here with the
  headers already encoded.\<close>

definition header_range_fetcher_hint ::
    "(u32 \<Rightarrow> u32 \<Rightarrow> byte list list host) \<Rightarrow> nat \<Rightarrow> nat \<Rightarrow> u32 \<Rightarrow> u32 \<Rightarrow> u32 \<Rightarrow> encoded_header list host" where
  "header_range_fetcher_hint get_block_headers_range header_length n start last_block max_block =
     (let last_block = min last_block max_block
      in bind_h (if start \<le> last_block then get_block_headers_range start last_block else Inr [])
           (\<lambda>headers. bind_h
              (map_h (\<lambda>bytes. bind_h (assert_h (Panic ''header size'') (length bytes \<le> header_length))
                 (\<lambda>_. Inr (pad_header header_length bytes))) headers)
              (\<lambda>header_variables.
                 Inr (header_variables @ replicate (n - length headers) (pad_header header_length [])))))"

section \<open>Chains of headers\<close>

definition decodes :: "gadgets \<Rightarrow> encoded_header \<Rightarrow> bool" where
  "decodes G h \<longleftrightarrow> decode_header G h (hash_encoded_header G h) \<noteq> None"

definition header_of :: "gadgets \<Rightarrow> encoded_header \<Rightarrow> header_variable" where
  "header_of G h = the (decode_header G h (hash_encoded_header G h))"

lemma header_ofI: "decode_header G h (hash_encoded_header G h) = Some v \<Longrightarrow> header_of G h = v"
  by (simp add: header_of_def)

text \<open>Headers numbered consecutively from \<open>b\<close>, each the parent of the next; \<open>p\<close> is the hash of
  the block before the first.\<close>

primrec linked_from :: "gadgets \<Rightarrow> u32 \<Rightarrow> bytes32 \<Rightarrow> encoded_header list \<Rightarrow> bool" where
  "linked_from G b p [] \<longleftrightarrow> True"
| "linked_from G b p (h # hs) \<longleftrightarrow>
     block_number (header_of G h) = b \<and> parent_hash (header_of G h) = p
     \<and> linked_from G (b + 1) (hash_encoded_header G h) hs"

lemma linked_from_append:
  "linked_from G b p (xs @ ys) \<longleftrightarrow> linked_from G b p xs
     \<and> linked_from G (b + of_nat (length xs)) (if xs = [] then p else hash_encoded_header G (last xs)) ys"
  by (induction xs arbitrary: b p) (auto simp: algebra_simps)

lemma linked_from_number:
  "linked_from G b p hs \<Longrightarrow> i < length hs \<Longrightarrow> block_number (header_of G (hs ! i)) = b + of_nat i"
  by (induction hs arbitrary: b p i) (auto simp: nth_Cons algebra_simps split: nat.splits)

lemma linked_from_parent:
  "linked_from G b p hs \<Longrightarrow> Suc i < length hs \<Longrightarrow>
    parent_hash (header_of G (hs ! Suc i)) = hash_encoded_header G (hs ! i)"
proof (induction hs arbitrary: b p i)
  case (Cons h hs)
  then show ?case by (cases i; cases hs) auto
qed simp

section \<open>What a subtree attests\<close>

text \<open>
  Of the \<open>m\<close> blocks numbered from \<open>s + lo + 1\<close> on, those up to the target \<open>e\<close> are active. A subtree
  over the headers \<open>hs\<close> has satisfiable constraints when all of them decode and the active ones are
  linked, and its value is their summary. The roots have the zero hash for the inactive leaves.
\<close>

definition active_count :: "u32 \<Rightarrow> u32 \<Rightarrow> nat \<Rightarrow> nat \<Rightarrow> nat" where
  "active_count s e lo m = min m (unat e - (unat s + lo))"

definition state_roots :: "gadgets \<Rightarrow> encoded_header list \<Rightarrow> bytes32 list" where
  "state_roots G hs = map (\<lambda>h. state_root (header_of G h)) hs"

definition data_roots :: "gadgets \<Rightarrow> encoded_header list \<Rightarrow> bytes32 list" where
  "data_roots G hs = map (\<lambda>h. data_root (header_of G h)) hs"

definition subchain_ok :: "gadgets \<Rightarrow> u32 \<Rightarrow> u32 \<Rightarrow> nat \<Rightarrow> encoded_header list \<Rightarrow> bool" where
  "subchain_ok G s e lo hs \<longleftrightarrow> list_all (decodes G) hs
     \<and> linked_from G (s + of_nat (lo + 1)) (parent_hash (header_of G (hs ! 0)))
         (take (active_count s e lo (length hs)) hs)"

definition subchain_summary ::
    "gadgets \<Rightarrow> u32 \<Rightarrow> u32 \<Rightarrow> nat \<Rightarrow> encoded_header list \<Rightarrow> map_reduce_subchain" where
  "subchain_summary G s e lo hs =
     (let k = active_count s e lo (length hs)
      in \<lparr>num_blocks = k, start_block = block_number (header_of G (hs ! 0)),
          start_header_hash = hash_encoded_header G (hs ! 0),
          start_parent = parent_hash (header_of G (hs ! 0)),
          end_block = (if k = 0 then 0 else s + of_nat (lo + k)),
          end_header_hash = (if k = 0 then zero_hash else hash_encoded_header G (hs ! (k - 1))),
          state_merkle_root = list_root (sha_node G) (enable_leaves k (state_roots G hs)),
          data_merkle_root = list_root (sha_node G) (enable_leaves k (data_roots G hs))\<rparr>)"

section \<open>The map stage\<close>

definition map_state_at :: "gadgets \<Rightarrow> u32 \<Rightarrow> u32 \<Rightarrow> nat \<Rightarrow> encoded_header list \<Rightarrow> nat \<Rightarrow> map_state" where
  "map_state_at G s e lo hs i =
     (let k = active_count s e lo i; ts = take i hs
      in \<lparr>block_nums = map (\<lambda>h. block_number (header_of G h)) ts,
          block_hashes = map (hash_encoded_header G) ts,
          block_parent_hashes = map (\<lambda>h. parent_hash (header_of G h)) ts,
          block_state_roots = state_roots G ts, block_data_roots = data_roots G ts,
          end_block_num = (if k = 0 then 0 else s + of_nat (lo + k)),
          last_header_hash = (if k = 0 then zero_hash else hash_encoded_header G (hs ! (k - 1))),
          num_headers = k, nb_enabled_leaves = k,
          curr_block_noop = (unat e \<le> unat s + lo + i)\<rparr>)"

lemma active_count_Suc:
  "active_count s e lo (Suc i) = (if unat e \<le> unat s + lo + i then active_count s e lo i else Suc i)"
  "\<not> unat e \<le> unat s + lo + i \<Longrightarrow> active_count s e lo i = i"
  by (auto simp: active_count_def)

text \<open>The loop, given that the batch is disabled or starts with the right number.\<close>

definition loop_ok :: "gadgets \<Rightarrow> u32 \<Rightarrow> u32 \<Rightarrow> nat \<Rightarrow> encoded_header list \<Rightarrow> nat \<Rightarrow> bool" where
  "loop_ok G s e lo hs i \<longleftrightarrow> list_all (decodes G) (take i hs)
     \<and> linked_from G (s + of_nat (lo + 1)) (parent_hash (header_of G (hs ! 0)))
         (take (active_count s e lo i) hs)"

lemma loop_ok_Suc:
  assumes "i < length hs"
    and first: "unat e \<le> unat s + lo \<or> block_number (header_of G (hs ! 0)) = s + of_nat (lo + 1)"
  shows "loop_ok G s e lo hs (Suc i) \<longleftrightarrow> loop_ok G s e lo hs i \<and> decodes G (hs ! i)
    \<and> (unat e \<le> unat s + lo + i \<or> i = 0
       \<or> block_number (header_of G (hs ! i)) = s + of_nat (lo + 1 + i)
         \<and> parent_hash (header_of G (hs ! i)) = hash_encoded_header G (hs ! (i - 1)))"
proof -
  have take: "take (Suc i) hs = take i hs @ [hs ! i]" using assms(1) by (rule take_Suc_conv_app_nth)
  have last: "last (take i hs) = hs ! (i - 1)" "take i hs \<noteq> []" if "i \<noteq> 0"
    using that assms(1) by (cases i; auto simp: take_Suc_conv_app_nth)+
  show ?thesis
  proof (cases "unat e \<le> unat s + lo + i")
    case True
    then show ?thesis by (auto simp: loop_ok_def take active_count_Suc(1))
  next
    case False
    show ?thesis
    proof (cases "i = 0")
      case True
      with False first assms(1) show ?thesis
        by (cases hs) (auto simp: loop_ok_def active_count_Suc active_count_def)
    next
      case i: False
      with False last assms(1) show ?thesis
        by (auto simp: loop_ok_def take active_count_Suc linked_from_append algebra_simps)
    qed
  qed
qed

lemma map_step_at:
  assumes ok: "gadgets_ok G" and i: "i < length hs" and small: "unat s + lo + Suc i < 2 ^ 32"
    and first: "unat e \<le> unat s + lo \<or> block_number (header_of G (hs ! 0)) = s + of_nat (lo + 1)"
    and prev: "loop_ok G s e lo hs i"
  shows "map_step G e hs i (map_state_at G s e lo hs i)
    = (if loop_ok G s e lo hs (Suc i) then Some (map_state_at G s e lo hs (Suc i)) else None)"
proof (cases "decodes G (hs ! i)")
  case False
  then show ?thesis
    by (auto simp: map_step_def Let_def decodes_def loop_ok_Suc [OF i first] split: Option.bind_splits)
next
  case True
  note g = gadgets_okD [OF ok]
  let ?h = "hs ! i" and ?noop = "unat e \<le> unat s + lo + i"
  let ?num = "block_number (header_of G ?h)" and ?par = "parent_hash (header_of G ?h)"
  have dec: "decode_header G ?h (hash_encoded_header G ?h) = Some (header_of G ?h)"
    using True by (auto simp: decodes_def header_of_def)
  have take: "take (Suc i) hs = take i hs @ [?h]" using i by (rule take_Suc_conv_app_nth)
  have nths: "(map f (take i hs) @ [x]) ! i = x" for f and x :: 'b
    using i by (simp add: nth_append)
  have nthp: "(map f (take i hs) @ [x]) ! (i - 1) = f (hs ! (i - 1))" if "i \<noteq> 0" for f and x :: 'b
    using i that by (simp add: nth_append)
  have count: "f_add G (active_count s e lo i) (if ?noop then 0 else 1) = active_count s e lo (Suc i)"
  proof -
    have "active_count s e lo i + 1 < field_order G"
      using small field_order_gt [OF g(1)] by (auto simp: active_count_def)
    then show ?thesis by (auto simp: f_add_def active_count_Suc)
  qed
  have prevnum: "block_number (header_of G (hs ! (i - 1))) + 1 = s + of_nat (lo + 1 + i)"
    if "i \<noteq> 0" "\<not> ?noop"
  proof -
    have "linked_from G (s + of_nat (lo + 1)) (parent_hash (header_of G (hs ! 0))) (take i hs)"
      using prev that by (simp add: loop_ok_def active_count_Suc(2))
    then have "block_number (header_of G (take i hs ! (i - 1))) = s + of_nat (lo + 1) + of_nat (i - 1)"
      by (rule linked_from_number) (use that i in simp)
    then show ?thesis using that i by (cases i) (simp_all add: algebra_simps)
  qed
  have link: "(if i > 0 then assert_c (?noop \<or> ?par = hash_encoded_header G (hs ! (i - 1))
        \<and> ?num = u32_add G (block_number (header_of G (hs ! (i - 1)))) 1) else Some ())
      = (if loop_ok G s e lo hs (Suc i) then Some () else None)"
  proof (cases "i = 0 \<or> ?noop")
    case True
    with prev \<open>decodes G ?h\<close> show ?thesis by (auto simp: loop_ok_Suc [OF i first])
  next
    case False
    with prevnum have "block_number (header_of G (hs ! (i - 1))) + 1 = s + of_nat (lo + 1 + i)" by simp
    with False prev True show ?thesis
      by (simp add: loop_ok_Suc [OF i first] assert_c_def u32_gadget_simps [OF g(3)] conj_commute)
  qed
  have final: "(?noop \<or> ?num = e) \<longleftrightarrow> unat e \<le> unat s + lo + Suc i" if "loop_ok G s e lo hs (Suc i)"
  proof (cases ?noop)
    case False
    with that first have "?num = s + of_nat (lo + 1 + i)"
      by (cases "i = 0") (auto simp: loop_ok_Suc [OF i first])
    then have "?num = of_nat (unat s + lo + Suc i)" by (simp add: algebra_simps)
    then have "unat ?num = unat s + lo + Suc i"
      by (simp only:) (rule unat_of_nat_small, use small in simp)
    with False show ?thesis by (auto simp: word_unat_eq_iff)
  qed simp
  have num: "?num = s + of_nat (lo + active_count s e lo (Suc i))"
    if "loop_ok G s e lo hs (Suc i)" "\<not> ?noop"
    using that first by (cases "i = 0") (auto simp: loop_ok_Suc [OF i first] active_count_Suc algebra_simps)
  let ?after = "\<lparr>block_nums = map (\<lambda>h. block_number (header_of G h)) (take (Suc i) hs),
     block_hashes = map (hash_encoded_header G) (take (Suc i) hs),
     block_parent_hashes = map (\<lambda>h. parent_hash (header_of G h)) (take (Suc i) hs),
     block_state_roots = state_roots G (take (Suc i) hs), block_data_roots = data_roots G (take (Suc i) hs),
     end_block_num = (if ?noop then end_block_num (map_state_at G s e lo hs i) else ?num),
     last_header_hash = (if ?noop then last_header_hash (map_state_at G s e lo hs i)
        else hash_encoded_header G ?h),
     num_headers = active_count s e lo (Suc i), nb_enabled_leaves = active_count s e lo (Suc i),
     curr_block_noop = (?noop \<or> ?num = e)\<rparr>"
  have step: "map_step G e hs i (map_state_at G s e lo hs i)
      = (if i > 0 then assert_c (?noop \<or> ?par = hash_encoded_header G (hs ! (i - 1))
           \<and> ?num = u32_add G (block_number (header_of G (hs ! (i - 1)))) 1) else Some ())
        \<bind> (\<lambda>_. Some ?after)"
  proof (cases "i = 0")
    case False
    then show ?thesis
      using count
      by (simp add: map_step_def Let_def dec nths nthp map_state_at_def take state_roots_def data_roots_def
          del: One_nat_def)
  next
    case zero: True
    show ?thesis
      using count dec take unfolding zero
      by (simp add: map_step_def Let_def map_state_at_def state_roots_def data_roots_def)
  qed
  have "?after = map_state_at G s e lo hs (Suc i)" if "loop_ok G s e lo hs (Suc i)"
    using final [OF that] num [OF that]
    by (auto simp: map_state_at_def Let_def active_count_Suc)
  with link show ?thesis unfolding step by simp
qed

lemma map_loop:
  assumes ok: "gadgets_ok G" and small: "unat s + lo + length hs < 2 ^ 32" and i: "i \<le> length hs"
    and first: "unat e \<le> unat s + lo \<or> block_number (header_of G (hs ! 0)) = s + of_nat (lo + 1)"
  shows "fold_opt (map_step G e hs) [0..<i] (map_init (unat e \<le> unat s + lo))
    = (if loop_ok G s e lo hs i then Some (map_state_at G s e lo hs i) else None)"
  using i
proof (induction i)
  case 0
  then show ?case
    by (simp add: loop_ok_def map_init_def map_state_at_def active_count_def state_roots_def data_roots_def)
next
  case (Suc i)
  have "unat s + lo + Suc i < 2 ^ 32" using small Suc.prems by linarith
  moreover have "i < length hs" using Suc.prems by simp
  ultimately show ?case
    using Suc.IH map_step_at [OF ok _ _ first] loop_ok_Suc [OF _ first, of i]
    by (simp add: fold_opt_snoc)
qed

lemma map_loop_nums:
  "fold_opt (map_step G e hs) [0..<i] (map_init d) = Some st \<Longrightarrow>
    block_nums st = map (\<lambda>j. block_number (header_of G (hs ! j))) [0..<i]"
proof (induction i arbitrary: st)
  case (Suc i)
  then obtain st' where prev: "fold_opt (map_step G e hs) [0..<i] (map_init d) = Some st'"
    and "map_step G e hs i st' = Some st"
    by (auto simp: fold_opt_snoc Option.bind_eq_Some_conv)
  with Suc.IH [OF prev] show ?case
    by (auto simp: map_step_def Let_def header_ofI Option.bind_eq_Some_conv)
qed (simp add: map_init_def)

text \<open>Relative block numbers of a batch.\<close>

definition batch_numbers :: "nat \<Rightarrow> nat \<Rightarrow> u32 list" where
  "batch_numbers lo m = map of_nat [lo + 1..<lo + m + 1]"

definition batch_headers ::
    "(u32 \<Rightarrow> u32 \<Rightarrow> u32 \<Rightarrow> encoded_header list) \<Rightarrow> u32 \<Rightarrow> u32 \<Rightarrow> nat \<Rightarrow> encoded_header list" where
  "batch_headers fetch s e lo = fetch (s + of_nat (lo + 1)) (s + of_nat (lo + HEADERS_PER_MAP)) e"

lemma subchain_map_eq:
  assumes ok: "gadgets_ok G" and small: "unat s + lo + 8 < 2 ^ 32"
    and hs: "length (batch_headers fetch s e lo) = 8"
    and ctx: "global_start_block ctx = s" "global_end_block ctx = e"
  shows "subchain_map G fetch ctx (batch_numbers lo 8) =
    (let hs = batch_headers fetch s e lo
     in if subchain_ok G s e lo hs then Some (subchain_summary G s e lo hs) else None)"
proof -
  note g = gadgets_okD [OF ok]
  define hs where "hs = batch_headers fetch s e lo"
  have len: "length hs = 8" using hs by (simp add: hs_def)
  have nums: "batch_numbers lo 8 ! 0 = of_nat (lo + 1)" "batch_numbers lo 8 ! (8 - 1) = of_nat (lo + 8)"
    by (simp_all add: batch_numbers_def nth_upt)
  have fetch: "fetch (s + of_nat (lo + 1)) (s + of_nat (lo + 8)) e = hs"
    by (simp add: hs_def batch_headers_def)
  have start: "unat (s + of_nat (lo + 1)) = unat s + lo + 1"
  proof -
    have "s + of_nat (lo + 1) = of_nat (unat s + lo + 1)" by (simp add: algebra_simps)
    then show ?thesis by (simp only:) (rule unat_of_nat_small, use small in simp)
  qed
  have disabled: "e < s + of_nat (lo + 1) \<longleftrightarrow> unat e \<le> unat s + lo"
    unfolding word_less_nat_alt start by auto
  let ?k = "active_count s e lo 8"
  have ok8: "loop_ok G s e lo hs 8 \<longleftrightarrow> subchain_ok G s e lo hs"
    by (simp add: loop_ok_def subchain_ok_def len)
  have k: "?k \<le> 8" by (simp add: active_count_def)
  have roots: "get_root_from_hashed_leaves G (state_roots G hs) ?k
        = list_root (sha_node G) (enable_leaves ?k (state_roots G hs))"
      "get_root_from_hashed_leaves G (data_roots G hs) ?k
        = list_root (sha_node G) (enable_leaves ?k (data_roots G hs))"
    using merkle_gadgetD [OF g(7), of _ 3] k len by (simp_all add: state_roots_def data_roots_def)
  define first last dis where "first = s + of_nat (lo + 1)" and "last = s + of_nat (lo + 8)"
    and "dis \<longleftrightarrow> unat e \<le> unat s + lo"
  define out where "out st = \<lparr>num_blocks = num_headers st, start_block = block_nums st ! 0,
     start_header_hash = block_hashes st ! 0, start_parent = block_parent_hashes st ! 0,
     end_block = end_block_num st, end_header_hash = last_header_hash st,
     state_merkle_root = get_root_from_hashed_leaves G (block_state_roots st) (nb_enabled_leaves st),
     data_merkle_root = get_root_from_hashed_leaves G (block_data_roots st) (nb_enabled_leaves st)\<rparr>"
    for st :: map_state
  have unf: "subchain_map G fetch ctx (batch_numbers lo 8)
      = fold_opt (map_step G e hs) [0..<8] (map_init dis) \<bind> (\<lambda>st.
          assert_c (block_nums st ! 0 = first \<or> dis) \<bind> (\<lambda>_.
          assert_c (end_block_num st = last \<or> curr_block_noop st) \<bind> (\<lambda>_. Some (out st))))"
    unfolding subchain_map_def Let_def u32_gadget_simps [OF g(3)] ctx nums first_def last_def dis_def out_def
      HEADERS_PER_MAP_def fetch disabled [symmetric]
    by (simp only: nums fetch)
  show ?thesis
  proof (cases "dis \<or> block_number (header_of G (hs ! 0)) = first")
    case True
    have small8: "unat s + lo + length hs < 2 ^ 32" using small len by simp
    have loop: "fold_opt (map_step G e hs) [0..<8] (map_init dis)
        = (if subchain_ok G s e lo hs then Some (map_state_at G s e lo hs 8) else None)"
      using map_loop [OF ok small8, of 8 e] True len by (simp add: first_def dis_def ok8)
    have "end_block_num (map_state_at G s e lo hs 8) = last \<or> curr_block_noop (map_state_at G s e lo hs 8)"
      by (auto simp: map_state_at_def Let_def active_count_def last_def min_def)
    moreover have "block_nums (map_state_at G s e lo hs 8) ! 0 = first \<or> dis"
      using True len by (auto simp: map_state_at_def Let_def)
    moreover have "out (map_state_at G s e lo hs 8) = subchain_summary G s e lo hs"
      using roots len by (simp add: out_def map_state_at_def subchain_summary_def Let_def)
    ultimately show ?thesis
      unfolding unf loop Let_def hs_def [symmetric] by simp
  next
    case False
    then have "0 < ?k" by (simp add: active_count_def dis_def)
    then obtain k where "?k = Suc k" by (cases ?k) simp_all
    moreover obtain h t where "hs = h # t" using len by (cases hs) simp_all
    ultimately have "\<not> subchain_ok G s e lo hs"
      using False len by (simp add: subchain_ok_def first_def)
    moreover have "block_nums st ! 0 = block_number (header_of G (hs ! 0))"
      if "fold_opt (map_step G e hs) [0..<8] (map_init dis) = Some st" for st
      using map_loop_nums [OF that] by (simp add: nth_upt)
    ultimately show ?thesis
      using False unfolding unf Let_def hs_def [symmetric]
      by (cases "fold_opt (map_step G e hs) [0..<8] (map_init dis)") auto
  qed
qed

section \<open>The reduce stage\<close>

lemma active_count_add:
  "active_count s e lo (m + n) = active_count s e lo m + active_count s e (lo + m) n"
  "active_count s e lo m = m \<or> active_count s e (lo + m) n = 0"
  by (auto simp: active_count_def)

lemma active_count_le: "active_count s e lo m \<le> m"
  by (simp add: active_count_def)

lemma take_active_append:
  "take (active_count s e lo (length xs + length ys)) (xs @ ys)
    = take (active_count s e lo (length xs)) xs @ take (active_count s e (lo + length xs) (length ys)) ys"
  using active_count_add(2) [of s e lo "length xs" "length ys"] active_count_le [of s e lo "length xs"]
  by (auto simp: active_count_add(1))

lemma subchain_ok_append:
  assumes "xs \<noteq> []" "ys \<noteq> []"
  shows "subchain_ok G s e lo (xs @ ys) \<longleftrightarrow>
    subchain_ok G s e lo xs \<and> subchain_ok G s e (lo + length xs) ys
    \<and> (active_count s e (lo + length xs) (length ys) = 0
       \<or> parent_hash (header_of G (ys ! 0)) = hash_encoded_header G (last xs)
         \<and> block_number (header_of G (ys ! 0)) = s + of_nat (lo + length xs + 1))"
proof -
  let ?kx = "active_count s e lo (length xs)" and ?ky = "active_count s e (lo + length xs) (length ys)"
  obtain x xt y yt where xy: "xs = x # xt" "ys = y # yt" using assms by (cases xs; cases ys) auto
  show ?thesis
  proof (cases "?ky = 0")
    case True
    have "take (active_count s e lo (length (xs @ ys))) (xs @ ys) = take ?kx xs"
      unfolding length_append take_active_append using True by simp
    then show ?thesis using True xy by (simp add: subchain_ok_def) blast
  next
    case False
    then have kx: "?kx = length xs" using active_count_add(2) [of s e lo "length xs" "length ys"] by auto
    obtain k where k: "?ky = Suc k" using False by (cases ?ky) auto
    have "take (active_count s e lo (length (xs @ ys))) (xs @ ys) = xs @ y # take k yt"
      unfolding length_append take_active_append kx k by (simp add: xy(2))
    moreover have "(s + of_nat (lo + 1)) + of_nat (length xs) = s + of_nat (lo + length xs + 1)"
      by (simp add: algebra_simps)
    moreover have "take ?ky ys = y # take k yt" by (simp only: k) (simp add: xy(2))
    moreover have "take ?kx xs = xs" by (simp add: kx)
    moreover have "(xs @ ys) ! 0 = x" "xs ! 0 = x" "ys ! 0 = y" by (simp_all add: xy)
    ultimately show ?thesis using assms(1) False
      unfolding subchain_ok_def by (auto simp: linked_from_append simp del: of_nat_add)
  qed
qed

lemma enable_leaves_append:
  "k \<le> length xs \<Longrightarrow> k = length xs \<or> l = 0 \<Longrightarrow>
    enable_leaves (k + l) (xs @ ys) = enable_leaves k xs @ enable_leaves l ys"
  by (auto simp: enable_leaves_def simp flip: replicate_add)

lemma length_enable_leaves [simp]: "length (enable_leaves k xs) = length xs"
  by (simp add: enable_leaves_def)

lemma root_append:
  assumes "length xs = 2 ^ j" "length ys = 2 ^ j"
    and "length zs = length xs" "length ws = length ys"
  shows "list_root (sha_node G) (enable_leaves (active_count s e lo (length xs + length ys)) (zs @ ws))
    = sha256 G (list_root (sha_node G) (enable_leaves (active_count s e lo (length xs)) zs)
        @ list_root (sha_node G) (enable_leaves (active_count s e (lo + length xs) (length ys)) ws))"
proof -
  have "enable_leaves (active_count s e lo (length xs + length ys)) (zs @ ws)
      = enable_leaves (active_count s e lo (length xs)) zs
        @ enable_leaves (active_count s e (lo + length xs) (length ys)) ws"
    unfolding active_count_add(1)
    by (rule enable_leaves_append) (use assms(3) active_count_le active_count_add(2) in metis)+
  then show ?thesis
    using ref_root.root_node [of _ j _ "sha_node G"] assms by (simp add: sha_node_def)
qed

lemma subchain_reduce_eq:
  assumes ok: "gadgets_ok G" and len: "length xs = 2 ^ j" "length ys = 2 ^ j"
    and small: "unat s + lo + 2 * length xs < 2 ^ 32"
    and oks: "subchain_ok G s e lo xs" "subchain_ok G s e (lo + length xs) ys"
  shows "subchain_reduce G (subchain_summary G s e lo xs) (subchain_summary G s e (lo + length xs) ys)
    = (if subchain_ok G s e lo (xs @ ys) then Some (subchain_summary G s e lo (xs @ ys)) else None)"
proof -
  note g = gadgets_okD [OF ok]
  let ?kx = "active_count s e lo (length xs)" and ?ky = "active_count s e (lo + length xs) (length ys)"
  have ne: "xs \<noteq> []" "ys \<noteq> []" using len by auto
  have total: "f_add G ?kx ?ky = ?kx + ?ky"
    using small len field_order_gt [OF g(1)] active_count_le [of s e lo "length xs"]
      active_count_le [of s e "lo + length xs" "length ys"]
    by (simp add: f_add_def)
  have both: "?ky \<noteq> 0 \<Longrightarrow> ?kx = length xs"
    using active_count_add(2) [of s e lo "length xs" "length ys"] by auto
  have roots: "list_root (sha_node G) (enable_leaves (?kx + ?ky) (state_roots G (xs @ ys)))
      = sha256 G (list_root (sha_node G) (enable_leaves ?kx (state_roots G xs))
          @ list_root (sha_node G) (enable_leaves ?ky (state_roots G ys)))"
    "list_root (sha_node G) (enable_leaves (?kx + ?ky) (data_roots G (xs @ ys)))
      = sha256 G (list_root (sha_node G) (enable_leaves ?kx (data_roots G xs))
          @ list_root (sha_node G) (enable_leaves ?ky (data_roots G ys)))"
    unfolding active_count_add(1) [symmetric]
    using root_append [OF len] by (simp_all add: state_roots_def data_roots_def)
  have link: "(?ky = 0 \<or> hash_encoded_header G (xs ! (?kx - 1)) = parent_hash (header_of G (ys ! 0))
        \<and> s + of_nat (lo + ?kx) = block_number (header_of G (ys ! 0)) - 1)
      \<longleftrightarrow> subchain_ok G s e lo (xs @ ys)"
    unfolding subchain_ok_append [OF ne] using oks both ne
    by (auto simp: last_conv_nth algebra_simps)
  have nths: "(xs @ ys) ! 0 = xs ! 0" "(xs @ ys) ! (?kx + ?ky - 1) = (if ?ky = 0 then xs ! (?kx - 1) else ys ! (?ky - 1))"
    if "0 < ?kx"
    using ne both active_count_le [of s e lo "length xs"] that by (auto simp: nth_append)
  have zero: "?kx = 0 \<Longrightarrow> ?ky = 0" using both ne by auto
  have first: "(xs @ ys) ! 0 = xs ! 0" using ne by (cases xs) auto
  have active: "active_count s e lo (length (xs @ ys)) = ?kx + ?ky"
    by (simp add: active_count_add(1))
  have "of_nat (lo + (?kx + ?ky)) = (of_nat (lo + length xs + ?ky) :: u32)" if "?ky \<noteq> 0"
    using both [OF that] by (simp add: algebra_simps)
  then show ?thesis
    using link total roots nths(2) zero both first ne
    unfolding subchain_reduce_def subchain_summary_def Let_def active
    by (auto simp: u32_gadget_simps [OF g(3)] assert_c_def simp del: of_nat_add)
qed

section \<open>The whole tree\<close>

lemma sequence_opt_append:
  "sequence_opt (xs @ ys) = do { a \<leftarrow> sequence_opt xs; b \<leftarrow> sequence_opt ys; Some (a @ b) }"
  by (induction xs) (auto split: Option.bind_splits)

lemma sequence_opt_length: "sequence_opt xs = Some ys \<Longrightarrow> length ys = length xs"
  by (induction xs arbitrary: ys) (auto simp: Option.bind_eq_Some_conv)

lemma tree_reduce_append:
  assumes "length xs = 2 ^ j" "length ys = 2 ^ j"
  shows "sequence_opt (xs @ ys) \<bind> tree_reduce f (Suc j) =
    do { l \<leftarrow> sequence_opt xs \<bind> tree_reduce f j; r \<leftarrow> sequence_opt ys \<bind> tree_reduce f j; f l r }"
proof (cases "sequence_opt xs")
  case (Some a)
  note a = this
  show ?thesis
  proof (cases "sequence_opt ys")
    case (Some b)
    with a show ?thesis
      using assms sequence_opt_length [OF a] sequence_opt_length [OF Some] by (simp add: sequence_opt_append)
  next
    case None
    then show ?thesis by (cases "tree_reduce f j a") (simp_all add: a sequence_opt_append)
  qed
qed (simp add: sequence_opt_append)

text \<open>The headers of \<open>n\<close> consecutive batches.\<close>

definition range_headers ::
    "(u32 \<Rightarrow> u32 \<Rightarrow> u32 \<Rightarrow> encoded_header list) \<Rightarrow> u32 \<Rightarrow> u32 \<Rightarrow> nat \<Rightarrow> nat \<Rightarrow> encoded_header list" where
  "range_headers fetch s e lo n = concat (map (\<lambda>i. batch_headers fetch s e (lo + 8 * i)) [0..<n])"

lemma range_headers_add:
  "range_headers fetch s e lo (m + n)
    = range_headers fetch s e lo m @ range_headers fetch s e (lo + 8 * m) n"
  unfolding range_headers_def upt_split by (simp add: comp_def algebra_simps)

lemma length_range_headers:
  "\<forall>i<n. length (batch_headers fetch s e (lo + 8 * i)) = 8 \<Longrightarrow> length (range_headers fetch s e lo n) = 8 * n"
  by (induction n) (simp_all add: range_headers_def)

lemma subchain_tree:
  assumes ok: "gadgets_ok G" and ctx: "global_start_block ctx = s" "global_end_block ctx = e"
  shows "unat s + lo + 8 * 2 ^ j < 2 ^ 32 \<Longrightarrow>
    \<forall>i<2 ^ j. length (batch_headers fetch s e (lo + 8 * i)) = 8 \<Longrightarrow>
    sequence_opt (map (\<lambda>i. subchain_map G fetch ctx (batch_numbers (lo + 8 * i) 8)) [0..<2 ^ j])
        \<bind> tree_reduce (subchain_reduce G) j
      = (let hs = range_headers fetch s e lo (2 ^ j)
         in if subchain_ok G s e lo hs then Some (subchain_summary G s e lo hs) else None)"
proof (induction j arbitrary: lo)
  case 0
  then show ?case
    using subchain_map_eq [OF ok _ _ ctx, of lo fetch] by (simp add: range_headers_def Let_def)
next
  case (Suc j)
  let ?f = "\<lambda>lo i. subchain_map G fetch ctx (batch_numbers (lo + 8 * i) 8)"
  let ?xs = "range_headers fetch s e lo (2 ^ j)" and ?ys = "range_headers fetch s e (lo + 8 * 2 ^ j) (2 ^ j)"
  have split: "[0..<2 ^ Suc j] = [0..<2 ^ j] @ map (\<lambda>i. 2 ^ j + i) [0..<2 ^ j]"
    using upt_split [of "2 ^ j" "2 ^ j"] by (simp add: mult_2)
  have maps: "map (?f lo) [0..<2 ^ Suc j] = map (?f lo) [0..<2 ^ j] @ map (?f (lo + 8 * 2 ^ j)) [0..<2 ^ j]"
    unfolding split by (simp add: algebra_simps)
  have batches: "\<forall>i<2 ^ j. length (batch_headers fetch s e (lo + 8 * i)) = 8"
    using Suc.prems(2) by simp
  have batches2: "\<forall>i<2 ^ j. length (batch_headers fetch s e (lo + 8 * 2 ^ j + 8 * i)) = 8"
  proof (intro allI impI)
    fix i :: nat
    assume "i < 2 ^ j"
    then show "length (batch_headers fetch s e (lo + 8 * 2 ^ j + 8 * i)) = 8"
      using Suc.prems(2) [rule_format, of "2 ^ j + i"] by (simp add: algebra_simps)
  qed
  have small: "unat s + lo + 8 * 2 ^ j < 2 ^ 32" "unat s + (lo + 8 * 2 ^ j) + 8 * 2 ^ j < 2 ^ 32"
    using Suc.prems(1) by simp_all
  note IH = Suc.IH [OF small(1) batches, unfolded Let_def] Suc.IH [OF small(2) batches2, unfolded Let_def]
  have len: "length ?xs = 8 * 2 ^ j" "length ?ys = 8 * 2 ^ j"
    using length_range_headers batches batches2 by blast+
  have pow: "8 * 2 ^ j = (2 :: nat) ^ (j + 3)" by (simp add: power_add)
  have all: "range_headers fetch s e lo (2 ^ Suc j) = ?xs @ ?ys"
    using range_headers_add [of fetch s e lo "2 ^ j" "2 ^ j"] by (simp add: mult_2)
  have "?xs \<noteq> []" "?ys \<noteq> []" using len by auto
  note append = subchain_ok_append [OF this, of G s e lo, unfolded len]
  have red: "sequence_opt (map (?f lo) [0..<2 ^ Suc j]) \<bind> tree_reduce (subchain_reduce G) (Suc j)
    = do { l \<leftarrow> if subchain_ok G s e lo ?xs then Some (subchain_summary G s e lo ?xs) else None;
           r \<leftarrow> if subchain_ok G s e (lo + 8 * 2 ^ j) ?ys
              then Some (subchain_summary G s e (lo + 8 * 2 ^ j) ?ys) else None;
           subchain_reduce G l r }"
    unfolding maps IH [symmetric] by (rule tree_reduce_append) simp_all
  have node: "subchain_reduce G (subchain_summary G s e lo ?xs) (subchain_summary G s e (lo + 8 * 2 ^ j) ?ys)
    = (if subchain_ok G s e lo (?xs @ ?ys) then Some (subchain_summary G s e lo (?xs @ ?ys)) else None)"
    if "subchain_ok G s e lo ?xs" "subchain_ok G s e (lo + 8 * 2 ^ j) ?ys"
    using subchain_reduce_eq [OF ok, of ?xs "j + 3" ?ys s lo e] that small(2) len(2) unfolding len(1) pow by simp
  show ?case
    unfolding red all Let_def
    by (cases "subchain_ok G s e lo ?xs"; cases "subchain_ok G s e (lo + 8 * 2 ^ j) ?ys")
      (simp_all only: if_True if_False bind.bind_lunit bind.bind_lzero node append simp_thms)
qed

text \<open>The relative block numbers, cut into batches.\<close>

lemma chunks_relative_numbers:
  "chunks 8 (map of_nat [1..<n * 8 + 1] :: u32 list) = map (\<lambda>i. batch_numbers (8 * i) 8) [0..<n]"
proof -
  have "map of_nat [1..<n * 8 + 1] = (concat (map (\<lambda>i. batch_numbers (8 * i) 8) [0..<n]) :: u32 list)"
  proof (induction n)
    case (Suc n)
    have "[1..<Suc n * 8 + 1] = [1..<n * 8 + 1] @ [n * 8 + 1..<n * 8 + 8 + 1]"
      using upt_add_eq_append [of 1 "n * 8 + 1" 8] by (simp add: algebra_simps)
    with Suc show ?case by (simp add: batch_numbers_def mult.commute)
  qed simp
  moreover have "chunks 8 (concat (map (\<lambda>i. batch_numbers (8 * i) 8) [0..<n]))
      = map (\<lambda>i. batch_numbers (8 * i) 8) [0..<n]"
    by (rule chunks_concat) (auto simp: batch_numbers_def)
  ultimately show ?thesis by (simp only:)
qed

text \<open>\<open>verify_subchain\<close> as a condition on the headers the hint returned.\<close>

definition fetched_ok :: "(u32 \<Rightarrow> u32 \<Rightarrow> u32 \<Rightarrow> encoded_header list) \<Rightarrow> u32 \<Rightarrow> u32 \<Rightarrow> nat \<Rightarrow> bool" where
  "fetched_ok fetch s e n \<longleftrightarrow> list_all (\<lambda>i. length (batch_headers fetch s e (8 * i)) = HEADERS_PER_MAP) [0..<n]"

lemma num_map_jobs_power: "\<exists>k. num_map_jobs N = 2 ^ k"
  unfolding num_map_jobs_def Let_def by blast

lemma verify_subchain_eq:
  assumes ok: "gadgets_ok G" and mr: "mapreduce_gadget mapreduce"
    and jobs: "2 \<le> num_map_jobs N" and small: "unat trusted + 8 * num_map_jobs N < 2 ^ 32"
    and fetched: "fetched_ok fetch trusted target (num_map_jobs N)"
  shows "verify_subchain G mapreduce fetch N trusted trusted_hash target =
    (let hs = range_headers fetch trusted target 0 (num_map_jobs N);
         out = subchain_summary G trusted target 0 hs
     in if subchain_ok G trusted target 0 hs \<and> trusted_hash = start_parent out \<and> target = end_block out
        then Some \<lparr>target_header_hash = end_header_hash out, state_root_merkle_root = state_merkle_root out,
                   data_root_merkle_root = data_merkle_root out\<rparr> else None)"
proof -
  obtain k where k: "num_map_jobs N = 2 ^ k" using num_map_jobs_power by blast
  let ?ctx = "\<lparr>global_start_block = trusted, global_start_header_hash = trusted_hash, global_end_block = target\<rparr>"
  let ?hs = "range_headers fetch trusted target 0 (2 ^ k)"
  let ?maps = "map (\<lambda>i. subchain_map G fetch ?ctx (batch_numbers (8 * i) 8)) [0..<2 ^ k]"
  have "mapreduce (subchain_map G fetch) (subchain_reduce G) ?ctx (map of_nat [1..<2 ^ k * 8 + 1])
      = sequence_opt ?maps \<bind> (\<lambda>ys. tree_reduce (subchain_reduce G) (log2_floor (length ys)) ys)"
    by (simp only: mapreduce_gadgetD [OF mr, of _ k] tree_mapreduce_def chunks_relative_numbers
        HEADERS_PER_MAP_def map_map comp_def length_map length_upt mult.commute [of 8] add_diff_cancel_right')
  also have "\<dots> = sequence_opt ?maps \<bind> tree_reduce (subchain_reduce G) k"
    by (cases "sequence_opt ?maps") (auto dest: sequence_opt_length)
  also have "\<dots> = (if subchain_ok G trusted target 0 ?hs
      then Some (subchain_summary G trusted target 0 ?hs) else None)"
    using subchain_tree [OF ok, of ?ctx trusted target 0 k fetch] small fetched
    by (simp add: k Let_def fetched_ok_def list_all_iff)
  finally have run: "mapreduce (subchain_map G fetch) (subchain_reduce G) ?ctx (map of_nat [1..<2 ^ k * 8 + 1])
      = (if subchain_ok G trusted target 0 ?hs then Some (subchain_summary G trusted target 0 ?hs) else None)" .
  have "2 \<le> (2 :: nat) ^ k" using jobs unfolding k .
  then show ?thesis
    unfolding verify_subchain_def Let_def k HEADERS_PER_MAP_def run
    by (auto simp: assert_c_def)
qed

section \<open>An honest hint\<close>

text \<open>A header of the source chain, apart from its number.\<close>

record chain_header =
  ch_parent :: bytes32
  ch_state_root :: bytes32
  ch_middle :: "byte list"
  ch_data_root :: bytes32

definition encode_chain_header :: "nat \<Rightarrow> chain_header \<Rightarrow> byte list" where
  "encode_chain_header i h =
     avail_header_bytes (ch_parent h) (of_nat i) (ch_state_root h) (ch_middle h) (ch_data_root h)"

text \<open>Blocks \<open>a\<close> to \<open>b\<close> of a chain whose encoded headers fit the circuit.\<close>

definition avail_chain :: "gadgets \<Rightarrow> nat \<Rightarrow> (nat \<Rightarrow> chain_header) \<Rightarrow> nat \<Rightarrow> nat \<Rightarrow> bool" where
  "avail_chain G S blk a b \<longleftrightarrow> (\<forall>i. a \<le> i \<and> i \<le> b \<longrightarrow>
     length (ch_parent (blk i)) = 32 \<and> length (ch_state_root (blk i)) = 32
     \<and> length (ch_data_root (blk i)) = 32 \<and> length (encode_chain_header i (blk i)) \<le> S
     \<and> (a < i \<longrightarrow> ch_parent (blk i) = blake2b G (encode_chain_header (i - 1) (blk (i - 1)))))"

text \<open>The fetcher answers with the encoded headers of the range it is asked for.\<close>

definition chain_range :: "(nat \<Rightarrow> chain_header) \<Rightarrow> u32 \<Rightarrow> u32 \<Rightarrow> byte list list host" where
  "chain_range blk a b = Inr (map (\<lambda>i. encode_chain_header i (blk i)) [unat a..<unat b + 1])"

text \<open>What the circuit reads from the hint.\<close>

definition hint_output ::
    "(u32 \<Rightarrow> u32 \<Rightarrow> byte list list host) \<Rightarrow> nat \<Rightarrow> u32 \<Rightarrow> u32 \<Rightarrow> u32 \<Rightarrow> encoded_header list" where
  "hint_output rpc S a b e =
     (case header_range_fetcher_hint rpc S HEADERS_PER_MAP a b e of Inl err \<Rightarrow> [] | Inr hs \<Rightarrow> hs)"

definition hinted_header :: "nat \<Rightarrow> (nat \<Rightarrow> chain_header) \<Rightarrow> nat \<Rightarrow> nat \<Rightarrow> encoded_header" where
  "hinted_header S blk e i = pad_header S (if i \<le> e then encode_chain_header i (blk i) else [])"

lemma hint_batch:
  assumes chain: "avail_chain G S blk (unat s + 1) (unat e)" and small: "unat s + lo + 8 < 2 ^ 32"
  shows "batch_headers (hint_output (chain_range blk) S) s e lo
    = map (hinted_header S blk (unat e)) [unat s + lo + 1..<unat s + lo + 9]"
proof -
  let ?a = "s + of_nat (lo + 1)" and ?b = "s + of_nat (lo + 8)"
  have eqs: "?a = of_nat (unat s + lo + 1)" "?b = of_nat (unat s + lo + 8)" by (simp_all add: algebra_simps)
  have a: "unat ?a = unat s + lo + 1" unfolding eqs by (rule unat_of_nat_small) (use small in simp)
  have b: "unat ?b = unat s + lo + 8" unfolding eqs by (rule unat_of_nat_small) (use small in simp)
  let ?m = "min (unat s + lo + 8) (unat e)"
  have m: "unat (min ?b e) = ?m" using b by (auto simp: min_def word_le_nat_alt)
  have fits: "length (encode_chain_header i (blk i)) \<le> S" if "i \<in> set [unat ?a..<?m + 1]" for i
  proof -
    have "unat s + 1 \<le> i \<and> i \<le> unat e" using that unfolding set_upt a by auto
    with chain show ?thesis by (simp only: avail_chain_def)
  qed
  have pads: "map_h (\<lambda>bytes. bind_h (assert_h (Panic ''header size'') (length bytes \<le> S))
      (\<lambda>_. Inr (pad_header S bytes))) (map (\<lambda>i. encode_chain_header i (blk i)) [unat ?a..<?m + 1])
    = Inr (map (hinted_header S blk (unat e)) [unat ?a..<?m + 1])"
  proof -
    have "map_h (\<lambda>bytes. bind_h (assert_h (Panic ''header size'') (length bytes \<le> S))
        (\<lambda>_. Inr (pad_header S bytes))) (map (\<lambda>i. encode_chain_header i (blk i)) [unat ?a..<?m + 1])
      = Inr (map (pad_header S) (map (\<lambda>i. encode_chain_header i (blk i)) [unat ?a..<?m + 1]))"
      by (rule map_h_Inr) (use fits in auto)
    then show ?thesis by (auto simp: hinted_header_def)
  qed
  have rest: "map (hinted_header S blk (unat e)) [max (unat ?a) (?m + 1)..<unat s + lo + 9]
      = replicate (8 - (?m + 1 - unat ?a)) (pad_header S [])"
    unfolding a by (rule nth_equalityI) (auto simp: hinted_header_def)
  have "[unat s + lo + 1..<unat s + lo + 9] = [unat ?a..<?m + 1] @ [max (unat ?a) (?m + 1)..<unat s + lo + 9]"
    unfolding a
    using upt_add_eq_append [of "unat s + lo + 1" "?m + 1" "unat s + lo + 9 - (?m + 1)"]
    by (cases "unat s + lo + 1 \<le> ?m + 1") (simp_all add: max_absorb2 max_absorb1 add.commute [of _ 9] del: upt_Suc)
  then have "map (hinted_header S blk (unat e)) [unat s + lo + 1..<unat s + lo + 9]
      = map (hinted_header S blk (unat e)) [unat ?a..<?m + 1] @ replicate (8 - (?m + 1 - unat ?a)) (pad_header S [])"
    by (simp only: map_append rest)
  moreover have "?a \<le> min ?b e \<longleftrightarrow> unat ?a \<le> ?m" by (simp only: word_le_nat_alt m)
  ultimately show ?thesis
    unfolding batch_headers_def hint_output_def header_range_fetcher_hint_def Let_def chain_range_def
      HEADERS_PER_MAP_def m
    by (cases "unat ?a \<le> ?m") (simp_all only: if_True if_False bind_h_simps pads, auto)
qed
lemma hinted_range:
  assumes chain: "avail_chain G S blk (unat s + 1) (unat e)" and small: "unat s + 8 * n < 2 ^ 32"
  shows "range_headers (hint_output (chain_range blk) S) s e 0 n
    = map (hinted_header S blk (unat e)) [unat s + 1..<unat s + 1 + 8 * n]"
  using small
proof (induction n)
  case (Suc n)
  have "[unat s + 1..<unat s + 1 + 8 * Suc n]
      = [unat s + 1..<unat s + 1 + 8 * n] @ [unat s + 8 * n + 1..<unat s + 8 * n + 9]"
    using upt_add_eq_append [of "unat s + 1" "unat s + 1 + 8 * n" 8] by (simp add: add.commute)
  moreover have "range_headers (hint_output (chain_range blk) S) s e 0 (Suc n)
      = range_headers (hint_output (chain_range blk) S) s e 0 n
        @ batch_headers (hint_output (chain_range blk) S) s e (8 * n)"
    by (simp add: range_headers_def)
  ultimately show ?case
    using Suc hint_batch [OF chain, of "8 * n"] by simp
qed (simp add: range_headers_def)

lemma hinted_header_decodes:
  assumes ok: "gadgets_ok G" and S: "69 \<le> S" "S < 2 ^ 32"
    and chain: "avail_chain G S blk a e" and i: "a \<le> i"
  shows "decodes G (hinted_header S blk e i)"
    and "i \<le> e \<Longrightarrow> header_of G (hinted_header S blk e i)
      = \<lparr>block_number = of_nat i, parent_hash = ch_parent (blk i), state_root = ch_state_root (blk i),
         data_root = ch_data_root (blk i)\<rparr>"
    and "i \<le> e \<Longrightarrow> hash_encoded_header G (hinted_header S blk e i) = blake2b G (encode_chain_header i (blk i))"
proof -
  note g = gadgets_okD [OF ok]
  have size: "unat (of_nat (length bs) :: u32) = length bs" if "length bs \<le> S" for bs :: "byte list"
    by (rule unat_of_nat_small) (use that S in simp)
  have field: "decode_header G (hinted_header S blk e i) seed = Some
      \<lparr>block_number = of_nat i, parent_hash = ch_parent (blk i), state_root = ch_state_root (blk i),
       data_root = ch_data_root (blk i)\<rparr>" if "i \<le> e" for seed
    by (rule decode_header_fields [OF g(1-4)])
      (use chain i that size in \<open>auto simp: avail_chain_def hinted_header_def pad_header_def encode_chain_header_def\<close>)
  show "decodes G (hinted_header S blk e i)"
    using field decode_header_empty [OF g(1-4) S(1)]
    by (cases "i \<le> e") (simp_all add: decodes_def hinted_header_def)
  show "header_of G (hinted_header S blk e i)
      = \<lparr>block_number = of_nat i, parent_hash = ch_parent (blk i), state_root = ch_state_root (blk i),
         data_root = ch_data_root (blk i)\<rparr>" if "i \<le> e"
    using field [OF that] by (simp add: header_of_def)
  show "hash_encoded_header G (hinted_header S blk e i) = blake2b G (encode_chain_header i (blk i))" if "i \<le> e"
    using chain i that size
    by (simp add: avail_chain_def hinted_header_def pad_header_def hash_encoded_header_def
        hash_gadget_simps [OF g(5)])
qed

lemma hinted_chain_linked:
  assumes ok: "gadgets_ok G" and S: "69 \<le> S" "S < 2 ^ 32" and chain: "avail_chain G S blk a e"
  shows "a + n \<le> e + 1 \<Longrightarrow>
    linked_from G (of_nat a) (ch_parent (blk a)) (map (hinted_header S blk e) [a..<a + n])"
proof (induction n)
  case (Suc n)
  note hdr = hinted_header_decodes [OF ok S chain]
  have "ch_parent (blk (a + n)) = hash_encoded_header G (hinted_header S blk e (a + n - 1))" if "0 < n"
    using that Suc.prems chain hdr(3) [of "a + n - 1"] by (simp add: avail_chain_def)
  moreover have "last (map (hinted_header S blk e) [a..<a + n]) = hinted_header S blk e (a + n - 1)" if "0 < n"
    using that by (simp add: last_map)
  ultimately show ?case
    using Suc hdr(2) [of "a + n"] by (cases n) (simp_all add: linked_from_append)
qed simp

lemma verify_subchain_Some_iff:
  assumes "gadgets_ok G" and "mapreduce_gadget mapreduce" and "2 \<le> num_map_jobs N"
    and "unat trusted + 8 * num_map_jobs N < 2 ^ 32"
    and "fetched_ok fetch trusted target (num_map_jobs N)" and "trusted < target"
  shows "verify_subchain G mapreduce fetch N trusted trusted_hash target = Some out \<longleftrightarrow>
    (let hs = range_headers fetch trusted target 0 (num_map_jobs N);
         k = unat target - unat trusted
     in k \<le> HEADERS_PER_MAP * num_map_jobs N \<and> list_all (decodes G) hs
        \<and> linked_from G (trusted + 1) trusted_hash (take k hs)
        \<and> out = \<lparr>target_header_hash = hash_encoded_header G (hs ! (k - 1)),
            state_root_merkle_root = list_root (sha_node G) (enable_leaves k (state_roots G hs)),
            data_root_merkle_root = list_root (sha_node G) (enable_leaves k (data_roots G hs))\<rparr>)"
proof -
  let ?n = "8 * num_map_jobs N" and ?d = "unat target - unat trusted"
  define hs where "hs = range_headers fetch trusted target 0 (num_map_jobs N)"
  define k where "k = active_count trusted target 0 ?n"
  have len: "length hs = ?n"
    using length_range_headers [of "num_map_jobs N" fetch trusted target 0] assms(5)
    by (simp add: hs_def fetched_ok_def list_all_iff)
  have d: "0 < ?d" "k = min ?n ?d" using assms(6) by (simp_all add: word_less_nat_alt k_def active_count_def)
  have kpos: "0 < k" using d assms(3) by simp
  have tgt: "target = trusted + of_nat ?d"
    using assms(6) by (simp add: word_less_nat_alt of_nat_diff)
  have at_end: "target = trusted + of_nat k \<longleftrightarrow> ?d \<le> ?n"
  proof
    assume "target = trusted + of_nat k"
    then have "target = of_nat (unat trusted + k)" by simp
    moreover have "unat trusted + k < 2 ^ 32" using d(2) assms(4) by linarith
    ultimately have "unat target = unat trusted + k" by (simp only:) (rule unat_of_nat_small, simp)
    with d(2) show "?d \<le> ?n" by simp
  qed (use d(2) tgt in simp)
  obtain h t where hs: "hs = h # t" using len kpos d(2) by (cases hs) auto
  obtain k' where k': "k = Suc k'" using kpos by (cases k) auto
  have chain: "linked_from G (trusted + 1) (parent_hash (header_of G (hs ! 0))) (take k hs)
      \<and> trusted_hash = parent_hash (header_of G (hs ! 0))
    \<longleftrightarrow> linked_from G (trusted + 1) trusted_hash (take k hs)"
    by (auto simp: hs k')
  have kd: "?d \<le> ?n \<Longrightarrow> k = ?d" using d(2) by simp
  show ?thesis
    unfolding verify_subchain_eq [OF assms(1-5)] Let_def hs_def [symmetric]
    using chain at_end kpos kd
    by (auto simp: subchain_ok_def subchain_summary_def Let_def len k_def [symmetric])
qed

lemma verify_subchain_honest:
  assumes "gadgets_ok G" and "mapreduce_gadget mapreduce" and "2 \<le> num_map_jobs N"
    and "unat trusted + 8 * num_map_jobs N < 2 ^ 32"
    and "69 \<le> S" and "S < 2 ^ 32"
    and "avail_chain G S blk (unat trusted + 1) (unat target)"
    and "ch_parent (blk (unat trusted + 1)) = trusted_hash"
    and "trusted < target" and "unat target - unat trusted \<le> 8 * num_map_jobs N"
  shows "verify_subchain G mapreduce (hint_output (chain_range blk) S) N trusted trusted_hash target = Some
    (let pad = replicate (8 * num_map_jobs N - (unat target - unat trusted)) zero_hash;
         blocks = [unat trusted + 1..<unat target + 1]
     in \<lparr>target_header_hash = blake2b G (encode_chain_header (unat target) (blk (unat target))),
         state_root_merkle_root =
           list_root (sha_node G) (map (\<lambda>i. ch_state_root (blk i)) blocks @ pad),
         data_root_merkle_root =
           list_root (sha_node G) (map (\<lambda>i. ch_data_root (blk i)) blocks @ pad)\<rparr>)"
proof -
  let ?t = "unat trusted + 1" and ?n = "8 * num_map_jobs N" and ?f = "hint_output (chain_range blk) S"
  define k where "k = unat target - unat trusted"
  define hs where "hs = map (hinted_header S blk (unat target)) [?t..<?t + ?n]"
  have tgt: "unat target = unat trusted + k" "0 < k" using assms(9) by (simp_all add: k_def word_less_nat_alt)
  have kn: "k \<le> ?n" using assms(10) by (simp add: k_def)
  note hdr = hinted_header_decodes [OF assms(1,5,6,7)]
  have range: "range_headers ?f trusted target 0 (num_map_jobs N) = hs"
    unfolding hs_def by (rule hinted_range [OF assms(7)]) (use assms(4) in simp)
  have fetched: "fetched_ok ?f trusted target (num_map_jobs N)"
    using hint_batch [OF assms(7)] assms(4) by (auto simp: fetched_ok_def list_all_iff)
  have take: "take k hs = map (hinted_header S blk (unat target)) [?t..<?t + k]"
    unfolding hs_def take_map by (subst take_upt) (use kn in simp_all)
  have "?t + k \<le> unat target + 1" using tgt by simp
  moreover have "of_nat (unat trusted + 1) = trusted + 1" by simp
  ultimately have linked: "linked_from G (trusted + 1) trusted_hash (take k hs)"
    using hinted_chain_linked [OF assms(1,5,6,7), of k] assms(8)
    by (simp only: take)
  have blocks: "[unat trusted + 1..<unat target + 1] = [?t..<?t + k]" using tgt by simp
  have roots: "map (\<lambda>h. f (header_of G h)) (take k hs)
      = map (\<lambda>i. f \<lparr>block_number = of_nat i, parent_hash = ch_parent (blk i),
           state_root = ch_state_root (blk i), data_root = ch_data_root (blk i)\<rparr>) [?t..<?t + k]"
    for f :: "header_variable \<Rightarrow> bytes32"
    unfolding take using hdr(2) tgt by auto
  have lenhs: "length hs = ?n" by (simp add: hs_def)
  have leaves: "enable_leaves k (state_roots G hs) = map (\<lambda>i. ch_state_root (blk i)) [?t..<?t + k]
        @ replicate (?n - k) zero_hash"
      "enable_leaves k (data_roots G hs) = map (\<lambda>i. ch_data_root (blk i)) [?t..<?t + k]
        @ replicate (?n - k) zero_hash"
    using roots [of state_root] roots [of data_root]
    by (simp_all add: enable_leaves_def state_roots_def data_roots_def lenhs take_map)
  have "hs ! (k - 1) = hinted_header S blk (unat target) (unat target)"
    using tgt kn by (simp add: hs_def del: upt_Suc)
  then have target: "hash_encoded_header G (hs ! (k - 1)) = blake2b G (encode_chain_header (unat target) (blk (unat target)))"
    using hdr(3) [of "unat target"] tgt by simp
  have "list_all (decodes G) hs" using hdr(1) by (auto simp: hs_def list_all_iff simp del: upt_Suc)
  then show ?thesis
    unfolding verify_subchain_Some_iff [OF assms(1-4) fetched assms(9)] Let_def range k_def [symmetric] blocks
    using linked leaves target kn by (simp del: upt_Suc)
qed

section \<open>The target hash binds the chain\<close>

text \<open>The bytes of a header the circuit hashes.\<close>

definition hashed_bytes :: "encoded_header \<Rightarrow> byte list" where
  "hashed_bytes h = take (unat (header_size h)) (header_bytes h)"

lemma header_of_hashed:
  assumes ok: "gadgets_ok G" and fit: "length (header_bytes h) = S" "unat (header_size h) \<le> S" "S < 2 ^ 32"
    and chain: "avail_chain G S blk a b" and i: "a \<le> i" "i \<le> b"
    and eq: "hashed_bytes h = encode_chain_header i (blk i)"
  shows "header_of G h = \<lparr>block_number = of_nat i, parent_hash = ch_parent (blk i),
    state_root = ch_state_root (blk i), data_root = ch_data_root (blk i)\<rparr>"
proof (rule header_ofI, rule decode_header_fields [OF gadgets_okD(1-4) [OF ok]])
  show "header_bytes h = avail_header_bytes (ch_parent (blk i)) (of_nat i) (ch_state_root (blk i))
      (ch_middle (blk i)) (ch_data_root (blk i)) @ drop (unat (header_size h)) (header_bytes h)"
    using eq by (metis append_take_drop_id encode_chain_header_def hashed_bytes_def)
  show "unat (header_size h) = length (avail_header_bytes (ch_parent (blk i)) (of_nat i)
      (ch_state_root (blk i)) (ch_middle (blk i)) (ch_data_root (blk i)))"
    using eq fit by (metis encode_chain_header_def hashed_bytes_def length_take min_absorb2)
qed (use chain i in \<open>simp_all add: avail_chain_def\<close>)

lemma chain_binding:
  assumes ok: "gadgets_ok G" and S: "S < 2 ^ 32"
    and fit: "\<forall>h\<in>set hs. length (header_bytes h) = S \<and> unat (header_size h) \<le> S"
    and chain: "avail_chain G S blk a (a + length hs - 1)"
    and linked: "linked_from G b p hs" and ne: "hs \<noteq> []"
    and last: "hash_encoded_header G (last hs)
      = blake2b G (encode_chain_header (a + length hs - 1) (blk (a + length hs - 1)))"
    and inj: "inj_on (blake2b G) (hashed_bytes ` set hs
      \<union> (\<lambda>i. encode_chain_header i (blk i)) ` {a..<a + length hs})"
  shows "j < length hs \<Longrightarrow> hashed_bytes (hs ! (length hs - 1 - j))
    = encode_chain_header (a + length hs - 1 - j) (blk (a + length hs - 1 - j))"
proof -
  let ?E = "\<lambda>i. encode_chain_header i (blk i)"
  have hash: "hash_encoded_header G h = blake2b G (hashed_bytes h)" if "h \<in> set hs" for h
    using fit that hash_gadget_simps(4) [OF gadgets_okD(5) [OF ok]]
    by (simp add: hash_encoded_header_def hashed_bytes_def)
  have bind: "hashed_bytes h = ?E i"
    if "h \<in> set hs" "i \<in> {a..<a + length hs}" "hash_encoded_header G h = blake2b G (?E i)" for h i
    by (rule inj_onD [OF inj]) (use that hash in auto)
  show "j < length hs \<Longrightarrow> hashed_bytes (hs ! (length hs - 1 - j)) = ?E (a + length hs - 1 - j)"
  proof (induction j)
    case 0
    have "hs ! (length hs - 1) = last hs" using ne by (simp add: last_conv_nth)
    then show ?case using bind [of "last hs" "a + length hs - 1"] last ne by (cases hs) auto
  next
    case (Suc j)
    let ?m = "length hs - 1 - j"
    obtain m where m: "?m = Suc m" using Suc.prems by (cases ?m) auto
    have i: "a + length hs - 1 - j = a + Suc m" "a + length hs - 1 - Suc j = a + m" "length hs - 1 - Suc j = m"
      using m Suc.prems by linarith+
    have mem: "hs ! Suc m \<in> set hs" "hs ! m \<in> set hs" and len: "Suc m < length hs"
      using m Suc.prems by simp_all
    have "hashed_bytes (hs ! Suc m) = ?E (a + Suc m)" using Suc m i(1) by simp
    then have "parent_hash (header_of G (hs ! Suc m)) = ch_parent (blk (a + Suc m))"
      using header_of_hashed [OF ok _ _ S chain, of "hs ! Suc m" "a + Suc m"] fit mem(1) len by simp
    moreover have "ch_parent (blk (a + Suc m)) = blake2b G (?E (a + m))"
      using chain len by (simp add: avail_chain_def)
    ultimately have "hash_encoded_header G (hs ! m) = blake2b G (?E (a + m))"
      using linked_from_parent [OF linked len] by simp
    then show ?case using bind [of "hs ! m" "a + m"] mem(2) len i by simp
  qed
qed

lemma verify_subchain_bound:
  assumes "gadgets_ok G" and "mapreduce_gadget mapreduce" and "2 \<le> num_map_jobs N"
    and "unat trusted + 8 * num_map_jobs N < 2 ^ 32"
    and "fetched_ok fetch trusted target (num_map_jobs N)" and "trusted < target"
    and "verify_subchain G mapreduce fetch N trusted trusted_hash target = Some out"
    and "S < 2 ^ 32"
    and "\<forall>h\<in>set (take (unat target - unat trusted) (range_headers fetch trusted target 0 (num_map_jobs N))).
           length (header_bytes h) = S \<and> unat (header_size h) \<le> S"
    and "avail_chain G S blk (unat trusted + 1) (unat target)"
    and "target_header_hash out = blake2b G (encode_chain_header (unat target) (blk (unat target)))"
    and "inj_on (blake2b G)
          (hashed_bytes ` set (take (unat target - unat trusted)
             (range_headers fetch trusted target 0 (num_map_jobs N)))
           \<union> (\<lambda>i. encode_chain_header i (blk i)) ` {unat trusted + 1..<unat target + 1})"
  shows "let pad = replicate (8 * num_map_jobs N - (unat target - unat trusted)) zero_hash;
             blocks = [unat trusted + 1..<unat target + 1]
    in ch_parent (blk (unat trusted + 1)) = trusted_hash
       \<and> state_root_merkle_root out = list_root (sha_node G) (map (\<lambda>i. ch_state_root (blk i)) blocks @ pad)
       \<and> data_root_merkle_root out = list_root (sha_node G) (map (\<lambda>i. ch_data_root (blk i)) blocks @ pad)"
proof -
  define hs where "hs = range_headers fetch trusted target 0 (num_map_jobs N)"
  define k where "k = unat target - unat trusted"
  define a where "a = unat trusted + 1"
  have kpos: "0 < k" and tgt: "unat target = unat trusted + k"
    using assms(6) by (simp_all add: k_def word_less_nat_alt)
  note run = assms(7) [unfolded verify_subchain_Some_iff [OF assms(1-6)] Let_def, folded hs_def k_def]
  then have kn: "k \<le> 8 * num_map_jobs N" and linked: "linked_from G (trusted + 1) trusted_hash (take k hs)"
    and out: "out = \<lparr>target_header_hash = hash_encoded_header G (hs ! (k - 1)),
      state_root_merkle_root = list_root (sha_node G) (enable_leaves k (state_roots G hs)),
      data_root_merkle_root = list_root (sha_node G) (enable_leaves k (data_roots G hs))\<rparr>"
    by simp_all
  have len: "length hs = 8 * num_map_jobs N"
    using length_range_headers [of "num_map_jobs N" fetch trusted target 0] assms(5)
    by (simp add: hs_def fetched_ok_def list_all_iff)
  have lenk: "length (take k hs) = k" using len kn by simp
  have ne: "take k hs \<noteq> []" using lenk kpos by (metis length_0_conv less_numeral_extra(3))
  have fit: "\<forall>h\<in>set (take k hs). length (header_bytes h) = S \<and> unat (header_size h) \<le> S"
    using assms(9) by (simp add: hs_def k_def)
  have ends: "a + length (take k hs) - 1 = unat target" "unat target + 1 = a + length (take k hs)"
    unfolding lenk using tgt kpos by (simp_all add: a_def)
  have "hs ! (k - 1) = last (take k hs)" using ne lenk by (simp add: last_conv_nth)
  then have last: "hash_encoded_header G (last (take k hs))
      = blake2b G (encode_chain_header (a + length (take k hs) - 1) (blk (a + length (take k hs) - 1)))"
    using assms(11) out unfolding ends(1) by simp
  note bound = chain_binding [OF assms(1,8) fit assms(10) [folded a_def, unfolded ends(1) [symmetric]]
      linked ne last assms(12) [folded hs_def k_def a_def, unfolded ends(2)], unfolded lenk]
  have field: "header_of G (take k hs ! i) = \<lparr>block_number = of_nat (a + i), parent_hash = ch_parent (blk (a + i)),
      state_root = ch_state_root (blk (a + i)), data_root = ch_data_root (blk (a + i))\<rparr>" if "i < k" for i
  proof -
    have mem: "take k hs ! i \<in> set (take k hs)" using that lenk by (metis nth_mem)
    have "hashed_bytes (take k hs ! i) = encode_chain_header (a + i) (blk (a + i))"
      using bound [of "k - 1 - i"] that kpos by simp
    then show ?thesis
      using header_of_hashed [OF assms(1) _ _ assms(8) assms(10), of "take k hs ! i" "a + i"] fit mem that tgt
      by (simp add: a_def)
  qed
  have roots: "map (\<lambda>h. f (header_of G h)) (take k hs)
      = map (\<lambda>i. f \<lparr>block_number = of_nat i, parent_hash = ch_parent (blk i),
           state_root = ch_state_root (blk i), data_root = ch_data_root (blk i)\<rparr>) [a..<a + k]"
    for f :: "header_variable \<Rightarrow> bytes32"
    by (rule nth_equalityI) (use lenk field in \<open>simp_all del: nth_take\<close>)
  have "ch_parent (blk a) = trusted_hash"
  proof -
    obtain h t where ht: "take k hs = h # t" using ne by (cases "take k hs") auto
    then show ?thesis using linked field [of 0] kpos by simp
  qed
  moreover have "[unat trusted + 1..<unat target + 1] = [a..<a + k]" using tgt by (simp add: a_def)
  ultimately show ?thesis
    unfolding Let_def k_def [symmetric] a_def [symmetric]
    using roots [of state_root] roots [of data_root] len
    by (simp add: out enable_leaves_def state_roots_def data_roots_def take_map)
qed

text \<open>A chain for the examples.\<close>

primrec example_parent :: "nat \<Rightarrow> bytes32" where
  "example_parent 0 = zero_hash"
| "example_parent (Suc i) = toy_digest (encode_chain_header i
     \<lparr>ch_parent = example_parent i, ch_state_root = replicate 32 (of_nat i), ch_middle = [],
      ch_data_root = replicate 32 (of_nat i + 1)\<rparr>)"

definition example_block :: "nat \<Rightarrow> chain_header" where
  "example_block i = \<lparr>ch_parent = example_parent i, ch_state_root = replicate 32 (of_nat i),
     ch_middle = [], ch_data_root = replicate 32 (of_nat i + 1)\<rparr>"

lemma length_example_parent: "length (example_parent i) = 32"
  by (cases i) (simp_all add: zero_hash_def toy_digest_def)

lemma example_chain: "avail_chain toy_gadgets 128 example_block a b"
proof -
  have "example_parent i = blake2b toy_gadgets (encode_chain_header (i - 1) (example_block (i - 1)))" if "0 < i" for i
    using that by (cases i) (simp_all add: toy_gadgets_def example_block_def)
  moreover have "length (encode_chain_header i (example_block i)) \<le> 128" for i
    using length_scale_compact_le [of "of_nat i"] length_example_parent [of i]
    by (simp add: encode_chain_header_def avail_header_bytes_def example_block_def)
  ultimately show ?thesis
    by (simp add: avail_chain_def) (simp add: example_block_def length_example_parent)
qed

lemma two_jobs: "num_map_jobs 16 = 2"
  by (simp add: num_map_jobs_def ceil_log2_def log2_floor.simps)

definition empty_fetch :: "u32 \<Rightarrow> u32 \<Rightarrow> u32 \<Rightarrow> encoded_header list" where
  "empty_fetch a b e = replicate 8 (pad_header 128 [])"

lemma example_fetched:
  "fetched_ok (hint_output (chain_range example_block) 128) 10 13 (num_map_jobs 16)"
  using hint_batch [OF example_chain, of 10] by (simp add: fetched_ok_def two_jobs upt_rec)

section \<open>Properties\<close>

text \<open>C18. What a proof of the header chain attests, for a target after the trusted block and whatever
  the hint returned: the constraints hold exactly when the target lies within the circuit's range, all
  fetched headers decode, and those numbered \<open>trusted + 1\<close> to \<open>target\<close> form a chain of parent hashes that
  starts at the trusted hash. The outputs are then the hash of the last of them and the Merkle roots of
  their state roots and data roots, padded with zero hashes to the size of the circuit.\<close>

theorem verify_subchain_iff:
  assumes "gadgets_ok G" and "mapreduce_gadget mapreduce" and "2 \<le> num_map_jobs N"
    and "unat trusted + 8 * num_map_jobs N < 2 ^ 32"
    and "fetched_ok fetch trusted target (num_map_jobs N)" and "trusted < target"
  shows "verify_subchain G mapreduce fetch N trusted trusted_hash target = Some out \<longleftrightarrow>
    (let hs = range_headers fetch trusted target 0 (num_map_jobs N);
         k = unat target - unat trusted
     in k \<le> HEADERS_PER_MAP * num_map_jobs N \<and> list_all (decodes G) hs
        \<and> linked_from G (trusted + 1) trusted_hash (take k hs)
        \<and> out = \<lparr>target_header_hash = hash_encoded_header G (hs ! (k - 1)),
            state_root_merkle_root = list_root (sha_node G) (enable_leaves k (state_roots G hs)),
            data_root_merkle_root = list_root (sha_node G) (enable_leaves k (data_roots G hs))\<rparr>)"
  using assms by (rule verify_subchain_Some_iff)

theorem verify_subchain_iff_witness:
  "let hs = range_headers (hint_output (chain_range example_block) 128) 10 13 0 (num_map_jobs 16)
   in list_all (decodes toy_gadgets) hs \<and> linked_from toy_gadgets 11 (example_parent 11) (take 3 hs)"
proof -
  let ?f = "hint_output (chain_range example_block) 128"
  have "ch_parent (example_block (unat (10 :: u32) + 1)) = example_parent 11"
    by (simp add: example_block_def)
  then have "\<exists>out. verify_subchain toy_gadgets tree_mapreduce ?f 16 10 (example_parent 11) 13 = Some out"
    using verify_subchain_honest [OF toy_gadgets_ok tree_mapreduce_ok _ _ _ _ example_chain, where N = 16 and trusted = 10 and target = 13]
    by (simp add: two_jobs)
  then obtain out where "verify_subchain toy_gadgets tree_mapreduce ?f 16 10 (example_parent 11) 13 = Some out" ..
  then show ?thesis
    by (subst (asm) verify_subchain_iff [OF toy_gadgets_ok tree_mapreduce_ok _ _ example_fetched])
      (simp_all add: two_jobs Let_def)
qed

text \<open>Without assumptions on the target, a proof never goes backwards: for a target at or before the
  trusted block, the circuit is unsatisfiable unless the target is block 0, and then the hash it
  returns is the zero hash.\<close>

theorem verify_subchain_backwards:
  assumes "gadgets_ok G" and "mapreduce_gadget mapreduce" and "2 \<le> num_map_jobs N"
    and "unat trusted + 8 * num_map_jobs N < 2 ^ 32"
    and "fetched_ok fetch trusted target (num_map_jobs N)" and "target \<le> trusted"
    and "verify_subchain G mapreduce fetch N trusted trusted_hash target = Some out"
  shows "target = 0 \<and> target_header_hash out = zero_hash"
  using assms(6,7) unfolding verify_subchain_eq [OF assms(1-5)]
  by (auto simp: subchain_summary_def active_count_def Let_def word_le_nat_alt split: if_splits)

theorem verify_subchain_backwards_witness:
  "\<exists>out. verify_subchain toy_gadgets tree_mapreduce empty_fetch 16 5 zero_hash 0 = Some out
     \<and> target_header_hash out = zero_hash"
proof -
  have fetched: "fetched_ok empty_fetch 5 0 (num_map_jobs 16)"
    by (simp add: fetched_ok_def batch_headers_def empty_fetch_def two_jobs upt_rec)
  note g = gadgets_okD [OF toy_gadgets_ok]
  note empty = decode_header_empty [OF g(1-4), of 128]
  have hs: "range_headers empty_fetch 5 0 0 2 = replicate 16 (pad_header 128 [])"
    by (simp add: range_headers_def batch_headers_def empty_fetch_def upt_rec flip: replicate_add)
  have "subchain_ok toy_gadgets 5 0 0 (replicate 16 (pad_header 128 []))"
    using empty by (simp add: subchain_ok_def active_count_def decodes_def list_all_iff)
  then obtain out where out: "verify_subchain toy_gadgets tree_mapreduce empty_fetch 16 5 zero_hash 0 = Some out"
    using verify_subchain_eq [OF toy_gadgets_ok tree_mapreduce_ok _ _ fetched, of zero_hash] empty
    by (simp add: two_jobs hs Let_def subchain_summary_def active_count_def header_of_def)
  then have "(0 :: u32) = 0 \<and> target_header_hash out = zero_hash"
    by (intro verify_subchain_backwards [OF toy_gadgets_ok tree_mapreduce_ok _ _ fetched]) (simp_all add: two_jobs)
  with out show ?thesis by blast
qed

text \<open>C22. On an honest hint the circuit can be proved: if the fetcher returns the encoded headers of a
  chain whose first block links to the trusted hash, every target within the range is accepted, with the
  hash of the target block and the Merkle roots of the state roots and data roots of the blocks
  \<open>trusted + 1\<close> to \<open>target\<close>.\<close>

theorem verify_subchain_complete:
  assumes "gadgets_ok G" and "mapreduce_gadget mapreduce" and "2 \<le> num_map_jobs N"
    and "unat trusted + 8 * num_map_jobs N < 2 ^ 32"
    and "69 \<le> S" and "S < 2 ^ 32"
    and "avail_chain G S blk (unat trusted + 1) (unat target)"
    and "ch_parent (blk (unat trusted + 1)) = trusted_hash"
    and "trusted < target" and "unat target - unat trusted \<le> 8 * num_map_jobs N"
  shows "verify_subchain G mapreduce (hint_output (chain_range blk) S) N trusted trusted_hash target = Some
    (let pad = replicate (8 * num_map_jobs N - (unat target - unat trusted)) zero_hash;
         blocks = [unat trusted + 1..<unat target + 1]
     in \<lparr>target_header_hash = blake2b G (encode_chain_header (unat target) (blk (unat target))),
         state_root_merkle_root =
           list_root (sha_node G) (map (\<lambda>i. ch_state_root (blk i)) blocks @ pad),
         data_root_merkle_root =
           list_root (sha_node G) (map (\<lambda>i. ch_data_root (blk i)) blocks @ pad)\<rparr>)"
  using assms by (rule verify_subchain_honest)

theorem verify_subchain_complete_witness:
  "\<exists>out. verify_subchain toy_gadgets tree_mapreduce (hint_output (chain_range example_block) 128) 16 10
     (example_parent 11) 13 = Some out
     \<and> target_header_hash out = blake2b toy_gadgets (encode_chain_header 13 (example_block 13))"
proof -
  have "ch_parent (example_block (unat (10 :: u32) + 1)) = example_parent 11"
    by (simp add: example_block_def)
  then show ?thesis
    using verify_subchain_complete [OF toy_gadgets_ok tree_mapreduce_ok _ _ _ _ example_chain, where N = 16 and trusted = 10 and target = 13]
    by (simp add: two_jobs Let_def)
qed

text \<open>C19. The target hash binds the whole range: if the hash the circuit outputs is that of the last block
  of a chain of headers, the chain starts at the trusted hash and the Merkle roots are those of its state
  roots and data roots, whatever headers the hint supplied, as long as Blake2b does not collide on
  the bytes hashed. So a justification of the target header alone vouches for the commitments.\<close>

theorem verify_subchain_binding:
  assumes "gadgets_ok G" and "mapreduce_gadget mapreduce" and "2 \<le> num_map_jobs N"
    and "unat trusted + 8 * num_map_jobs N < 2 ^ 32"
    and "fetched_ok fetch trusted target (num_map_jobs N)" and "trusted < target"
    and "verify_subchain G mapreduce fetch N trusted trusted_hash target = Some out"
    and "S < 2 ^ 32"
    and "\<forall>h\<in>set (take (unat target - unat trusted) (range_headers fetch trusted target 0 (num_map_jobs N))).
           length (header_bytes h) = S \<and> unat (header_size h) \<le> S"
    and "avail_chain G S blk (unat trusted + 1) (unat target)"
    and "target_header_hash out = blake2b G (encode_chain_header (unat target) (blk (unat target)))"
    and "inj_on (blake2b G)
          (hashed_bytes ` set (take (unat target - unat trusted)
             (range_headers fetch trusted target 0 (num_map_jobs N)))
           \<union> (\<lambda>i. encode_chain_header i (blk i)) ` {unat trusted + 1..<unat target + 1})"
  shows "let pad = replicate (8 * num_map_jobs N - (unat target - unat trusted)) zero_hash;
             blocks = [unat trusted + 1..<unat target + 1]
    in ch_parent (blk (unat trusted + 1)) = trusted_hash
       \<and> state_root_merkle_root out = list_root (sha_node G) (map (\<lambda>i. ch_state_root (blk i)) blocks @ pad)
       \<and> data_root_merkle_root out = list_root (sha_node G) (map (\<lambda>i. ch_data_root (blk i)) blocks @ pad)"
  using assms by (rule verify_subchain_bound)

theorem verify_subchain_binding_witness:
  "\<exists>out. verify_subchain toy_gadgets tree_mapreduce (hint_output (chain_range example_block) 128) 16 0
      (example_parent 1) 1 = Some out
    \<and> state_root_merkle_root out
      = list_root (sha_node toy_gadgets) (replicate 32 1 # replicate 15 zero_hash)"
proof -
  let ?f = "hint_output (chain_range example_block) 128"
  have parent: "ch_parent (example_block (unat (0 :: u32) + 1)) = example_parent 1"
    by (simp add: example_block_def)
  have fetched: "fetched_ok ?f 0 1 (num_map_jobs 16)"
    using hint_batch [OF example_chain, of 0] by (simp add: fetched_ok_def two_jobs upt_rec)
  obtain out where out: "verify_subchain toy_gadgets tree_mapreduce ?f 16 0 (example_parent 1) 1 = Some out"
    and hash: "target_header_hash out = blake2b toy_gadgets (encode_chain_header 1 (example_block 1))"
    using verify_subchain_honest [OF toy_gadgets_ok tree_mapreduce_ok _ _ _ _ example_chain parent,
        where N = 16 and target = 1]
    by (simp add: two_jobs Let_def)
  have len: "length (encode_chain_header 1 (example_block 1)) \<le> 128"
    using example_chain [of 1 1] by (simp add: avail_chain_def)
  then have size: "unat (of_nat (length (encode_chain_header 1 (example_block 1))) :: u32)
      = length (encode_chain_header 1 (example_block 1))"
    by (intro unat_of_nat_small) simp
  have hs: "take (unat (1 :: u32) - unat (0 :: u32)) (range_headers ?f 0 1 0 (num_map_jobs 16))
      = [pad_header 128 (encode_chain_header 1 (example_block 1))]"
    using hinted_range [OF example_chain, of 0 2] by (simp add: two_jobs upt_rec hinted_header_def)
  have hashed: "hashed_bytes (pad_header 128 (encode_chain_header 1 (example_block 1)))
      = encode_chain_header 1 (example_block 1)"
    using size by (simp add: hashed_bytes_def pad_header_def)
  have "let pad = replicate (8 * num_map_jobs 16 - (unat (1 :: u32) - unat (0 :: u32))) zero_hash;
          blocks = [unat (0 :: u32) + 1..<unat (1 :: u32) + 1]
    in ch_parent (example_block (unat (0 :: u32) + 1)) = example_parent 1
       \<and> state_root_merkle_root out = list_root (sha_node toy_gadgets)
           (map (\<lambda>i. ch_state_root (example_block i)) blocks @ pad)
       \<and> data_root_merkle_root out = list_root (sha_node toy_gadgets)
           (map (\<lambda>i. ch_data_root (example_block i)) blocks @ pad)"
  proof (rule verify_subchain_binding [OF toy_gadgets_ok tree_mapreduce_ok _ _ fetched _ out _ _ example_chain])
    show "target_header_hash out
        = blake2b toy_gadgets (encode_chain_header (unat (1 :: u32)) (example_block (unat (1 :: u32))))"
      using hash by simp
    show "\<forall>h\<in>set (take (unat (1 :: u32) - unat (0 :: u32)) (range_headers ?f 0 1 0 (num_map_jobs 16))).
        length (header_bytes h) = 128 \<and> unat (header_size h) \<le> 128"
      unfolding hs using len size by (simp add: pad_header_def)
    show "inj_on (blake2b toy_gadgets)
      (hashed_bytes ` set (take (unat (1 :: u32) - unat (0 :: u32)) (range_headers ?f 0 1 0 (num_map_jobs 16)))
       \<union> (\<lambda>i. encode_chain_header i (example_block i)) ` {unat (0 :: u32) + 1..<unat (1 :: u32) + 1})"
      unfolding hs using hashed by simp
  qed (simp_all add: two_jobs)
  then show ?thesis using out by (auto simp: Let_def two_jobs example_block_def)
qed

end
