(* ===== verification/Circuits.thy ===== *)
theory Circuits
  imports Rotate_Builder Subchain
begin

text \<open>
  The two circuits the light client verifies proofs of, \<open>HeaderRangeCircuit\<close> of
  \<open>circuits/header_range.rs\<close> and \<open>RotateCircuit\<close> of \<open>circuits/rotate.rs\<close>: functions from the bytes of
  the on-chain inputs to the bytes of the outputs. What the hints return is an argument.
\<close>

section \<open>On-chain inputs and outputs\<close>

text \<open>\<open>evm_read\<close> takes the next value of the input, packed big-endian.\<close>

definition u32_to_be :: "u32 \<Rightarrow> byte list" where "u32_to_be n = rev (u32_to_le n)"
definition u64_to_be :: "u64 \<Rightarrow> byte list" where "u64_to_be n = rev (u64_to_le n)"
definition u32_from_be :: "byte list \<Rightarrow> u32" where "u32_from_be bs = u32_from_le (rev bs)"
definition u64_from_be :: "byte list \<Rightarrow> u64" where "u64_from_be bs = u64_from_le (rev bs)"

definition evm_read_u32 :: "byte list \<Rightarrow> u32 \<times> byte list" where
  "evm_read_u32 input = (u32_from_be (take 4 input), drop 4 input)"

definition evm_read_u64 :: "byte list \<Rightarrow> u64 \<times> byte list" where
  "evm_read_u64 input = (u64_from_be (take 8 input), drop 8 input)"

definition evm_read_bytes32 :: "byte list \<Rightarrow> bytes32 \<times> byte list" where
  "evm_read_bytes32 input = (take 32 input, drop 32 input)"

lemma evm_read_simps [simp]:
  "evm_read_u32 (u32_to_be n @ rest) = (n, rest)"
  "evm_read_u64 (u64_to_be k @ rest) = (k, rest)"
  "length h = 32 \<Longrightarrow> evm_read_bytes32 (h @ rest) = (h, rest)"
  by (simp_all add: evm_read_u32_def evm_read_u64_def evm_read_bytes32_def u32_to_be_def u32_from_be_def
      u64_to_be_def u64_from_be_def)

section \<open>The circuits\<close>

definition header_range_define ::
    "gadgets \<Rightarrow> map_reduce_subchain mapreduce \<Rightarrow> (u32 \<Rightarrow> u32 \<Rightarrow> u32 \<Rightarrow> encoded_header list)
      \<Rightarrow> (u32 \<Rightarrow> u64 \<Rightarrow> justification) \<Rightarrow> nat \<Rightarrow> byte list \<Rightarrow> byte list option" where
  "header_range_define G mapreduce fetch justification_hint max_num_headers input = do {
     let (trusted_block, input) = evm_read_u32 input;
     let (trusted_header_hash, input) = evm_read_bytes32 input;
     let (authority_set_id, input) = evm_read_u64 input;
     let (authority_set_hash, input) = evm_read_bytes32 input;
     let (target_block, input) = evm_read_u32 input;
     subchain_output \<leftarrow> verify_subchain G mapreduce fetch max_num_headers
       trusted_block trusted_header_hash target_block;
     verify_simple_justification G target_block (target_header_hash subchain_output)
       authority_set_id authority_set_hash (justification_hint target_block authority_set_id);
     Some (target_header_hash subchain_output @ state_root_merkle_root subchain_output
       @ data_root_merkle_root subchain_output) }"

definition rotate_define ::
    "gadgets \<Rightarrow> nat \<Rightarrow> nat \<Rightarrow> (u64 \<Rightarrow> rotate_variable) \<Rightarrow> (u32 \<Rightarrow> u64 \<Rightarrow> justification)
      \<Rightarrow> byte list \<Rightarrow> byte list option" where
  "rotate_define G max_authority_set_size max_subarray_size rotate_hint justification_hint input = do {
     let (authority_set_id, input) = evm_read_u64 input;
     let (authority_set_hash, input) = evm_read_bytes32 input;
     let rotate_var = rotate_hint authority_set_id;
     new_authority_set_hash \<leftarrow> rotate G max_authority_set_size max_subarray_size
       authority_set_id authority_set_hash rotate_var
       (justification_hint (epoch_end_block_number rotate_var) authority_set_id);
     Some new_authority_set_hash }"

text \<open>The packed inputs, as the contract encodes them.\<close>

definition header_range_input :: "u32 \<Rightarrow> bytes32 \<Rightarrow> u64 \<Rightarrow> bytes32 \<Rightarrow> u32 \<Rightarrow> byte list" where
  "header_range_input trusted trusted_hash set_id set_hash target =
     u32_to_be trusted @ trusted_hash @ u64_to_be set_id @ set_hash @ u32_to_be target"

definition rotate_input :: "u64 \<Rightarrow> bytes32 \<Rightarrow> byte list" where
  "rotate_input set_id set_hash = u64_to_be set_id @ set_hash"

lemma header_range_define_eq:
  assumes "length trusted_hash = 32" "length set_hash = 32"
  shows "header_range_define G mapreduce fetch hint N
      (header_range_input trusted trusted_hash set_id set_hash target) = do {
    out \<leftarrow> verify_subchain G mapreduce fetch N trusted trusted_hash target;
    verify_simple_justification G target (target_header_hash out) set_id set_hash (hint target set_id);
    Some (target_header_hash out @ state_root_merkle_root out @ data_root_merkle_root out) }"
proof -
  have last: "evm_read_u32 (u32_to_be target) = (target, [])"
    using evm_read_simps(1) [of target "[]"] by simp
  show ?thesis
    unfolding header_range_define_def header_range_input_def
    using assms by (simp add: last)
qed

lemma rotate_define_eq:
  assumes "length set_hash = 32"
  shows "rotate_define G n m rhint hint (rotate_input set_id set_hash)
    = rotate G n m set_id set_hash (rhint set_id) (hint (epoch_end_block_number (rhint set_id)) set_id)"
proof -
  have last: "evm_read_bytes32 set_hash = (set_hash, [])"
    using evm_read_simps(3) [of set_hash "[]"] assms by simp
  show ?thesis
    unfolding rotate_define_def rotate_input_def by (simp add: last Let_def)
qed

section \<open>Properties\<close>

text \<open>C2. A header range proof in full: on the packed inputs of the contract, for any answers of the
  hints, the circuit outputs \<open>out\<close> exactly when the fetched headers from the trusted block to the
  target are a hash-linked chain that starts at the trusted hash, the justification of the given
  authority set finalises the target header, and \<open>out\<close> is its hash followed by the two Merkle roots of
  the chain.\<close>

theorem header_range_accepted_iff:
  assumes "gadgets_ok G" and "mapreduce_gadget mapreduce" and "2 \<le> num_map_jobs N"
    and "unat trusted + 8 * num_map_jobs N < 2 ^ 32"
    and "fetched_ok fetch trusted target (num_map_jobs N)" and "trusted < target"
    and "wf_justification n (hint target set_id)" and "0 < n" and "3 * n < 2 ^ 32"
    and "length trusted_hash = 32" and "length set_hash = 32"
  shows "header_range_define G mapreduce fetch hint N
      (header_range_input trusted trusted_hash set_id set_hash target) = Some out \<longleftrightarrow>
    (let hs = range_headers fetch trusted target 0 (num_map_jobs N);
         k = unat target - unat trusted;
         target_hash = hash_encoded_header G (hs ! (k - 1))
     in k \<le> HEADERS_PER_MAP * num_map_jobs N \<and> list_all (decodes G) hs
        \<and> linked_from G (trusted + 1) trusted_hash (take k hs)
        \<and> justified G target target_hash set_id set_hash (hint target set_id)
        \<and> out = target_hash @ list_root (sha_node G) (enable_leaves k (state_roots G hs))
            @ list_root (sha_node G) (enable_leaves k (data_roots G hs)))"
  unfolding header_range_define_eq [OF assms(10,11)]
  using verify_subchain_Some_iff [OF assms(1-6), of trusted_hash]
    verify_simple_justification_iff [OF assms(1,7-9), of target _ set_id set_hash]
  by (auto simp: Option.bind_eq_Some_conv Let_def)

theorem header_range_accepted_iff_witness:
  "\<exists>fetch hint out. header_range_define toy_gadgets tree_mapreduce fetch hint 16
     (header_range_input 10 (example_parent 11) 9 (compute_authority_set_hash toy_digest example_authorities) 13)
   = Some out"
proof -
  let ?f = "hint_output (chain_range example_block) 128"
  define hs where "hs = range_headers ?f 10 13 0 2"
  define th where "th = hash_encoded_header toy_gadgets (hs ! 2)"
  have th: "length th = 32"
    by (simp add: th_def hash_encoded_header_def toy_gadgets_def toy_digest_def)
  define hint where "hint t i = toy_justification 3 th t i example_authorities" for t i
  have hash: "length (compute_authority_set_hash toy_digest example_authorities) = 32"
    by (simp add: compute_authority_set_hash_def example_authorities_def toy_digest_def)
  have wf: "wf_justification 3 (hint 13 9)"
    unfolding hint_def by (rule toy_justification_wf) (use th example_authorities_wf in simp_all)
  have just: "justified toy_gadgets 13 th 9 (compute_authority_set_hash toy_digest example_authorities) (hint 13 9)"
    unfolding hint_def by (rule toy_justification_justified) (use th example_authorities_wf in simp_all)
  have "ch_parent (example_block (unat (10 :: u32) + 1)) = example_parent 11" by (simp add: example_block_def)
  then obtain out where "verify_subchain toy_gadgets tree_mapreduce ?f 16 10 (example_parent 11) 13 = Some out"
    using verify_subchain_honest [OF toy_gadgets_ok tree_mapreduce_ok _ _ _ _ example_chain,
        where N = 16 and trusted = 10 and target = 13] by (auto simp: two_jobs)
  then have "list_all (decodes toy_gadgets) hs" "linked_from toy_gadgets 11 (example_parent 11) (take 3 hs)"
    by (subst (asm) verify_subchain_Some_iff [OF toy_gadgets_ok tree_mapreduce_ok _ _ example_fetched];
        simp add: two_jobs Let_def hs_def)+
  then have "header_range_define toy_gadgets tree_mapreduce ?f hint 16
     (header_range_input 10 (example_parent 11) 9 (compute_authority_set_hash toy_digest example_authorities) 13)
   = Some (th @ list_root (sha_node toy_gadgets) (enable_leaves 3 (state_roots toy_gadgets hs))
        @ list_root (sha_node toy_gadgets) (enable_leaves 3 (data_roots toy_gadgets hs)))"
    by (subst header_range_accepted_iff [where hint = hint and n = 3, OF toy_gadgets_ok tree_mapreduce_ok _ _ example_fetched])
      (use just wf hash length_example_parent in \<open>simp_all add: two_jobs Let_def hs_def [symmetric] th_def\<close>)
  then show ?thesis by blast
qed

end
