(* ===== verification/Epochs.thy ===== *)
theory Epochs
  imports Client
begin

text \<open>
  Finding the blocks at which the authority set changes (\<open>last_justified_block\<close> and
  \<open>find_justifications_in_range\<close> of \<open>circuits/input/mod.rs\<close>): a binary search over the set ids of the
  chain, its termination and its correctness on ids that never decrease.
\<close>

section \<open>The search\<close>

lemma mid_bounds:
  "add_ck low high = Inr s \<Longrightarrow> low \<le> high \<Longrightarrow>
    unat (s div 2 :: u32) = (unat low + unat high) div 2
    \<and> unat low \<le> unat (s div 2) \<and> unat (s div 2) \<le> unat high"
  by (auto dest!: add_ck_InrD simp: unat_div word_le_nat_alt)

function search_loop :: "client \<Rightarrow> u64 \<Rightarrow> u32 \<Rightarrow> u32 \<Rightarrow> u32 host" where
  "search_loop c target_authority_set_id low high =
     (if low \<le> high then
        bind_h (add_ck low high) (\<lambda>sum.
        let mid = sum div 2 in
        bind_h (get_authority_set_id c mid) (\<lambda>mid_authority_set_id.
        bind_h (add_ck target_authority_set_id 1) (\<lambda>next_id.
        if mid_authority_set_id = next_id then
          if mid = 0 then Inr mid
          else bind_h (sub_ck mid 1) (\<lambda>prev.
               bind_h (get_authority_set_id c prev) (\<lambda>prev_authority_set_id.
               if prev_authority_set_id = target_authority_set_id then Inr mid
               else search_loop c target_authority_set_id low prev))
        else if mid_authority_set_id < next_id then
          bind_h (add_ck mid 1) (\<lambda>low'. search_loop c target_authority_set_id low' high)
        else
          bind_h (sub_ck mid 1) (\<lambda>high'. search_loop c target_authority_set_id low high'))))
      else Inr 0)"
  by pat_completeness auto

termination
proof (relation "measure (\<lambda>(c, target, low, high). unat high + 1 - unat low)", goal_cases)
  case (2 c target low high s mid a b p d)
  then show ?case using mid_bounds [of low high s] by (auto dest!: sub_ck_InrD simp: word_le_nat_alt)
next
  case (3 c target low high s mid a b l)
  then show ?case using mid_bounds [of low high s] by (auto dest!: add_ck_InrD simp: word_le_nat_alt)
next
  case (4 c target low high s mid a b h)
  then show ?case using mid_bounds [of low high s] by (auto dest!: sub_ck_InrD simp: word_le_nat_alt)
qed simp

declare search_loop.simps [simp del]

definition last_justified_block :: "client \<Rightarrow> u64 \<Rightarrow> u32 host" where
  "last_justified_block c target_authority_set_id =
     bind_h (expect_h (refresh_ws_connection c)) (\<lambda>_.
     bind_h (get_head c) (\<lambda>head_block.
     search_loop c target_authority_set_id 0 (hdr_number head_block)))"

section \<open>Finding justified blocks\<close>

text \<open>\<open>RedisClient::get_blocks_in_range\<close>.\<close>

definition get_blocks_in_range :: "client \<Rightarrow> u32 \<Rightarrow> u32 \<Rightarrow> u32 list host" where
  "get_blocks_in_range c start stop =
     (case get_connection c of Inl e \<Rightarrow> Inl (Panic ''redis'')
      | Inr _ \<Rightarrow> unwrap (c_stored_blocks c start stop))"

function era_loop :: "client \<Rightarrow> u32 \<Rightarrow> u32 \<Rightarrow> u64 \<Rightarrow> u32 list \<Rightarrow> u32 list host" where
  "era_loop c end_block curr_block curr_era epoch_end_blocks =
     (if curr_block < end_block then
        bind_h (last_justified_block c curr_era) (\<lambda>epoch_end_block.
        if epoch_end_block = 0 then Inr epoch_end_blocks
        else if epoch_end_block \<le> end_block then
          bind_h (add_ck curr_era 1) (\<lambda>next_era.
            era_loop c end_block epoch_end_block next_era (epoch_end_blocks @ [epoch_end_block]))
        else Inr epoch_end_blocks)
      else Inr epoch_end_blocks)"
  by pat_completeness auto
termination
proof (relation "measure (\<lambda>(c, stop, cur, era, acc). 2 ^ 64 - unat era)", goal_cases)
  case (2 c stop cur era acc e era')
  moreover have "unat era' < 2 ^ 64" using unsigned_less [of era'] by simp
  ultimately show ?case by (auto dest!: add_ck_InrD)
qed simp

declare era_loop.simps [simp del]

definition find_justifications_in_range :: "client \<Rightarrow> u32 \<Rightarrow> u32 \<Rightarrow> u32 list host" where
  "find_justifications_in_range c start_block end_block =
     bind_h (expect_h (refresh_ws_connection c)) (\<lambda>_.
     bind_h (get_blocks_in_range c start_block end_block) (\<lambda>redis_blocks.
     bind_h (sub_ck start_block 1) (\<lambda>before.
     bind_h (get_authority_set_id c before) (\<lambda>start_era.
     bind_h (era_loop c end_block start_block start_era []) (\<lambda>epoch_end_blocks.
     Inr (sort (redis_blocks @ epoch_end_blocks)))))))"

section \<open>Chains whose set ids never decrease\<close>

text \<open>The node serves the set ids \<open>ids\<close> of the blocks 0 to \<open>head\<close>.\<close>

definition id_chain :: "client \<Rightarrow> nat \<Rightarrow> (nat \<Rightarrow> nat) \<Rightarrow> bool" where
  "id_chain c head ids \<longleftrightarrow> connected c \<and> 2 * head < 2 ^ 32 \<and> ids 0 = 0
     \<and> (\<forall>i. i \<le> head \<longrightarrow> get_authority_set_id c (of_nat i) = Inr (of_nat (ids i)) \<and> ids i < 2 ^ 64)
     \<and> (\<forall>i j. i \<le> j \<and> j \<le> head \<longrightarrow> ids i \<le> ids j)
     \<and> (\<exists>h. get_head c = Inr h \<and> unat (hdr_number h) = head)"

text \<open>The block at which the set \<open>t\<close> hands over to \<open>t + 1\<close>.\<close>

definition epoch_end :: "(nat \<Rightarrow> nat) \<Rightarrow> nat \<Rightarrow> nat \<Rightarrow> bool" where
  "epoch_end ids t b \<longleftrightarrow> 0 < b \<and> ids (b - 1) = t \<and> ids b = t + 1"

lemma narrow_interval:
  fixes l h l' h' :: nat
  assumes "\<forall>b. l' \<le> b \<and> b \<le> h' \<and> P b \<longleftrightarrow> Q b" and "l \<le> l'" "h' \<le> h"
    and "\<And>b. P b \<Longrightarrow> l \<le> b \<Longrightarrow> b \<le> h \<Longrightarrow> l' \<le> b \<and> b \<le> h'"
  shows "\<forall>b. l \<le> b \<and> b \<le> h \<and> P b \<longleftrightarrow> Q b"
proof
  fix b
  have "l \<le> b \<and> b \<le> h \<and> P b \<longleftrightarrow> l' \<le> b \<and> b \<le> h' \<and> P b"
    using assms(2-4) by (meson order_trans)
  with assms(1) show "l \<le> b \<and> b \<le> h \<and> P b \<longleftrightarrow> Q b" by blast
qed

lemma search_loop_correct:
  assumes chain: "id_chain c head ids" and t: "t + 1 < 2 ^ 64"
  shows "unat high \<le> head \<Longrightarrow>
    \<exists>r. search_loop c (of_nat t) low high = Inr (of_nat r) \<and> r \<le> head
      \<and> (\<forall>b. unat low \<le> b \<and> b \<le> unat high \<and> epoch_end ids t b \<longleftrightarrow> b = r \<and> 0 < r)"
proof (induction "unat high + 1 - unat low" arbitrary: low high rule: less_induct)
  case less
  let ?spec = "\<lambda>(low :: u32) (high :: u32) r. r \<le> head
    \<and> (\<forall>b. unat low \<le> b \<and> b \<le> unat high \<and> epoch_end ids t b \<longleftrightarrow> b = r \<and> 0 < r)"
  have mono: "ids i \<le> ids j" if "i \<le> j" "j \<le> head" for i j using chain that by (simp add: id_chain_def)
  have mono_pred: "ids i \<le> ids (j - 1)" if "i \<le> j - 1" "j \<le> head" for i j
    using mono [OF that(1)] that(2) by simp
  show ?case
  proof (cases "low \<le> high")
    case False
    then have "?spec low high 0" by (auto simp: word_le_nat_alt)
    with False show ?thesis by (subst search_loop.simps) (auto intro: exI [of _ 0])
  next
    case True
    define m where "m = (unat low + unat high) div 2"
    have le: "unat low \<le> m" "m \<le> unat high" "m \<le> head"
      using True less.prems by (auto simp: m_def word_le_nat_alt)
    have "unat high < 2 ^ 32" using unsigned_less [of high] by simp
    with le(2) have small: "m < 2 ^ 32" by linarith
    have sum: "add_ck low high = Inr (low + high)"
      using chain less.prems True by (simp add: add_ck_def id_chain_def word_le_nat_alt)
    have mid: "(low + high) div 2 = of_nat m" "unat (of_nat m :: u32) = m"
    proof -
      show um: "unat (of_nat m :: u32) = m" using small by (intro unat_of_nat_small) simp
      have "unat ((low + high) div 2) = m" using mid_bounds [OF sum True] by (simp add: m_def)
      then show "(low + high) div 2 = of_nat m" using um by (simp add: word_unat_eq_iff)
    qed
    have id: "get_authority_set_id c (of_nat i) = Inr (of_nat (ids i))" "unat (of_nat (ids i) :: u64) = ids i"
      if "i \<le> head" for i
      using chain that by (simp_all add: id_chain_def unat_of_nat_small)
    have ut: "unat (of_nat t :: u64) = t" "unat (of_nat (t + 1) :: u64) = t + 1"
      using t by (intro unat_of_nat_small; simp)+
    have "(of_nat t :: u64) + 1 = of_nat (t + 1)" by simp
    then have next_id: "add_ck (of_nat t :: u64) 1 = Inr (of_nat (t + 1))"
      unfolding add_ck_def ut using t by simp
    have cmp: "(of_nat (ids m) :: u64) = of_nat (t + 1) \<longleftrightarrow> ids m = t + 1"
      "(of_nat (ids m) :: u64) < of_nat (t + 1) \<longleftrightarrow> ids m < t + 1"
      unfolding word_unat_eq_iff word_less_nat_alt id(2) [OF le(3)] ut(2) by simp_all
    have zero: "(of_nat m :: u32) = 0 \<longleftrightarrow> m = 0"
      unfolding word_unat_eq_iff mid(2) by simp
    have prev: "sub_ck (of_nat m :: u32) 1 = Inr (of_nat (m - 1))" "unat (of_nat (m - 1) :: u32) = m - 1"
      if "0 < m"
    proof -
      show "unat (of_nat (m - 1) :: u32) = m - 1" using small by (intro unat_of_nat_small) simp
      have "(1 :: u32) \<le> of_nat m" using that mid(2) by (simp add: word_le_nat_alt)
      moreover have "(of_nat m :: u32) - 1 = of_nat (m - 1)" using that by (cases m) simp_all
      ultimately show "sub_ck (of_nat m :: u32) 1 = Inr (of_nat (m - 1))" by (simp add: sub_ck_def)
    qed
    define w where "w = (of_nat m :: u32)"
    define p where "p = (of_nat (m - 1) :: u32)"
    define tw where "tw = (of_nat t :: u64)"
    define nw where "nw = (of_nat (t + 1) :: u64)"
    define iw where "iw = (of_nat (ids m) :: u64)"
    define pw where "pw = (of_nat (ids (m - 1)) :: u64)"
    have pcmp: "pw = tw \<longleftrightarrow> ids (m - 1) = t"
      unfolding word_unat_eq_iff ut(1) tw_def pw_def using id(2) [of "m - 1"] le(3) by simp
    have ids: "get_authority_set_id c w = Inr iw" "get_authority_set_id c p = Inr pw"
      unfolding w_def p_def iw_def pw_def using id(1) [of m] id(1) [of "m - 1"] le(3) by simp_all
    have unfold: "search_loop c tw low high =
      (if ids m = t + 1 then
         if m = 0 then Inr 0
         else if ids (m - 1) = t then Inr w else search_loop c tw low p
       else if ids m < t + 1 then bind_h (add_ck w 1) (\<lambda>l. search_loop c tw l high)
       else bind_h (sub_ck w 1) (\<lambda>h. search_loop c tw low h))"
      using True sum mid(1) [folded w_def] ids next_id [folded tw_def nw_def] cmp [folded iw_def nw_def]
        zero [folded w_def] prev(1) [folded w_def p_def] pcmp
      by (subst search_loop.simps) (auto simp: Let_def)
    note unfold = unfold [unfolded tw_def w_def p_def]
    consider "ids m = t + 1" "m = 0" | "ids m = t + 1" "0 < m" "ids (m - 1) = t"
      | "ids m = t + 1" "0 < m" "ids (m - 1) \<noteq> t" | "ids m < t + 1" | "t + 1 < ids m"
      by linarith
    then show ?thesis
    proof cases
      case 1
      have "\<not> epoch_end ids t b" if "b \<le> head" for b
        using that 1 mono_pred [of 0 b] by (cases b) (auto simp: epoch_end_def)
      then have "?spec low high 0" using less.prems by auto
      moreover have "search_loop c (of_nat t) low high = Inr (of_nat 0)" unfolding unfold using 1 by simp
      ultimately show ?thesis by blast
    next
      case 2
      have "b = m" if "epoch_end ids t b" "b \<le> head" for b
      proof (rule ccontr)
        assume "b \<noteq> m"
        then have "b \<le> m - 1 \<or> m \<le> b - 1" by linarith
        then show False
          using that 2 mono_pred [of b m] mono_pred [of m b] le(3) by (auto simp: epoch_end_def)
      qed
      moreover have "epoch_end ids t m" using 2 by (simp add: epoch_end_def)
      ultimately have "?spec low high m" using 2(2) le less.prems by (meson order_trans)
      moreover have "search_loop c (of_nat t) low high = Inr (of_nat m)" unfolding unfold using 2 by simp
      ultimately show ?thesis by blast
    next
      case 3
      have "unat (of_nat (m - 1) :: u32) = m - 1" using prev 3(2) by blast
      then have "unat (of_nat (m - 1) :: u32) + 1 - unat low < unat high + 1 - unat low"
        and "unat (of_nat (m - 1) :: u32) \<le> head" using le 3(2) by linarith+
      from less.hyps [OF this] obtain r
        where run: "search_loop c (of_nat t) low (of_nat (m - 1)) = Inr (of_nat r) \<and> ?spec low (of_nat (m - 1)) r" ..
      note r = conjunct1 [OF run] conjunct2 [OF run]
      have "b \<le> m - 1" if "epoch_end ids t b" "b \<le> head" for b
      proof (rule ccontr)
        assume "\<not> b \<le> m - 1"
        then have "b = m \<or> m \<le> b - 1" using 3(2) by linarith
        then show False using that 3 mono_pred [of m b] by (auto simp: epoch_end_def)
      qed
      note narrow = this
      have "?spec low high r"
      proof (rule conjI [OF conjunct1 [OF r(2)]]; rule
          narrow_interval [where P = "epoch_end ids t", OF conjunct2 [OF r(2), unfolded prev(2) [OF 3(2)]]])
        fix b
        assume "epoch_end ids t b" "unat low \<le> b" "b \<le> unat high"
        then show "unat low \<le> b \<and> b \<le> m - 1"
          using narrow [of b] less.prems by simp
      qed (use le in simp_all)
      moreover have "search_loop c (of_nat t) low high = Inr (of_nat r)" unfolding unfold using 3 r(1) by simp
      ultimately show ?thesis by blast
    next
      case 4
      have head: "m + 1 < 2 ^ 32" using chain le(3) by (simp add: id_chain_def)
      then have l: "add_ck (of_nat m :: u32) 1 = Inr (of_nat (m + 1))" "unat (of_nat (m + 1) :: u32) = m + 1"
        using mid(2) by (simp add: add_ck_def, intro unat_of_nat_small) simp
      then have "unat high + 1 - unat (of_nat (m + 1) :: u32) < unat high + 1 - unat low"
        using le by linarith
      from less.hyps [OF this less.prems] obtain r
        where run: "search_loop c (of_nat t) (of_nat (m + 1)) high = Inr (of_nat r) \<and> ?spec (of_nat (m + 1)) high r" ..
      note r = conjunct1 [OF run] conjunct2 [OF run]
      have "m + 1 \<le> b" if "epoch_end ids t b" "b \<le> head" for b
        using that 4 mono [of b m] le(3) by (cases "b \<le> m") (auto simp: epoch_end_def)
      note narrow = this
      have "?spec low high r"
      proof (rule conjI [OF conjunct1 [OF r(2)]]; rule
          narrow_interval [where P = "epoch_end ids t", OF conjunct2 [OF r(2), unfolded l(2)]])
        fix b
        assume "epoch_end ids t b" "unat low \<le> b" "b \<le> unat high"
        then show "m + 1 \<le> b \<and> b \<le> unat high"
          using narrow [of b] less.prems by simp
      qed (use le in simp_all)
      moreover have "search_loop c (of_nat t) low high = Inr (of_nat r)"
        unfolding unfold l(1) using 4 r(1) by simp
      ultimately show ?thesis by blast
    next
      case 5
      have "0 < m" using 5 chain by (cases m) (auto simp: id_chain_def)
      then have "unat (of_nat (m - 1) :: u32) + 1 - unat low < unat high + 1 - unat low"
        and "unat (of_nat (m - 1) :: u32) \<le> head" using le prev(2) by linarith+
      from less.hyps [OF this] obtain r
        where run: "search_loop c (of_nat t) low (of_nat (m - 1)) = Inr (of_nat r) \<and> ?spec low (of_nat (m - 1)) r" ..
      note r = conjunct1 [OF run] conjunct2 [OF run]
      have "b \<le> m - 1" if "epoch_end ids t b" "b \<le> head" for b
        using that 5 mono [of m b] by (cases "m \<le> b") (auto simp: epoch_end_def)
      note narrow = this
      have "?spec low high r"
      proof (rule conjI [OF conjunct1 [OF r(2)]]; rule
          narrow_interval [where P = "epoch_end ids t", OF conjunct2 [OF r(2), unfolded prev(2) [OF \<open>0 < m\<close>]]])
        fix b
        assume "epoch_end ids t b" "unat low \<le> b" "b \<le> unat high"
        then show "unat low \<le> b \<and> b \<le> m - 1"
          using narrow [of b] less.prems by simp
      qed (use le in simp_all)
      moreover have "search_loop c (of_nat t) low high = Inr (of_nat r)"
        unfolding unfold prev(1) [OF \<open>0 < m\<close>] using 5 r(1) by simp
      ultimately show ?thesis by blast
    qed
  qed
qed

lemma last_justified_block_finds:
  assumes chain: "id_chain c head ids" and t: "t + 1 < 2 ^ 64"
  shows "\<exists>r\<le>head. last_justified_block c (of_nat t) = Inr (of_nat r)
    \<and> (\<forall>b. b \<le> head \<and> epoch_end ids t b \<longleftrightarrow> b = r \<and> 0 < r)"
proof -
  obtain h where h: "get_head c = Inr h" "unat (hdr_number h) = head"
    and con: "connected c" using chain by (auto simp: id_chain_def)
  obtain r where r: "search_loop c (of_nat t) 0 (hdr_number h) = Inr (of_nat r) \<and> r \<le> head
      \<and> (\<forall>b. unat (0 :: u32) \<le> b \<and> b \<le> unat (hdr_number h) \<and> epoch_end ids t b \<longleftrightarrow> b = r \<and> 0 < r)"
    using search_loop_correct [OF chain t, of "hdr_number h" 0] h(2) by blast
  then show ?thesis using con h by (intro exI [of _ r]) (simp add: last_justified_block_def)
qed

section \<open>All epoch ends of a range\<close>

lemma last_justified_block_at:
  assumes "id_chain c head ids" and "epoch_end ids t b" and "b \<le> head" and "t + 1 < 2 ^ 64"
  shows "last_justified_block c (of_nat t) = Inr (of_nat b)"
proof -
  obtain r where r: "last_justified_block c (of_nat t) = Inr (of_nat r)"
    "\<forall>b. b \<le> head \<and> epoch_end ids t b \<longleftrightarrow> b = r \<and> 0 < r"
    using last_justified_block_finds [OF assms(1,4)] by blast
  then show ?thesis using r(2) [rule_format, of b] assms(2,3) by simp
qed

text \<open>The ids grow by at most one per block.\<close>

definition unit_steps :: "nat \<Rightarrow> (nat \<Rightarrow> nat) \<Rightarrow> bool" where
  "unit_steps head ids \<longleftrightarrow> (\<forall>i<head. ids (Suc i) \<le> ids i + 1)"

definition epoch_ends :: "(nat \<Rightarrow> nat) \<Rightarrow> nat \<Rightarrow> nat \<Rightarrow> nat set" where
  "epoch_ends ids p n = {b. p < b \<and> b \<le> n \<and> (\<exists>t. epoch_end ids t b)}"

text \<open>After a block \<open>p\<close>, the first change of the set ends the epoch of \<open>p\<close>.\<close>

lemma first_epoch_end:
  assumes "id_chain c head ids" "unit_steps head ids"
  shows "n \<le> head \<Longrightarrow> p \<le> n \<Longrightarrow> ids p < ids n \<Longrightarrow> \<exists>b. p < b \<and> b \<le> n \<and> epoch_end ids (ids p) b"
proof (induction n)
  case (Suc n)
  have mono: "ids i \<le> ids j" if "i \<le> j" "j \<le> head" for i j using assms(1) that by (simp add: id_chain_def)
  have "p \<le> n" using Suc.prems by (cases "p = Suc n") auto
  show ?case
  proof (cases "ids p < ids n")
    case True
    then show ?thesis using Suc.IH Suc.prems(1) \<open>p \<le> n\<close> by (meson Suc_leD le_SucI)
  next
    case False
    then have "ids n = ids p" using mono [OF \<open>p \<le> n\<close>] Suc.prems(1) by simp
    moreover have "ids (Suc n) = ids n + 1"
      using assms(2) Suc.prems \<open>ids n = ids p\<close> by (auto simp: unit_steps_def dest!: spec [of _ n])
    ultimately show ?thesis using \<open>p \<le> n\<close> by (intro exI [of _ "Suc n"]) (simp add: epoch_end_def)
  qed
qed simp

lemma era_loop_correct:
  assumes chain: "id_chain c head ids" and steps: "unit_steps head ids" and stop: "unat stop \<le> head"
    and top: "ids head + 1 < 2 ^ 64"
  shows "p \<le> head \<Longrightarrow>
    \<exists>ends. era_loop c stop cur (of_nat (ids p)) acc = Inr (acc @ ends)
      \<and> (if cur < stop then unat ` set ends = epoch_ends ids p (unat stop) else ends = [])"
proof (induction "head - p" arbitrary: p cur acc rule: less_induct)
  case less
  have mono: "ids i \<le> ids j" if "i \<le> j" "j \<le> head" for i j using chain that by (simp add: id_chain_def)
  show ?case
  proof (cases "cur < stop")
    case False
    then show ?thesis by (subst era_loop.simps) simp
  next
    case True
    have "ids p + 1 < 2 ^ 64" using mono [OF less.prems] top by simp
    then obtain r where r: "r \<le> head" "last_justified_block c (of_nat (ids p)) = Inr (of_nat r)"
      and only: "\<forall>b. b \<le> head \<and> epoch_end ids (ids p) b \<longleftrightarrow> b = r \<and> 0 < r"
      using last_justified_block_finds [OF chain] by blast
    have head: "head < 2 ^ 32" using chain by (simp add: id_chain_def)
    have ur: "unat (of_nat r :: u32) = r" using r(1) head by (intro unat_of_nat_small) simp
    have r0: "(of_nat r :: u32) = 0 \<longleftrightarrow> r = 0" unfolding word_unat_eq_iff ur by simp
    have rle: "(of_nat r :: u32) \<le> stop \<longleftrightarrow> r \<le> unat stop" by (simp add: word_le_nat_alt ur)
    have none_before: "ids b = ids p" if b: "p \<le> b" "b \<le> head" "r = 0 \<or> b < r" for b
    proof (rule ccontr)
      assume "ids b \<noteq> ids p"
      then have "ids p < ids b" using mono [OF b(1,2)] by simp
      then obtain b' where "p < b'" "b' \<le> b" "epoch_end ids (ids p) b'"
        using first_epoch_end [OF chain steps b(2,1)] by blast
      then have "b' = r" "0 < r" using only b(2) by (meson order_trans)+
      with \<open>b' \<le> b\<close> b(3) show False by auto
    qed
    have no_end: "\<not> epoch_end ids t b" if "p < b" "b \<le> head" "r = 0 \<or> b < r" for t b
    proof -
      have "ids b = ids p" using none_before that by simp
      moreover have "ids (b - 1) = ids p" using none_before [of "b - 1"] that by auto
      ultimately show ?thesis by (auto simp: epoch_end_def)
    qed
    consider "r = 0" | "0 < r" "unat stop < r" | "0 < r" "r \<le> unat stop" by linarith
    then show ?thesis
    proof cases
      case 1
      then have "epoch_ends ids p (unat stop) = {}" using no_end stop by (auto simp: epoch_ends_def)
      then show ?thesis using True 1 r r0 by (subst era_loop.simps) auto
    next
      case 2
      then have "epoch_ends ids p (unat stop) = {}" using no_end stop by (fastforce simp: epoch_ends_def)
      moreover have "era_loop c stop cur (of_nat (ids p)) acc = Inr (acc @ [])"
        using True 2 r r0 rle by (subst era_loop.simps) auto
      ultimately show ?thesis using True by (intro exI [of _ "[]"]) auto
    next
      case 3
      have end_r: "epoch_end ids (ids p) r" using only 3(1) by blast
      have "p < r"
      proof (rule ccontr)
        assume "\<not> p < r"
        then show False using mono [of r p] less.prems end_r by (simp add: epoch_end_def)
      qed
      have next_era: "add_ck (of_nat (ids p) :: u64) 1 = Inr (of_nat (ids r))"
      proof -
        have "unat (of_nat (ids p) :: u64) = ids p" using \<open>ids p + 1 < 2 ^ 64\<close> by (intro unat_of_nat_small) simp
        then show ?thesis using \<open>ids p + 1 < 2 ^ 64\<close> end_r by (simp add: add_ck_def epoch_end_def)
      qed
      have "head - r < head - p" using \<open>p < r\<close> r(1) by linarith
      from less.hyps [OF this r(1), of "of_nat r" "acc @ [of_nat r]"] obtain ends
        where run: "era_loop c stop (of_nat r) (of_nat (ids r)) (acc @ [of_nat r]) = Inr ((acc @ [of_nat r]) @ ends)"
          and ends: "if (of_nat r :: u32) < stop then unat ` set ends = epoch_ends ids r (unat stop) else ends = []"
        by blast
      have "epoch_ends ids p (unat stop) = insert r (epoch_ends ids r (unat stop))"
      proof (intro set_eqI iffI)
        fix b
        assume "b \<in> epoch_ends ids p (unat stop)"
        then show "b \<in> insert r (epoch_ends ids r (unat stop))"
          using no_end [of b] stop by (auto simp: epoch_ends_def not_less_iff_gr_or_eq)
      qed (use \<open>p < r\<close> 3 end_r in \<open>auto simp: epoch_ends_def\<close>)
      moreover have "unat ` set ends = epoch_ends ids r (unat stop)"
      proof (cases "(of_nat r :: u32) < stop")
        case False
        then have "unat stop \<le> r" by (simp add: word_less_nat_alt ur)
        then have "epoch_ends ids r (unat stop) = {}" by (auto simp: epoch_ends_def)
        with False ends show ?thesis by simp
      qed (use ends in simp)
      moreover have "era_loop c stop cur (of_nat (ids p)) acc = Inr (acc @ of_nat r # ends)"
        using True 3 r r0 rle next_era run by (subst era_loop.simps) auto
      ultimately show ?thesis using True ur by (intro exI [of _ "of_nat r # ends"]) auto
    qed
  qed
qed

lemma find_justifications_eq:
  assumes chain: "id_chain c head ids" and steps: "unit_steps head ids" and top: "ids head + 1 < 2 ^ 64"
    and range: "0 < start" "unat start \<le> head" "unat stop \<le> head"
    and redis: "get_blocks_in_range c start stop = Inr stored"
  shows "\<exists>ends. find_justifications_in_range c start stop = Inr (sort (stored @ ends))
    \<and> (if start < stop then unat ` set ends = epoch_ends ids (unat start - 1) (unat stop) else ends = [])"
proof -
  have pos: "0 < unat start" using range(1) by (simp add: word_less_nat_alt)
  have before: "sub_ck start 1 = Inr (of_nat (unat start - 1))"
  proof -
    have "(1 :: u32) \<le> start" using pos by (simp add: word_le_nat_alt)
    moreover have "start - 1 = of_nat (unat start - 1)" using pos by (simp add: of_nat_diff)
    ultimately show ?thesis by (simp add: sub_ck_def)
  qed
  have "unat start - 1 \<le> head" using range(2) by simp
  then have id: "get_authority_set_id c (of_nat (unat start - 1)) = Inr (of_nat (ids (unat start - 1)))"
    and con: "connected c" using chain by (auto simp: id_chain_def)
  obtain ends where run: "era_loop c stop start (of_nat (ids (unat start - 1))) [] = Inr ends"
    and ends: "if start < stop then unat ` set ends = epoch_ends ids (unat start - 1) (unat stop) else ends = []"
    using era_loop_correct [OF chain steps range(3) top \<open>unat start - 1 \<le> head\<close>, of start "[]"] by auto
  have "find_justifications_in_range c start stop = Inr (sort (stored @ ends))"
    using redis con id before run by (simp add: find_justifications_in_range_def)
  with ends show ?thesis by blast
qed

section \<open>Properties\<close>

text \<open>C39. On a chain whose set ids start at 0 and never decrease, the binary search ends without an
  error and returns the block at which set \<open>t\<close> hands over to set \<open>t + 1\<close>, if there is one, and 0 otherwise.\<close>

theorem last_justified_block_correct:
  assumes "id_chain c head ids" and "t + 1 < 2 ^ 64"
  shows "\<exists>r\<le>head. last_justified_block c (of_nat t) = Inr (of_nat r)
    \<and> (\<forall>b. b \<le> head \<and> epoch_end ids t b \<longleftrightarrow> b = r \<and> 0 < r)"
  using assms by (rule last_justified_block_finds)

text \<open>C40. The justified blocks of a range of at least two blocks, of a chain on which every set gets its
  own epoch: the result is sorted and consists of the blocks in Redis and all epoch ends from the start
  to the end of the range, inclusive.\<close>

theorem find_justifications_complete:
  assumes "id_chain c head ids" and "unit_steps head ids" and "ids head + 1 < 2 ^ 64"
    and "0 < start" and "start < stop" and "unat stop \<le> head"
    and "get_blocks_in_range c start stop = Inr stored"
  shows "\<exists>bs. find_justifications_in_range c start stop = Inr bs \<and> sorted bs
    \<and> unat ` set bs = unat ` set stored \<union> {b. unat start \<le> b \<and> b \<le> unat stop \<and> (\<exists>t. epoch_end ids t b)}"
proof -
  have le: "unat start \<le> head" "0 < unat start" using assms(4-6) by (simp_all add: word_less_nat_alt)
  obtain ends where "find_justifications_in_range c start stop = Inr (sort (stored @ ends))"
    and "unat ` set ends = epoch_ends ids (unat start - 1) (unat stop)"
    using find_justifications_eq [OF assms(1-4) le(1) assms(6,7)] assms(5) by auto
  moreover have "epoch_ends ids (unat start - 1) (unat stop)
      = {b. unat start \<le> b \<and> b \<le> unat stop \<and> (\<exists>t. epoch_end ids t b)}"
    using le(2) by (auto simp: epoch_ends_def)
  ultimately show ?thesis by (intro exI [of _ "sort (stored @ ends)"]) (simp add: image_Un)
qed

text \<open>For a range of a single block the loop over the eras is not entered: an epoch end is not
  found unless Redis holds it, although the range is documented as inclusive.\<close>

theorem find_justifications_single_block:
  assumes "id_chain c head ids" and "unit_steps head ids" and "ids head + 1 < 2 ^ 64"
    and "0 < start" and "unat start \<le> head" and "get_blocks_in_range c start start = Inr stored"
  shows "find_justifications_in_range c start start = Inr (sort stored)"
  using find_justifications_eq [OF assms(1-5) assms(5,6)] by auto

text \<open>A chain of ten blocks whose set changes at the blocks 4 and 8.\<close>

definition example_ids :: "nat \<Rightarrow> nat" where
  "example_ids i = (if i < 4 then 0 else if i < 8 then 1 else 2)"

definition example_client :: client where
  "example_client = toy_client numbered_header 10 example_ids (\<lambda>i. []) (\<lambda>m. m)"

lemma example_id_chain: "id_chain example_client 10 example_ids" "unit_steps 10 example_ids"
proof -
  have con: "connected example_client"
    by (auto simp: connected_iff example_client_def toy_client_def Let_def intro: exI [of _ 2])
  then have "\<exists>h. get_head example_client = Inr h \<and> unat (hdr_number h) = 10"
    by (simp add: get_head_def) (simp add: example_client_def toy_client_def Let_def numbered_header_def)
  moreover have "get_authority_set_id example_client (of_nat i) = Inr (of_nat (example_ids i))" if "i \<le> 10" for i
    unfolding example_client_def by (rule toy_client_simps) (use that in simp)
  ultimately show "id_chain example_client 10 example_ids"
    using con by (auto simp: id_chain_def example_ids_def)
  show "unit_steps 10 example_ids" by (simp add: unit_steps_def example_ids_def)
qed

lemma example_stored: "get_blocks_in_range example_client a b = Inr []"
  by (simp add: get_blocks_in_range_def get_connection_def MAX_RECONNECT_ATTEMPTS_def example_client_def
      toy_client_def Let_def upt_rec)

theorem last_justified_block_correct_witness:
  "last_justified_block example_client 0 = Inr 4"
proof -
  have "epoch_end example_ids 0 4" by (simp add: epoch_end_def example_ids_def)
  moreover obtain r where "last_justified_block example_client (of_nat 0) = Inr (of_nat r)"
    and r: "\<forall>b. b \<le> 10 \<and> epoch_end example_ids 0 b \<longleftrightarrow> b = r \<and> 0 < r"
    using last_justified_block_correct [OF example_id_chain(1), of 0] by auto
  ultimately show ?thesis using r [rule_format, of 4] by auto
qed

theorem find_justifications_complete_witness:
  "\<exists>bs. find_justifications_in_range example_client 4 8 = Inr bs \<and> sorted bs
    \<and> unat ` set bs = {b. 4 \<le> b \<and> b \<le> 8 \<and> (\<exists>t. epoch_end example_ids t b)}"
  using find_justifications_complete [OF example_id_chain _ _ _ _ example_stored, of 4 8]
  by (simp add: example_ids_def word_less_nat_alt)

theorem find_justifications_single_block_witness:
  "find_justifications_in_range example_client 4 4 = Inr [] \<and> epoch_end example_ids 0 4"
  using find_justifications_single_block [OF example_id_chain _ _ _ example_stored, of 4]
  by (simp add: example_ids_def word_less_nat_alt epoch_end_def)

end
