(* ===== verification/Hints.thy ===== *)
theory Hints
  imports Fetcher Circuits Epochs
begin

text \<open>
  The hints that hand the fetcher's data to the circuits (\<open>HintSimpleJustification\<close> of
  \<open>circuits/builder/justification.rs\<close>) and what the circuits still reject of it.
\<close>

section \<open>The justification hint\<close>

text \<open>\<open>expect\<close> on an error value; a panic inside the call stays what it is.\<close>

definition expect_failed :: "'a host \<Rightarrow> 'a host" where
  "expect_failed m = (case m of Inl (Failed e) \<Rightarrow> Inl Unwrap_none | _ \<Rightarrow> m)"

lemma expect_failed_Inr [simp]: "expect_failed m = Inr x \<longleftrightarrow> m = Inr x"
  by (auto simp: expect_failed_def split: sum.splits host_error.splits)

definition signature_of_bytes :: "byte list \<Rightarrow> signature" where
  "signature_of_bytes sig = \<lparr>sig_r = segment 0 32 sig, sig_s = le_nat (segment 32 64 sig)\<rparr>"

text \<open>The signature of a slot is checked unless the slot did not sign.\<close>

definition check_slot :: "client \<Rightarrow> circuit_justification \<Rightarrow> nat \<Rightarrow> unit host" where
  "check_slot c d i =
     bind_h (nth_h (cj_validator_signed d) i) (\<lambda>signed.
     if \<not> signed then Inr ()
     else bind_h (nth_h (cj_pubkeys d) i) (\<lambda>pubkey.
       bind_h (nth_h (cj_signatures d) i) (\<lambda>sig.
       verify_signature c pubkey (cj_signed_message d) sig)))"

text \<open>The value of an array variable must have its length: writing more slots panics.\<close>

definition hint_simple_justification :: "client \<Rightarrow> nat \<Rightarrow> u32 \<Rightarrow> u64 \<Rightarrow> justification host" where
  "hint_simple_justification c max_authorities n set_id =
     bind_h (expect_failed (get_justification_from_block c max_authorities n)) (\<lambda>d.
     bind_h (assert_h (Panic ''Authority set id does not match'') (\<not> cj_authority_set_id d \<noteq> set_id)) (\<lambda>_.
     bind_h (assert_h (Panic ''Encoded precommit is not the correct length'')
       (\<not> length (cj_signed_message d) \<noteq> ENCODED_PRECOMMIT_LENGTH)) (\<lambda>_.
     bind_h (map_h (check_slot c d) [0..<cj_num_authorities d]) (\<lambda>_.
     bind_h (assert_h (Panic ''array of the wrong length'') (length (cj_validator_signed d) = max_authorities
       \<and> length (cj_signatures d) = max_authorities \<and> length (cj_pubkeys d) = max_authorities)) (\<lambda>_.
     Inr \<lparr>encoded_precommit = cj_signed_message d, validator_signed = cj_validator_signed d,
       signatures = map signature_of_bytes (cj_signatures d), pubkeys = cj_pubkeys d,
       num_authorities = of_nat (cj_num_authorities d)\<rparr>)))))"

text \<open>The signature check of the fetcher accepts only what the circuit's Ed25519 gadget accepts, both
  use the same SHA-256, and the dummy key has the length of a key.\<close>

definition same_crypto :: "client \<Rightarrow> gadgets \<Rightarrow> bool" where
  "same_crypto c G \<longleftrightarrow> c_sha256 c = sha256 G \<and> length (c_dummy_key c) = 32
     \<and> (\<forall>pk m s. length s = 64 \<longrightarrow> c_verify c pk m s \<longrightarrow> sig_valid G pk m (signature_of_bytes s))"

section \<open>What a hinted justification satisfies\<close>

lemma map_h_unit_iff: "(\<exists>us. map_h f xs = Inr us) \<longleftrightarrow> (\<forall>x\<in>set xs. f x = Inr ())"
proof
  assume "\<exists>us. map_h f xs = Inr us"
  then show "\<forall>x\<in>set xs. f x = Inr ()"
    by (induction xs) (auto simp: bind_h_Inr_iff)
next
  assume "\<forall>x\<in>set xs. f x = Inr ()"
  then have "map_h f xs = Inr (map (\<lambda>_. ()) xs)" by (intro map_h_Inr) simp
  then show "\<exists>us. map_h f xs = Inr us" by blast
qed

lemma map_nth_take: "k \<le> length xs \<Longrightarrow> map ((!) xs) [0..<k] = take k xs"
  by (auto intro: nth_equalityI)

lemma from_block_InrD:
  assumes "get_justification_from_block c N n = Inr cj"
  obtains d where "get_justification_data c N n = Inr d"
    and "cj_num_authorities cj = sj_num_authorities d"
    and "cj_signed_message cj = sj_signed_message d"
    and "2 * sj_num_authorities d \<le> 3 * sj_voting_weight d"
    and "sj_num_authorities d \<le> length (sj_pubkeys d)"
    and "sj_num_authorities d \<le> length (sj_validator_signed d)"
    and "sj_num_authorities d \<le> length (sj_signatures d)"
    and "\<forall>i < sj_num_authorities d. length (sj_signatures d ! i) = 64"
    and "cj_pubkeys cj = take (sj_num_authorities d) (sj_pubkeys d)
           @ replicate (N - sj_num_authorities d) (c_dummy_key c)"
    and "cj_validator_signed cj = take (sj_num_authorities d) (sj_validator_signed d)
           @ replicate (N - sj_num_authorities d) False"
    and "cj_signatures cj = take (sj_num_authorities d) (sj_signatures d)
           @ replicate (N - sj_num_authorities d) (c_dummy_signature c)"
    and "cj_current_authority_set_hash cj = compute_authority_set_hash (c_sha256 c) (sj_pubkeys d)"
    and "get_authority_set_id c (n - 1) = Inr (cj_authority_set_id cj)"
  using assms
  by (auto simp: get_justification_from_block_def Let_def bind_h_Inr_iff padded_slots_iff comp_def sub_ck_def
      map_nth_take split: if_splits intro!: that)

lemma get_authorities_keys: "get_authorities c n = Inr ks \<Longrightarrow> \<forall>k\<in>set ks. length k = 32"
  by (auto simp: get_authorities_def bind_h_Inr_iff decode_authorities_Inr_iff)

lemma compressed_keys: "map_h compressed_key bs = Inr ks \<Longrightarrow> \<forall>k\<in>set ks. length k = 32"
  unfolding map_h_Inr_iff
  by (induction rule: list_all2_induct) (auto simp: compressed_key_def bind_h_Inr_iff)

lemma justification_data_keys:
  "get_justification_data c N n = Inr d \<Longrightarrow> \<forall>k\<in>set (sj_pubkeys d). length k = 32"
  by (auto simp: get_justification_data_def epoch_end_justification_data_def stored_justification_data_def
      bind_h_Inr_iff Let_def split: if_splits dest!: get_authorities_keys compressed_keys)

lemma hintedD:
  assumes "hint_simple_justification c N n set_id = Inr j"
  obtains d where "get_justification_data c N n = Inr d"
    and "get_authority_set_id c (n - 1) = Inr set_id"
    and "encoded_precommit j = sj_signed_message d" and "length (encoded_precommit j) = 53"
    and "num_authorities j = of_nat (sj_num_authorities d)"
    and "2 * sj_num_authorities d \<le> 3 * sj_voting_weight d"
    and "sj_num_authorities d \<le> length (sj_pubkeys d)"
    and "sj_num_authorities d \<le> length (sj_validator_signed d)"
    and "sj_num_authorities d \<le> length (sj_signatures d)"
    and "\<forall>i < sj_num_authorities d. length (sj_signatures d ! i) = 64
      \<and> (sj_validator_signed d ! i \<longrightarrow> c_verify c (sj_pubkeys d ! i) (sj_signed_message d) (sj_signatures d ! i))"
    and "pubkeys j = take (sj_num_authorities d) (sj_pubkeys d)
           @ replicate (N - sj_num_authorities d) (c_dummy_key c)"
    and "validator_signed j = take (sj_num_authorities d) (sj_validator_signed d)
           @ replicate (N - sj_num_authorities d) False"
    and "signatures j = map signature_of_bytes (take (sj_num_authorities d) (sj_signatures d)
           @ replicate (N - sj_num_authorities d) (c_dummy_signature c))"
proof -
  obtain cj us where cj: "get_justification_from_block c N n = Inr cj" "cj_authority_set_id cj = set_id"
    and len: "length (cj_signed_message cj) = 53"
    and sigs: "map_h (check_slot c cj) [0..<cj_num_authorities cj] = Inr us"
    and j: "j = \<lparr>encoded_precommit = cj_signed_message cj, validator_signed = cj_validator_signed cj,
       signatures = map signature_of_bytes (cj_signatures cj), pubkeys = cj_pubkeys cj,
       num_authorities = of_nat (cj_num_authorities cj)\<rparr>"
    using assms by (auto simp: hint_simple_justification_def bind_h_Inr_iff)
  obtain d where d: "get_justification_data c N n = Inr d"
    "cj_num_authorities cj = sj_num_authorities d" "cj_signed_message cj = sj_signed_message d"
    "2 * sj_num_authorities d \<le> 3 * sj_voting_weight d"
    "sj_num_authorities d \<le> length (sj_pubkeys d)" "sj_num_authorities d \<le> length (sj_validator_signed d)"
    "sj_num_authorities d \<le> length (sj_signatures d)"
    "\<forall>i < sj_num_authorities d. length (sj_signatures d ! i) = 64"
    "cj_pubkeys cj = take (sj_num_authorities d) (sj_pubkeys d)
       @ replicate (N - sj_num_authorities d) (c_dummy_key c)"
    "cj_validator_signed cj = take (sj_num_authorities d) (sj_validator_signed d)
       @ replicate (N - sj_num_authorities d) False"
    "cj_signatures cj = take (sj_num_authorities d) (sj_signatures d)
       @ replicate (N - sj_num_authorities d) (c_dummy_signature c)"
    "get_authority_set_id c (n - 1) = Inr (cj_authority_set_id cj)"
    by (rule from_block_InrD [OF cj(1)])
  have "check_slot c cj i = Inr ()" if "i < sj_num_authorities d" for i
    using sigs map_h_unit_iff [of "check_slot c cj" "[0..<cj_num_authorities cj]"] d(2) that by auto
  then have ver: "sj_validator_signed d ! i \<longrightarrow>
      c_verify c (sj_pubkeys d ! i) (sj_signed_message d) (sj_signatures d ! i)" if "i < sj_num_authorities d" for i
    using that d(3,5-7)
    by (fastforce simp: check_slot_def d(9-11) nth_append bind_h_Inr_iff verify_signature_def)
  show ?thesis
    by (rule that [OF d(1)]) (use d ver cj(2) len j in simp_all)
qed

lemma hinted_justification:
  assumes ok: "gadgets_ok G" and crypto: "same_crypto c G" and N: "0 < N" "3 * N < 2 ^ 32"
    and hint: "hint_simple_justification c N n set_id = Inr j"
    and fits: "length (validator_signed j) \<le> N"
  shows "wf_justification N j"
    and "verify_simple_justification G n bh set_id set_hash j = Some () \<longleftrightarrow>
      num_authorities j \<noteq> 0 \<and> set_hash = compute_authority_set_hash (c_sha256 c) (authorities_of j)
      \<and> length bh = 32
      \<and> (\<exists>round. encoded_precommit j = signed_message \<lparr>target_hash = bh, target_number = n\<rparr> round set_id)
      \<and> 2 * unat (num_authorities j) < 3 * card (active_slots (validator_signed j))"
proof -
  obtain d where d: "get_justification_data c N n = Inr d"
    "encoded_precommit j = sj_signed_message d" "length (encoded_precommit j) = 53"
    "num_authorities j = of_nat (sj_num_authorities d)"
    "sj_num_authorities d \<le> length (sj_pubkeys d)" "sj_num_authorities d \<le> length (sj_validator_signed d)"
    "sj_num_authorities d \<le> length (sj_signatures d)"
    and sigs: "\<forall>i < sj_num_authorities d. length (sj_signatures d ! i) = 64
      \<and> (sj_validator_signed d ! i \<longrightarrow> c_verify c (sj_pubkeys d ! i) (sj_signed_message d) (sj_signatures d ! i))"
    and eqs: "pubkeys j = take (sj_num_authorities d) (sj_pubkeys d)
           @ replicate (N - sj_num_authorities d) (c_dummy_key c)"
    "validator_signed j = take (sj_num_authorities d) (sj_validator_signed d)
           @ replicate (N - sj_num_authorities d) False"
    "signatures j = map signature_of_bytes (take (sj_num_authorities d) (sj_signatures d)
           @ replicate (N - sj_num_authorities d) (c_dummy_signature c))"
    by (rule hintedD [OF hint]) auto
  let ?n = "sj_num_authorities d"
  have n: "?n \<le> N" using fits d(6) by (simp add: eqs)
  have num: "unat (num_authorities j) = ?n"
    unfolding d(4) by (rule unat_of_nat_small) (use n N(2) in simp)
  show wf: "wf_justification N j"
    using d(3,5-7) n crypto justification_data_keys [OF d(1)]
    by (auto simp: wf_justification_def eqs same_crypto_def dest: in_set_takeD)
  have "sig_valid G (pubkeys j ! i) (encoded_precommit j) (signatures j ! i)"
    if "i \<in> active_slots (validator_signed j)" for i
  proof -
    have "i < ?n"
      using that d(6) by (auto simp: active_slots_def eqs nth_append split: if_splits)
    then show ?thesis
      using that sigs crypto d(2,5-7) by (simp add: active_slots_def eqs nth_append same_crypto_def)
  qed
  then show "verify_simple_justification G n bh set_id set_hash j = Some () \<longleftrightarrow>
      num_authorities j \<noteq> 0 \<and> set_hash = compute_authority_set_hash (c_sha256 c) (authorities_of j)
      \<and> length bh = 32
      \<and> (\<exists>round. encoded_precommit j = signed_message \<lparr>target_hash = bh, target_number = n\<rparr> round set_id)
      \<and> 2 * unat (num_authorities j) < 3 * card (active_slots (validator_signed j))"
    unfolding verify_simple_justification_iff [OF ok wf N] justified_def
    using crypto n N(2) by (auto simp: same_crypto_def num)
qed

section \<open>The justification of an epoch end block\<close>

text \<open>The node serves a finality proof of the epoch end block \<open>n\<close> with hash \<open>bh\<close>: its precommits are
  valid signatures of \<open>signers\<close> on one message of the set \<open>set_id\<close>, whose authorities are \<open>ks\<close>.\<close>

definition finality_proof :: "client \<Rightarrow> u32 \<Rightarrow> u64 \<Rightarrow> bytes32 \<Rightarrow> bytes32 list \<Rightarrow> bytes32 set \<Rightarrow> bool" where
  "finality_proof c n set_id bh ks signers \<longleftrightarrow>
     connected c \<and> 1 \<le> n \<and> unat set_id + 1 < 2 ^ 64
     \<and> get_authority_set_id c (n - 1) = Inr set_id \<and> get_authority_set_id c n = Inr (set_id + 1)
     \<and> get_authorities c (n - 1) = Inr ks \<and> length bh = 32
     \<and> (\<exists>gj ps. c_prove_finality c n = Some gj \<and> cm_precommits (gj_commit gj) = ps \<and> ps \<noteq> []
          \<and> sp_precommit (ps ! 0) = \<lparr>target_hash = bh, target_number = n\<rparr> \<and> signers = sp_id ` set ps
          \<and> (\<forall>p\<in>set ps. length (sp_signature p) = 64
               \<and> c_verify c (sp_id p) (signed_message \<lparr>target_hash = bh, target_number = n\<rparr> (gj_round gj) set_id)
                   (sp_signature p)))"

text \<open>The slots of the signers.\<close>

definition signer_slots :: "bytes32 list \<Rightarrow> bytes32 set \<Rightarrow> nat set" where
  "signer_slots ks signers = {i. i < length ks \<and> ks ! i \<in> signers}"

lemma active_slots_pad: "active_slots (xs @ replicate k False) = active_slots xs"
proof -
  have "i \<in> active_slots (xs @ replicate k False) \<longleftrightarrow> i \<in> active_slots xs" for i
  proof (cases "i < length xs")
    case True
    then show ?thesis by (simp add: active_slots_def nth_append)
  next
    case False
    then have "\<not> (xs @ replicate k False) ! i" if "i < length xs + k"
    proof -
      have "i - length xs < k" using that False by linarith
      then show ?thesis using False by (simp add: nth_append)
    qed
    with False show ?thesis by (simp add: active_slots_def)
  qed
  then show ?thesis by blast
qed

lemma card_signer_slots:
  "length (filter id (slot_signed m ks)) = card (signer_slots ks (dom m))"
proof -
  have "{i. i < length (slot_signed m ks) \<and> id (slot_signed m ks ! i)} = signer_slots ks (dom m)"
    by (auto simp: signer_slots_def)
  then show ?thesis unfolding length_filter_conv_card by simp
qed

text \<open>Justification data whose slots are the authorities \<open>ks\<close>, marked where \<open>signers\<close> signed \<open>msg\<close>.\<close>

definition signed_data ::
    "client \<Rightarrow> bytes32 list \<Rightarrow> bytes32 set \<Rightarrow> byte list \<Rightarrow> simple_justification_data \<Rightarrow> bool" where
  "signed_data c ks signers msg d \<longleftrightarrow> sj_pubkeys d = ks \<and> sj_num_authorities d = length ks
     \<and> sj_voting_weight d = card (signer_slots ks signers) \<and> sj_signed_message d = msg
     \<and> length (sj_signatures d) = length ks \<and> length (sj_validator_signed d) = length ks
     \<and> (\<forall>i<length ks. (sj_validator_signed d ! i \<longleftrightarrow> ks ! i \<in> signers)
          \<and> (if ks ! i \<in> signers then length (sj_signatures d ! i) = 64
               \<and> c_verify c (ks ! i) msg (sj_signatures d ! i)
             else sj_signatures d ! i = c_dummy_signature c))"

lemma signature_map_data:
  assumes valid: "\<forall>p\<in>set ps. length (sp_signature p) = 64 \<and> c_verify c (sp_id p) msg (sp_signature p)"
    and m: "m = signature_map (map (\<lambda>p. (sp_id p, sp_signature p)) ps)" and signers: "signers = sp_id ` set ps"
  shows "signed_data c ks signers msg \<lparr>sj_pubkeys = ks, sj_signatures = slot_signatures (c_dummy_signature c) m ks,
     sj_validator_signed = slot_signed m ks, sj_signed_message = msg,
     sj_voting_weight = length (filter id (slot_signed m ks)), sj_num_authorities = length ks\<rparr>"
proof -
  have dom: "dom m = signers" by (simp add: m signature_map_dom signers image_image)
  have "if ks ! i \<in> signers then \<exists>s. m (ks ! i) = Some s \<and> length s = 64 \<and> c_verify c (ks ! i) msg s
      else m (ks ! i) = None" for i
  proof (cases "m (ks ! i)")
    case None
    then have "ks ! i \<notin> signers" using dom by blast
    with None show ?thesis by simp
  next
    case (Some s)
    then have "ks ! i \<in> signers" "(ks ! i, s) \<in> set (map (\<lambda>p. (sp_id p, sp_signature p)) ps)"
      using dom m signature_map_Some by blast+
    with Some valid show ?thesis by auto
  qed
  then show ?thesis
    by (auto simp: signed_data_def card_signer_slots dom split: if_splits) (metis option.simps(5))+
qed

lemma epoch_end_data:
  assumes proof_: "finality_proof c n set_id bh ks signers" and size: "length ks \<le> N"
  obtains d round where "get_justification_data c N n = Inr d"
    and "signed_data c ks signers (signed_message \<lparr>target_hash = bh, target_number = n\<rparr> round set_id) d"
proof -
  obtain gj ps where gj: "c_prove_finality c n = Some gj" "cm_precommits (gj_commit gj) = ps" "ps \<noteq> []"
    "sp_precommit (ps ! 0) = \<lparr>target_hash = bh, target_number = n\<rparr>" "signers = sp_id ` set ps"
    and valid: "\<forall>p\<in>set ps. length (sp_signature p) = 64
       \<and> c_verify c (sp_id p) (signed_message \<lparr>target_hash = bh, target_number = n\<rparr> (gj_round gj) set_id)
           (sp_signature p)"
    using proof_ by (auto simp: finality_proof_def)
  let ?msg = "signed_message \<lparr>target_hash = bh, target_number = n\<rparr> (gj_round gj) set_id"
  let ?m = "signature_map (map (\<lambda>p. (sp_id p, sp_signature p)) ps)"
  have ok: "map_h (\<lambda>p. verify_signature c (sp_id p) ?msg (sp_signature p)) ps = Inr (map (\<lambda>_. ()) ps)"
    by (rule map_h_Inr) (use valid in \<open>simp add: verify_signature_def\<close>)
  have "add_ck set_id 1 = Inr (set_id + 1)" "sub_ck n 1 = Inr (n - 1)"
    using proof_ by (simp_all add: finality_proof_def add_ck_def sub_ck_def)
  then have "get_justification_data c N n = Inr \<lparr>sj_pubkeys = ks,
     sj_signatures = slot_signatures (c_dummy_signature c) ?m ks,
     sj_validator_signed = slot_signed ?m ks, sj_signed_message = ?msg,
     sj_voting_weight = length (filter id (slot_signed ?m ks)), sj_num_authorities = length ks\<rparr>"
    using proof_ gj size ok
    by (simp add: get_justification_data_def epoch_end_justification_data_def finality_proof_def Let_def)
  then show ?thesis by (rule that [OF _ signature_map_data [OF valid refl gj(5)]])
qed

lemma card_slots_le: "card (signer_slots ks signers) \<le> length ks"
proof -
  have "signer_slots ks signers \<subseteq> {..<length ks}" by (auto simp: signer_slots_def)
  then show ?thesis using card_mono [of "{..<length ks}"] by fastforce
qed

text \<open>From the data of a justification to the value of the hint.\<close>

lemma hint_of_data:
  assumes data: "get_justification_data c N n = Inr d" and signed: "signed_data c ks signers msg d"
    and ids: "1 \<le> n" "get_authority_set_id c (n - 1) = Inr set_id" and msg: "length msg = 53"
    and size: "length ks \<le> N" "N < 2 ^ 32" and dummy: "length (c_dummy_signature c) = 64"
    and weight: "2 * length ks \<le> 3 * card (signer_slots ks signers)"
  obtains j where "hint_simple_justification c N n set_id = Inr j"
    and "length (validator_signed j) = N" and "num_authorities j = of_nat (length ks)"
    and "authorities_of j = ks" and "active_slots (validator_signed j) = signer_slots ks signers"
    and "encoded_precommit j = msg"
proof -
  have d: "sj_pubkeys d = ks" "sj_num_authorities d = length ks"
    "sj_voting_weight d = card (signer_slots ks signers)" "sj_signed_message d = msg"
    "length (sj_signatures d) = length ks" "length (sj_validator_signed d) = length ks"
    and slots: "\<forall>i<length ks. (sj_validator_signed d ! i \<longleftrightarrow> ks ! i \<in> signers)
      \<and> (if ks ! i \<in> signers then length (sj_signatures d ! i) = 64
           \<and> c_verify c (ks ! i) (sj_signed_message d) (sj_signatures d ! i)
         else sj_signatures d ! i = c_dummy_signature c)"
    using signed by (simp_all add: signed_data_def)
  have small: "card (signer_slots ks signers) * 3 < 2 ^ 64" "length ks * 2 < 2 ^ 64"
    using size card_slots_le [of ks signers] by simp_all
  have sigs: "\<forall>i<length ks. length (sj_signatures d ! i) = 64"
    using slots dummy by (metis (full_types))
  define cj where "cj = \<lparr>cj_authority_set_id = set_id, cj_signed_message = sj_signed_message d,
       cj_validator_signed = sj_validator_signed d @ replicate (N - length ks) False,
       cj_pubkeys = ks @ replicate (N - length ks) (c_dummy_key c),
       cj_signatures = sj_signatures d @ replicate (N - length ks) (c_dummy_signature c),
       cj_num_authorities = length ks,
       cj_current_authority_set_hash = compute_authority_set_hash (c_sha256 c) ks\<rparr>"
  have "map_h (padded_slot d) [0..<length ks]
      = Inr (map (\<lambda>i. (ks ! i, sj_signatures d ! i, sj_validator_signed d ! i)) [0..<length ks])"
    using sigs by (subst padded_slots_iff) (simp add: d)
  then have cj: "get_justification_from_block c N n = Inr cj"
    using data d small weight ids map_nth_take [of "length ks"]
    by (auto simp: get_justification_from_block_def Let_def sub_ck_def cj_def comp_def map_nth_take)
  have "check_slot c cj i = Inr ()" if "i < length ks" for i
    using that slots d by (auto simp: check_slot_def cj_def nth_append verify_signature_def)
  then have "map_h (check_slot c cj) [0..<length ks] = Inr (map (\<lambda>_. ()) [0..<length ks])"
    by (intro map_h_Inr) simp
  then have hint: "hint_simple_justification c N n set_id = Inr
      \<lparr>encoded_precommit = sj_signed_message d, validator_signed = cj_validator_signed cj,
       signatures = map signature_of_bytes (cj_signatures cj), pubkeys = cj_pubkeys cj,
       num_authorities = of_nat (length ks)\<rparr>" (is "_ = Inr ?j")
    using cj msg size d(5,6) by (simp add: hint_simple_justification_def expect_failed_def cj_def d)
  have num: "unat (of_nat (length ks) :: u32) = length ks"
    by (rule unat_of_nat_small) (use size in simp)
  have "active_slots (validator_signed ?j) = signer_slots ks signers"
    using slots d(6) by (simp add: cj_def active_slots_pad) (auto simp: active_slots_def signer_slots_def)
  then show ?thesis
    by (intro that [OF hint]) (use size d in \<open>simp_all add: cj_def authorities_of_def num\<close>)
qed

lemma hint_epoch_end:
  assumes proof_: "finality_proof c n set_id bh ks signers" and size: "length ks \<le> N" "N < 2 ^ 32"
    and dummy: "length (c_dummy_signature c) = 64"
    and weight: "2 * length ks \<le> 3 * card (signer_slots ks signers)"
  obtains j round where "hint_simple_justification c N n set_id = Inr j"
    and "length (validator_signed j) = N" and "num_authorities j = of_nat (length ks)"
    and "authorities_of j = ks" and "active_slots (validator_signed j) = signer_slots ks signers"
    and "encoded_precommit j = signed_message \<lparr>target_hash = bh, target_number = n\<rparr> round set_id"
proof -
  obtain d round where data: "get_justification_data c N n = Inr d"
    and signed: "signed_data c ks signers (signed_message \<lparr>target_hash = bh, target_number = n\<rparr> round set_id) d"
    by (rule epoch_end_data [OF proof_ size(1)])
  have "1 \<le> n" "get_authority_set_id c (n - 1) = Inr set_id"
    "length (signed_message \<lparr>target_hash = bh, target_number = n\<rparr> round set_id) = 53"
    using proof_ by (simp_all add: finality_proof_def length_signed_message)
  from hint_of_data [OF data signed this size dummy weight] show ?thesis using that by blast
qed

text \<open>With more than two thirds of the slots marked, the circuit accepts what the hint returns.\<close>

lemma data_accepted:
  assumes ok: "gadgets_ok G" "same_crypto c G" and dummy: "length (c_dummy_signature c) = 64"
    and data: "get_justification_data c N n = Inr d"
    and signed: "signed_data c ks signers (signed_message \<lparr>target_hash = bh, target_number = n\<rparr> round set_id) d"
    and ids: "1 \<le> n" "get_authority_set_id c (n - 1) = Inr set_id" and bh: "length bh = 32"
    and size: "length ks \<le> N" "3 * N < 2 ^ 32" and weight: "2 * length ks < 3 * card (signer_slots ks signers)"
  shows "\<exists>j. hint_simple_justification c N n set_id = Inr j \<and> wf_justification N j
    \<and> verify_simple_justification G n bh set_id (compute_authority_set_hash (c_sha256 c) ks) j = Some ()"
proof -
  obtain j where j: "hint_simple_justification c N n set_id = Inr j" "length (validator_signed j) = N"
    "num_authorities j = of_nat (length ks)" "authorities_of j = ks"
    "active_slots (validator_signed j) = signer_slots ks signers"
    "encoded_precommit j = signed_message \<lparr>target_hash = bh, target_number = n\<rparr> round set_id"
    by (rule hint_of_data [OF data signed ids _ size(1) _ dummy]) (use bh size weight in \<open>auto simp: length_signed_message\<close>)
  have "signer_slots ks signers \<noteq> {}" using weight by auto
  then have "0 < length ks" by (auto simp: signer_slots_def)
  moreover have num: "unat (num_authorities j) = length ks"
    unfolding j(3) by (rule unat_of_nat_small) (use size in simp)
  ultimately have "num_authorities j \<noteq> 0" "0 < N" using size(1) by (auto intro: gr0I)
  then show ?thesis
    using hinted_justification [OF ok _ size(2) j(1)] j bh weight num by auto
qed

lemma epoch_end_hint_accepted:
  assumes "gadgets_ok G" and "same_crypto c G" and "length (c_dummy_signature c) = 64"
    and "finality_proof c n set_id bh ks signers" and "length ks \<le> N" and "3 * N < 2 ^ 32"
    and "2 * length ks < 3 * card (signer_slots ks signers)"
  shows "\<exists>j. hint_simple_justification c N n set_id = Inr j \<and> wf_justification N j
    \<and> verify_simple_justification G n bh set_id (compute_authority_set_hash (c_sha256 c) ks) j = Some ()"
proof -
  obtain d round where "get_justification_data c N n = Inr d"
    "signed_data c ks signers (signed_message \<lparr>target_hash = bh, target_number = n\<rparr> round set_id) d"
    by (rule epoch_end_data [OF assms(4,5)])
  from data_accepted [OF assms(1-3) this _ _ _ assms(5-7)] show ?thesis
    using assms(4) by (simp add: finality_proof_def)
qed

section \<open>A justification in Redis\<close>

text \<open>The branch of a block that does not end an epoch reads the one stored in Redis.\<close>

lemma stored_branch:
  assumes "connected c" and "get_connection c = Inr ()" and "1 \<le> n" and "unat set_id + 1 < 2 ^ 64"
    and "get_authority_set_id c (n - 1) = Inr set_id" and "get_authority_set_id c n = Inr set_id"
    and "c_stored c n = Some (Some (j # js))" and "\<forall>k\<in>set (st_pubkeys j). length k = 32"
  shows "get_justification_data c N n = Inr \<lparr>sj_pubkeys = st_pubkeys j, sj_signatures = st_signatures j,
    sj_validator_signed = st_validator_signed j, sj_signed_message = st_signed_message j,
    sj_voting_weight = length (filter id (st_validator_signed j)), sj_num_authorities = st_num_authorities j\<rparr>"
proof -
  have "map_h compressed_key ks = Inr ks" if "\<forall>k\<in>set ks. length k = 32" for ks
    using that by (induction ks) (simp_all add: compressed_key_def)
  moreover have "sub_ck n 1 = Inr (n - 1)" "add_ck set_id 1 = Inr (set_id + 1)"
    using assms(3,4) by (simp_all add: sub_ck_def add_ck_def)
  ultimately show ?thesis
    using assms by (simp add: get_justification_data_def stored_justification_data_def get_justification_def
        nth_h_def connected_expect)
qed

text \<open>Redis holds a justification of the block \<open>n\<close> with hash \<open>bh\<close>, which does not end the epoch of the set
  \<open>set_id\<close>: one slot per authority of \<open>ks\<close>, with a valid signature where the authority is one of \<open>signers\<close>.\<close>

definition stored_proof :: "client \<Rightarrow> u32 \<Rightarrow> u64 \<Rightarrow> bytes32 \<Rightarrow> bytes32 list \<Rightarrow> bytes32 set \<Rightarrow> bool" where
  "stored_proof c n set_id bh ks signers \<longleftrightarrow>
     connected c \<and> get_connection c = Inr () \<and> 1 \<le> n \<and> unat set_id + 1 < 2 ^ 64
     \<and> get_authority_set_id c (n - 1) = Inr set_id \<and> get_authority_set_id c n = Inr set_id
     \<and> (\<forall>k\<in>set ks. length k = 32) \<and> length bh = 32
     \<and> (\<exists>j js round. let msg = signed_message \<lparr>target_hash = bh, target_number = n\<rparr> round set_id in
          c_stored c n = Some (Some (j # js)) \<and> st_pubkeys j = ks \<and> st_num_authorities j = length ks
          \<and> st_signed_message j = msg \<and> length (st_signatures j) = length ks \<and> length (st_validator_signed j) = length ks
          \<and> (\<forall>i<length ks. (st_validator_signed j ! i \<longleftrightarrow> ks ! i \<in> signers)
               \<and> (if ks ! i \<in> signers then length (st_signatures j ! i) = 64 \<and> c_verify c (ks ! i) msg (st_signatures j ! i)
                  else st_signatures j ! i = c_dummy_signature c)))"

text \<open>Either way a justification of the block can be fetched.\<close>

definition served_finality :: "client \<Rightarrow> u32 \<Rightarrow> u64 \<Rightarrow> bytes32 \<Rightarrow> bytes32 list \<Rightarrow> bytes32 set \<Rightarrow> bool" where
  "served_finality c n set_id bh ks signers \<longleftrightarrow>
     finality_proof c n set_id bh ks signers \<or> stored_proof c n set_id bh ks signers"

lemma stored_proof_data:
  assumes "stored_proof c n set_id bh ks signers"
  shows "\<exists>d round. get_justification_data c N n = Inr d
    \<and> signed_data c ks signers (signed_message \<lparr>target_hash = bh, target_number = n\<rparr> round set_id) d"
proof -
  obtain j js round where j: "c_stored c n = Some (Some (j # js))" "st_pubkeys j = ks" "st_num_authorities j = length ks"
    "st_signed_message j = signed_message \<lparr>target_hash = bh, target_number = n\<rparr> round set_id"
    "length (st_signatures j) = length ks" "length (st_validator_signed j) = length ks"
    and slots: "\<forall>i<length ks. (st_validator_signed j ! i \<longleftrightarrow> ks ! i \<in> signers)
      \<and> (if ks ! i \<in> signers then length (st_signatures j ! i) = 64 \<and> c_verify c (ks ! i) (st_signed_message j) (st_signatures j ! i)
         else st_signatures j ! i = c_dummy_signature c)"
    using assms unfolding stored_proof_def Let_def by auto
  have "{i. i < length (st_validator_signed j) \<and> id (st_validator_signed j ! i)} = signer_slots ks signers"
    using slots j(6) by (auto simp: signer_slots_def)
  then have weight: "length (filter id (st_validator_signed j)) = card (signer_slots ks signers)"
    unfolding length_filter_conv_card by simp
  have "connected c" "get_connection c = Inr ()" "1 \<le> n" "unat set_id + 1 < 2 ^ 64"
    "get_authority_set_id c (n - 1) = Inr set_id" "get_authority_set_id c n = Inr set_id" "\<forall>k\<in>set (st_pubkeys j). length k = 32"
    using assms j(2) by (simp_all add: stored_proof_def)
  note data = stored_branch [OF this(1-6) j(1) this(7), of N]
  have "signed_data c ks signers (st_signed_message j) \<lparr>sj_pubkeys = st_pubkeys j, sj_signatures = st_signatures j,
    sj_validator_signed = st_validator_signed j, sj_signed_message = st_signed_message j,
    sj_voting_weight = length (filter id (st_validator_signed j)), sj_num_authorities = st_num_authorities j\<rparr>"
    using slots by (simp add: signed_data_def weight j(2,3,5,6))
  then show ?thesis using data unfolding j(4) by blast
qed

lemma served_hint_accepted:
  assumes "gadgets_ok G" and "same_crypto c G" and "length (c_dummy_signature c) = 64"
    and "served_finality c n set_id bh ks signers" and "length ks \<le> N" and "3 * N < 2 ^ 32"
    and "2 * length ks < 3 * card (signer_slots ks signers)"
  shows "\<exists>j. hint_simple_justification c N n set_id = Inr j \<and> wf_justification N j
    \<and> verify_simple_justification G n bh set_id (compute_authority_set_hash (c_sha256 c) ks) j = Some ()"
  using assms(4) unfolding served_finality_def
proof
  assume "finality_proof c n set_id bh ks signers"
  then show ?thesis by (rule epoch_end_hint_accepted [OF assms(1-3) _ assms(5-7)])
next
  assume stored: "stored_proof c n set_id bh ks signers"
  then obtain d round where "get_justification_data c N n = Inr d"
    "signed_data c ks signers (signed_message \<lparr>target_hash = bh, target_number = n\<rparr> round set_id) d"
    using stored_proof_data by blast
  from data_accepted [OF assms(1-3) this _ _ _ assms(5-7)] show ?thesis
    using stored by (simp add: stored_proof_def)
qed

section \<open>A node that serves a finality proof\<close>

text \<open>The set of \<open>ks\<close> hands over at block 4, whose finality proof holds the precommits of \<open>signers\<close>
  on the hash \<open>bh\<close>; the headers are \<open>hdr\<close> and the authorities stored at block \<open>i\<close> are \<open>auths i\<close>.\<close>

definition toy_sign :: "bytes32 \<Rightarrow> bytes32 \<Rightarrow> byte list" where
  "toy_sign k bh = replicate 32 0 @ nat_le 32 (unat (hd k) + unat (hd bh))"

definition proving_client :: "(nat \<Rightarrow> avail_header) \<Rightarrow> (nat \<Rightarrow> bytes32 list) \<Rightarrow> bytes32 \<Rightarrow> bytes32 list \<Rightarrow> client" where
  "proving_client hdr auths bh signers = (toy_client hdr 10 example_ids (\<lambda>i. authority_list 1 (auths i)) toy_digest)
     \<lparr>c_verify := \<lambda>pk m s. toy_sig_valid pk m (signature_of_bytes s),
      c_prove_finality := \<lambda>n. Some \<lparr>gj_round = 5, gj_commit = \<lparr>cm_target_hash = bh, cm_target_number = n,
        cm_precommits = map (\<lambda>k. \<lparr>sp_precommit = \<lparr>target_hash = bh, target_number = n\<rparr>,
          sp_signature = toy_sign k bh, sp_id = k\<rparr>) signers\<rparr>\<rparr>\<rparr>"

definition three_keys :: "bytes32 list" where
  "three_keys = [replicate 32 1, replicate 32 2, replicate 32 3]"

definition proving_hash :: bytes32 where "proving_hash = replicate 32 7"

abbreviation finality_client :: "bytes32 list \<Rightarrow> client" where
  "finality_client \<equiv> proving_client numbered_header (\<lambda>i. three_keys) proving_hash"

lemma toy_sign_valid:
  assumes "length bh = 32"
  shows "length (toy_sign k bh) = 64"
    and "toy_sig_valid k (signed_message \<lparr>target_hash = bh, target_number = n\<rparr> r i) (signature_of_bytes (toy_sign k bh))"
proof -
  have "unat (hd k) < 256" "unat (hd bh) < 256" by simp_all
  then have "unat (hd k) + unat (hd bh) < 256 ^ 32"
    by (rule order.strict_trans2 [OF add_strict_mono]) simp
  moreover have "segment 32 64 (toy_sign k bh) = nat_le 32 (unat (hd k) + unat (hd bh))"
    by (simp add: toy_sign_def segment_def del: nat_le.simps)
  moreover have "bh \<noteq> []" using assms by auto
  ultimately show "toy_sig_valid k (signed_message \<lparr>target_hash = bh, target_number = n\<rparr> r i)
      (signature_of_bytes (toy_sign k bh))"
    by (simp add: toy_sig_valid_def signature_of_bytes_def signed_message_second le_nat_nat_le)
  show "length (toy_sign k bh) = 64" by (simp add: toy_sign_def)
qed

lemma proving_client_simps:
  fixes hdr auths bh signers
  defines "c \<equiv> proving_client hdr auths bh signers"
  shows "connected c" "same_crypto c toy_gadgets" "length (c_dummy_signature c) = 64" "c_sha256 c = toy_digest"
    and "avail_encoding c"
    and "n < 2 ^ 32 \<Longrightarrow> get_authority_set_id c (of_nat n) = Inr (of_nat (example_ids n))"
    and "n < 2 ^ 32 \<Longrightarrow> get_header c (of_nat n) = Inr (hdr n)"
    and "n < 2 ^ 32 \<Longrightarrow> \<forall>k\<in>set (auths n). length k = 32 \<Longrightarrow> length (auths n) < 2 ^ 14 \<Longrightarrow>
      get_authorities c (of_nat n) = Inr (auths n)"
    and "hdr_number (hdr 10) = 10 \<Longrightarrow> id_chain c 10 example_ids"
proof -
  show con: "connected c"
    by (auto simp: connected_iff c_def proving_client_def toy_client_def Let_def intro: exI [of _ 2])
  show "same_crypto c toy_gadgets" "length (c_dummy_signature c) = 64" "c_sha256 c = toy_digest" "avail_encoding c"
    by (simp_all add: same_crypto_def avail_encoding_def c_def proving_client_def toy_client_def Let_def toy_gadgets_def)
  have ids: "get_authority_set_id c (of_nat n) = Inr (of_nat (example_ids n))" if "n < 2 ^ 32" for n
    using con unat_of_nat_small [where 'a = 32, of n] that
    by (simp add: get_authority_set_id_def get_block_hash_def)
      (simp add: c_def proving_client_def toy_client_def Let_def)
  then show "n < 2 ^ 32 \<Longrightarrow> get_authority_set_id c (of_nat n) = Inr (of_nat (example_ids n))" .
  show "get_header c (of_nat n) = Inr (hdr n)" if "n < 2 ^ 32"
    using unat_of_nat_small [where 'a = 32, of n] that
    by (simp add: get_header_def get_block_hash_def c_def proving_client_def toy_client_def Let_def)
  show "get_authorities c (of_nat n) = Inr (auths n)"
    if "n < 2 ^ 32" "\<forall>k\<in>set (auths n). length k = 32" "length (auths n) < 2 ^ 14"
    using con that decode_authority_list [of "auths n" 1] unat_of_nat_small [where 'a = 32, of n]
    by (simp add: get_authorities_def get_block_hash_def) (simp add: c_def proving_client_def toy_client_def Let_def)
  show "id_chain c 10 example_ids" if "hdr_number (hdr 10) = 10"
  proof -
    have "\<exists>h. get_head c = Inr h \<and> unat (hdr_number h) = 10"
      using con that by (simp add: get_head_def) (simp add: c_def proving_client_def toy_client_def Let_def)
    then show ?thesis using con ids by (auto simp: id_chain_def example_ids_def)
  qed
qed

lemma proving_client_proof:
  assumes "signers \<noteq> []" "length bh = 32" "\<forall>k\<in>set (auths 3). length k = 32" "length (auths 3) < 2 ^ 14"
  shows "finality_proof (proving_client hdr auths bh signers) 4 0 bh (auths 3) (set signers)"
proof -
  let ?c = "proving_client hdr auths bh signers"
  have "get_authority_set_id ?c 3 = Inr 0" "get_authority_set_id ?c 4 = Inr 1" "get_authorities ?c 3 = Inr (auths 3)"
    using proving_client_simps(6) [of 3] proving_client_simps(6) [of 4] proving_client_simps(8) [of 3 auths] assms
    by (simp_all add: example_ids_def)
  moreover have "c_prove_finality ?c 4 = Some \<lparr>gj_round = 5,
      gj_commit = \<lparr>cm_target_hash = bh, cm_target_number = 4,
        cm_precommits = map (\<lambda>k. \<lparr>sp_precommit = \<lparr>target_hash = bh, target_number = 4\<rparr>,
          sp_signature = toy_sign k bh, sp_id = k\<rparr>) signers\<rparr>\<rparr>"
    "c_verify ?c = (\<lambda>pk m s. toy_sig_valid pk m (signature_of_bytes s))"
    by (simp_all add: proving_client_def)
  ultimately show ?thesis
    using assms(1,2) toy_sign_valid [OF assms(2)] proving_client_simps(1) [of hdr auths bh signers]
    by (auto simp: finality_proof_def image_image)
qed

lemma finality_client_proof:
  "signers \<noteq> [] \<Longrightarrow> finality_proof (finality_client signers) 4 0 proving_hash three_keys (set signers)"
  using proving_client_proof [where auths = "\<lambda>i. three_keys"] by (simp add: three_keys_def proving_hash_def)

lemma three_slots:
  "signer_slots three_keys (set [replicate 32 1, replicate 32 2]) = {0, 1}"
  "signer_slots three_keys (set three_keys) = {0, 1, 2}"
  by (auto simp: signer_slots_def three_keys_def less_Suc_eq numeral_3_eq_3 numeral_2_eq_2)

section \<open>Properties\<close>

text \<open>C28. What is left to the circuit once the hint has answered: if the justification hint returns at
  all, with at most \<open>N\<close> slots, its arrays have the circuit's size, and the circuit accepts it exactly when
  there is an authority, the trusted hash is that of the active keys, the message is the precommit of the
  requested block and set, and more than two thirds of the authorities are marked. The signatures need no
  further condition: the hint has checked them.\<close>

theorem hinted_justification_accepted_iff:
  assumes "gadgets_ok G" and "same_crypto c G" and "0 < N" and "3 * N < 2 ^ 32"
    and "hint_simple_justification c N n set_id = Inr j" and "length (validator_signed j) \<le> N"
  shows "wf_justification N j \<and> (verify_simple_justification G n bh set_id set_hash j = Some () \<longleftrightarrow>
      num_authorities j \<noteq> 0 \<and> set_hash = compute_authority_set_hash (c_sha256 c) (authorities_of j)
      \<and> length bh = 32
      \<and> (\<exists>round. encoded_precommit j = signed_message \<lparr>target_hash = bh, target_number = n\<rparr> round set_id)
      \<and> 2 * unat (num_authorities j) < 3 * card (active_slots (validator_signed j)))"
  using hinted_justification [OF assms] by blast

theorem hinted_justification_accepted_iff_witness:
  "\<exists>j. hint_simple_justification (finality_client three_keys) 4 4 0 = Inr j
     \<and> verify_simple_justification toy_gadgets 4 (replicate 32 8) 0 (compute_authority_set_hash toy_digest three_keys) j = None"
proof -
  let ?c = "finality_client three_keys"
  have size: "length three_keys \<le> 4" "(4 :: nat) < 2 ^ 32"
    and weight: "2 * length three_keys \<le> 3 * card (signer_slots three_keys (set three_keys))"
    by (simp_all add: three_slots, simp_all add: three_keys_def)
  have proof_: "finality_proof ?c 4 0 proving_hash three_keys (set three_keys)"
    by (rule finality_client_proof) (simp add: three_keys_def)
  obtain j round where j: "hint_simple_justification ?c 4 4 0 = Inr j" "length (validator_signed j) = 4"
    "encoded_precommit j = signed_message \<lparr>target_hash = proving_hash, target_number = 4\<rparr> round 0"
    by (rule hint_epoch_end [OF proof_ size proving_client_simps(3) weight]) auto
  have other: "encoded_precommit j \<noteq> signed_message \<lparr>target_hash = replicate 32 8, target_number = 4\<rparr> r 0" for r
    using signed_message_segments(1) [of "\<lparr>target_hash = proving_hash, target_number = 4\<rparr>" round 0]
      signed_message_segments(1) [of "\<lparr>target_hash = replicate 32 8, target_number = 4\<rparr>" r 0] j(3)
    by (auto simp: proving_hash_def)
  have "verify_simple_justification toy_gadgets 4 (replicate 32 8) 0
      (compute_authority_set_hash toy_digest three_keys) j \<noteq> Some ()"
    using hinted_justification_accepted_iff [OF toy_gadgets_ok proving_client_simps(2) _ _ j(1)] j(2) other
    by simp
  then show ?thesis using j(1) by (metis not_None_eq unit.exhaust)
qed

text \<open>From the node to the proof: for an epoch end block whose finality proof is signed by more
  than two thirds of the set, the hint returns a justification that the circuit accepts against the
  hash of the set.\<close>

theorem epoch_end_justification_accepted:
  assumes "gadgets_ok G" and "same_crypto c G" and "length (c_dummy_signature c) = 64"
    and "finality_proof c n set_id bh ks signers" and "length ks \<le> N" and "3 * N < 2 ^ 32"
    and "2 * length ks < 3 * card (signer_slots ks signers)"
  shows "\<exists>j. hint_simple_justification c N n set_id = Inr j \<and> wf_justification N j
    \<and> verify_simple_justification G n bh set_id (compute_authority_set_hash (c_sha256 c) ks) j = Some ()"
  using assms by (rule epoch_end_hint_accepted)

theorem epoch_end_justification_accepted_witness:
  "\<exists>j. hint_simple_justification (finality_client three_keys) 4 4 0 = Inr j \<and> wf_justification 4 j
    \<and> verify_simple_justification toy_gadgets 4 proving_hash 0
        (compute_authority_set_hash (c_sha256 (finality_client three_keys)) three_keys) j = Some ()"
proof (rule epoch_end_justification_accepted [OF toy_gadgets_ok proving_client_simps(2,3)])
  show "finality_proof (finality_client three_keys) 4 0 proving_hash three_keys (set three_keys)"
    by (rule finality_client_proof) (simp add: three_keys_def)
qed (simp_all add: three_slots, simp_all add: three_keys_def)

text \<open>C29. The fetcher's own threshold is weaker than the circuit's: with exactly two thirds of the
  set signed the hint returns a justification and the circuit rejects it.\<close>

theorem exact_two_thirds_rejected:
  assumes "gadgets_ok G" and "same_crypto c G" and "length (c_dummy_signature c) = 64"
    and "finality_proof c n set_id bh ks signers" and "length ks \<le> N" and "0 < N" and "3 * N < 2 ^ 32"
    and "2 * length ks = 3 * card (signer_slots ks signers)"
  shows "\<exists>j. hint_simple_justification c N n set_id = Inr j
    \<and> verify_simple_justification G n bh set_id set_hash j = None"
proof -
  obtain j round where j: "hint_simple_justification c N n set_id = Inr j" "length (validator_signed j) = N"
    "num_authorities j = of_nat (length ks)"
    "active_slots (validator_signed j) = signer_slots ks signers"
    by (rule hint_epoch_end [OF assms(4,5) _ assms(3)]) (use assms(7,8) in auto)
  have num: "unat (num_authorities j) = length ks"
    unfolding j(3) by (rule unat_of_nat_small) (use assms(5,7) in simp)
  have "verify_simple_justification G n bh set_id set_hash j \<noteq> Some ()"
    using hinted_justification [OF assms(1,2,6,7) j(1)] j assms(8) num by simp
  then show ?thesis using j(1) by (metis not_None_eq unit.exhaust)
qed

theorem exact_two_thirds_rejected_witness:
  "\<exists>j. hint_simple_justification (finality_client [replicate 32 1, replicate 32 2]) 4 4 0 = Inr j
    \<and> verify_simple_justification toy_gadgets 4 proving_hash 0 (compute_authority_set_hash toy_digest three_keys) j = None"
proof (rule exact_two_thirds_rejected [OF toy_gadgets_ok proving_client_simps(2,3)])
  show "finality_proof (finality_client [replicate 32 1, replicate 32 2]) 4 0 proving_hash three_keys
      (set [replicate 32 1, replicate 32 2])"
    by (rule finality_client_proof) (simp add: three_keys_def)
  show "2 * length three_keys = 3 * card (signer_slots three_keys (set [replicate 32 1, replicate 32 2]))"
    by (simp only: three_slots) (simp add: three_keys_def)
qed (simp_all add: three_keys_def)

end
