(* ===== verification/Rotation_Data.thy ===== *)
theory Rotation_Data
  imports Hints
begin

text \<open>
  The data of a rotation proof (\<open>get_header_rotate\<close> of \<open>circuits/input/mod.rs\<close> and \<open>RotateHint\<close> of
  \<open>circuits/rotate.rs\<close>): the fetcher looks for the scheduled change in the digest of the epoch end
  header, checks it against the authorities of the block and computes where it starts in the encoded
  header. The lemmas show that the rotation circuit accepts what it computes.
\<close>

section \<open>The scheduled change in a header\<close>

record header_rotate_data =
  hr_header_bytes :: "byte list"
  hr_header_size :: nat
  hr_num_authorities :: nat
  hr_start_position :: nat
  hr_end_position :: nat
  hr_new_authority_set_hash :: "byte list"
  hr_padded_pubkeys :: "bytes32 list"

definition chunks_exact :: "nat \<Rightarrow> 'a list \<Rightarrow> 'a list list" where
  "chunks_exact n xs = chunks n (take (length xs - length xs mod n) xs)"

definition check_authority_chunk :: "bytes32 list \<Rightarrow> nat \<times> byte list \<Rightarrow> unit host" where
  "check_authority_chunk new_authorities ic =
     (let (i, authority_chunk) = ic in
     bind_h (slice_h 0 PUBKEY_LENGTH authority_chunk) (\<lambda>pubkey.
     bind_h (slice_h PUBKEY_LENGTH (length authority_chunk) authority_chunk) (\<lambda>weight.
     bind_h (nth_h new_authorities i) (\<lambda>expected.
     bind_h (assert_h Assertion_failed (pubkey = expected)) (\<lambda>_.
     bind_h (map_h (\<lambda>j. bind_h (nth_h weight j) (\<lambda>w.
        assert_h Assertion_failed (w = (if j = 0 then 1 else 0)))) [0..<WEIGHT_LENGTH]) (\<lambda>_. Inr ()))))))"

text \<open>The checks on the value of the scheduled change.\<close>

definition check_scheduled_change :: "bytes32 list \<Rightarrow> nat \<Rightarrow> byte list \<Rightarrow> unit host" where
  "check_scheduled_change new_authorities encoded_num_authorities_len val =
     bind_h (nth_h val 0) (\<lambda>tag.
     bind_h (assert_h Assertion_failed (tag = 1)) (\<lambda>_.
     let cursor = 1 + encoded_num_authorities_len in
     bind_h (slice_h cursor (length val) val) (\<lambda>authorities_bytes.
     let cs = chunks_exact VALIDATOR_LENGTH authorities_bytes in
     bind_h (map_h (check_authority_chunk new_authorities) (zip [0..<length cs] cs)) (\<lambda>_.
     let cursor = cursor + VALIDATOR_LENGTH * length cs in
     bind_h (slice_h cursor (length val) val) (\<lambda>delay.
     bind_h (map_h (\<lambda>i. bind_h (nth_h delay i) (\<lambda>b. assert_h Assertion_failed (b = 0))) [0..<DELAY_LENGTH])
       (\<lambda>_. Inr ()))))))"

text \<open>\<open>FRNK\<close>, the engine id of GRANDPA.\<close>

definition grandpa_engine :: "byte list" where "grandpa_engine = [70, 82, 78, 75]"

text \<open>The loop over the logs of the digest; the result is the position of the log, None if there is none.\<close>

fun find_log :: "client \<Rightarrow> bytes32 list \<Rightarrow> nat \<Rightarrow> nat \<Rightarrow> digest_item list \<Rightarrow> nat option host" where
  "find_log c new_authorities enc_len position [] = Inr None"
| "find_log c new_authorities enc_len position (log # logs) =
     (let encoded_log = c_encode_log c log;
          skip = find_log c new_authorities enc_len (position + length encoded_log) logs
      in case log of
          Consensus consensus_id val \<Rightarrow>
            if consensus_id = grandpa_engine
            then bind_h (check_scheduled_change new_authorities enc_len val) (\<lambda>_. Inr (Some position))
            else skip
        | Other_log bs \<Rightarrow> skip)"

definition get_header_rotate :: "client \<Rightarrow> nat \<Rightarrow> nat \<Rightarrow> u32 \<Rightarrow> header_rotate_data host" where
  "get_header_rotate c header_length max_size n =
     bind_h (get_authority_set_id c n) (\<lambda>set_id.
     bind_h (sub_ck n 1) (\<lambda>before.
     bind_h (get_authority_set_id c before) (\<lambda>prev_set_id.
     bind_h (sub_ck set_id 1) (\<lambda>expected.
     bind_h (assert_h Assertion_failed (expected = prev_set_id)) (\<lambda>_.
     bind_h (get_header c n) (\<lambda>header.
     let bytes = c_encode_header c header; size_of = length bytes in
     bind_h (assert_h (Panic ''header size'') (\<not> size_of > header_length)) (\<lambda>_.
     bind_h (get_authorities c n) (\<lambda>new_authorities.
     let num = length new_authorities;
         enc_len = length (c_compact c (of_nat num));
         number_encoded = c_compact c n;
         position = HASH_SIZE + length number_encoded + HASH_SIZE + HASH_SIZE
     in
     bind_h (find_log c new_authorities enc_len position (hdr_logs header)) (\<lambda>found.
     case found of None \<Rightarrow> Inl (Panic ''did not find corresponding consensus log'')
     | Some position \<Rightarrow>
       let prefix_length = BASE_PREFIX_LENGTH + enc_len in
       Inr \<lparr>hr_header_bytes = bytes @ replicate (header_length - size_of) 0, hr_header_size = size_of,
         hr_num_authorities = num, hr_start_position = position,
         hr_end_position = position + prefix_length + (32 + 8) * num + 4,
         hr_new_authority_set_hash = compute_authority_set_hash (c_sha256 c) new_authorities,
         hr_padded_pubkeys = new_authorities @ replicate (max_size - num) (c_dummy_key c)\<rparr>)))))))))"

text \<open>\<open>RotateHint::hint\<close>.\<close>

definition rotate_hint :: "client \<Rightarrow> nat \<Rightarrow> nat \<Rightarrow> u64 \<Rightarrow> rotate_variable host" where
  "rotate_hint c header_length max_size set_id =
     bind_h (last_justified_block c set_id) (\<lambda>n.
     bind_h (get_header_rotate c header_length max_size n) (\<lambda>d.
     Inr \<lparr>epoch_end_block_number = n,
       target_header = \<lparr>header_bytes = hr_header_bytes d, header_size = of_nat (hr_header_size d)\<rparr>,
       target_header_num_authorities = hr_num_authorities d,
       next_authority_set_start_position = hr_start_position d,
       new_pubkeys = hr_padded_pubkeys d\<rparr>))"

section \<open>An epoch end header\<close>

definition scheduled_change_value :: "bytes32 list \<Rightarrow> byte list" where
  "scheduled_change_value ks =
     1 # scale_compact (of_nat (length ks)) @ encode_authorities ks @ [0, 0, 0, 0]"

lemma chunks_exact_authorities:
  assumes "\<forall>k\<in>set ks. length k = 32"
  shows "chunks_exact 40 (encode_authorities ks @ [0, 0, 0, 0]) = map (\<lambda>k. k @ expected_weight_bytes) ks"
proof -
  let ?bs = "encode_authorities ks @ [0, 0, 0, 0 :: byte]"
  have len: "length ?bs = 4 + 40 * length ks" using length_encode_authorities [OF assms] by simp
  have "(4 + 40 * length ks) mod 40 = 4 mod 40" by (rule mod_mult_self2)
  then have "take (length ?bs - length ?bs mod 40) ?bs = encode_authorities ks"
    unfolding len using length_encode_authorities [OF assms] by simp
  moreover have "chunks 40 (concat (map (\<lambda>k. k @ expected_weight_bytes) ks)) = map (\<lambda>k. k @ expected_weight_bytes) ks"
    by (rule chunks_concat) (use assms in \<open>auto simp: expected_weight_bytes_def\<close>)
  ultimately show ?thesis by (simp only: chunks_exact_def encode_authorities_def)
qed

lemma check_authority_chunk_ok:
  assumes "i < length ks" "length (ks ! i) = 32"
  shows "check_authority_chunk ks (i, ks ! i @ expected_weight_bytes) = Inr ()"
proof -
  have "slice_h 0 32 (ks ! i @ expected_weight_bytes) = Inr (ks ! i)"
    "slice_h 32 40 (ks ! i @ expected_weight_bytes) = Inr expected_weight_bytes"
    using assms by (simp_all add: expected_weight_bytes_def segment_def)
  moreover have "map_h (\<lambda>j. bind_h (nth_h expected_weight_bytes j) (\<lambda>w.
      assert_h Assertion_failed (w = (if j = 0 then 1 else 0)))) [0..<8] = Inr (replicate 8 ())"
    by (simp add: expected_weight_bytes_def upt_rec numeral_eq_Suc)
  ultimately show ?thesis
    using assms by (simp add: check_authority_chunk_def Let_def) (simp add: expected_weight_bytes_def)
qed

lemma check_scheduled_change_ok:
  assumes keys: "\<forall>k\<in>set ks. length k = 32"
  shows "check_scheduled_change ks (length (scale_compact (of_nat (length ks)))) (scheduled_change_value ks) = Inr ()"
proof -
  let ?pre = "1 # scale_compact (of_nat (length ks))" and ?enc = "encode_authorities ks"
  let ?val = "scheduled_change_value ks" and ?cs = "map (\<lambda>k. k @ expected_weight_bytes) ks"
  have val: "?val = ?pre @ ?enc @ [0, 0, 0, 0]" by (simp add: scheduled_change_value_def)
  have len: "length ?val = Suc (length (scale_compact (of_nat (length ks))) + 40 * length ks) + 4"
    using length_encode_authorities [OF keys] by (simp add: val)
  have body: "segment (Suc (length (scale_compact (of_nat (length ks))))) (length ?val) ?val = ?enc @ [0, 0, 0, 0]"
    by (simp add: val segment_def)
  have delay: "segment (Suc (length (scale_compact (of_nat (length ks))) + 40 * length ks)) (length ?val) ?val
      = [0, 0, 0, 0]"
    using length_encode_authorities [OF keys] by (simp add: val segment_def)
  have "\<forall>ic\<in>set (zip [0..<length ?cs] ?cs). check_authority_chunk ks ic = Inr ()"
    using keys by (auto simp: set_zip check_authority_chunk_ok)
  then have "\<exists>us. map_h (check_authority_chunk ks) (zip [0..<length ?cs] ?cs) = Inr us"
    by (simp only: map_h_unit_iff)
  moreover have "map_h (\<lambda>i. bind_h (nth_h [0, 0, 0, 0 :: byte] i) (\<lambda>b. assert_h Assertion_failed (b = 0))) [0..<4]
      = Inr [(), (), (), ()]" by (simp add: upt_rec numeral_eq_Suc)
  moreover have "?val ! 0 = 1" "0 < length ?val" by (simp_all add: val)
  moreover have "Suc (length (scale_compact (of_nat (length ks)))) \<le> length ?val"
    "Suc (length (scale_compact (of_nat (length ks))) + 40 * length ks) \<le> length ?val" using len by simp_all
  ultimately show ?thesis
    by (auto simp: check_scheduled_change_def Let_def body delay chunks_exact_authorities [OF keys])
qed

text \<open>No log before the scheduled change is one of GRANDPA's.\<close>

definition no_grandpa_log :: "digest_item list \<Rightarrow> bool" where
  "no_grandpa_log ls \<longleftrightarrow> (\<forall>v. Consensus grandpa_engine v \<notin> set ls)"

lemma find_log_skip:
  "no_grandpa_log ls \<Longrightarrow> find_log c ks m pos (ls @ rs) = find_log c ks m (pos + length (concat (map (c_encode_log c) ls))) rs"
proof (induction ls arbitrary: pos)
  case (Cons l ls)
  then have "no_grandpa_log ls" by (simp add: no_grandpa_log_def)
  note IH = Cons.IH [OF this]
  have "e \<noteq> grandpa_engine" if "l = Consensus e v" for e v
    using Cons.prems that by (auto simp: no_grandpa_log_def)
  then show ?case by (cases l) (simp_all add: IH Let_def add.assoc)
qed simp

text \<open>The block \<open>n\<close> ends the epoch of the set \<open>set_id\<close> and schedules \<open>ks\<close>: what the node answers about
  it, and that its header fits an array of \<open>S\<close> bytes with the log at \<open>start\<close> followed by room for
  \<open>N\<close> authorities.\<close>

definition epoch_end_header :: "client \<Rightarrow> nat \<Rightarrow> nat \<Rightarrow> u32 \<Rightarrow> u64 \<Rightarrow> bytes32 list \<Rightarrow> avail_header \<Rightarrow> bool" where
  "epoch_end_header c S N n set_id ks h \<longleftrightarrow>
     avail_encoding c \<and> 1 \<le> n \<and> unat set_id + 1 < 2 ^ 64
     \<and> get_authority_set_id c (n - 1) = Inr set_id \<and> get_authority_set_id c n = Inr (set_id + 1)
     \<and> get_header c n = Inr h \<and> hdr_number h = n \<and> get_authorities c n = Inr ks
     \<and> length (hdr_parent_hash h) = 32 \<and> length (hdr_state_root h) = 32 \<and> length (hdr_extrinsics_root h) = 32
     \<and> length (hdr_logs h) < 64 \<and> length (c_encode_header c h) \<le> S
     \<and> (\<exists>ls rs. hdr_logs h = ls @ Consensus grandpa_engine (scheduled_change_value ks) # rs \<and> no_grandpa_log ls
          \<and> 119 + length (concat (map (c_encode_log c) ls)) + 40 * N \<le> S)"

lemma add_sub_word: "sub_ck (w + 1) 1 = Inr w" if "unat (w :: 'a::len word) + 1 < 2 ^ LENGTH('a)"
proof -
  have "unat (w + 1) = unat w + 1" using that by (simp add: unat_word_ariths)
  then show ?thesis by (simp add: sub_ck_def word_le_nat_alt)
qed

lemma get_header_rotate_eq:
  assumes h: "epoch_end_header c S N n set_id ks h"
    and ls: "hdr_logs h = ls @ Consensus grandpa_engine (scheduled_change_value ks) # rs" "no_grandpa_log ls"
  shows "get_header_rotate c S N n = Inr
    (let bytes = c_encode_header c h;
         start = 96 + length (scale_compact n) + length (concat (map (c_encode_log c) ls));
         enc_len = length (scale_compact (of_nat (length ks)))
     in \<lparr>hr_header_bytes = bytes @ replicate (S - length bytes) 0, hr_header_size = length bytes,
         hr_num_authorities = length ks, hr_start_position = start,
         hr_end_position = start + (9 + enc_len) + 40 * length ks + 4,
         hr_new_authority_set_hash = compute_authority_set_hash (c_sha256 c) ks,
         hr_padded_pubkeys = ks @ replicate (N - length ks) (c_dummy_key c)\<rparr>)"
proof -
  have ids: "sub_ck n 1 = Inr (n - 1)" "sub_ck (set_id + 1) 1 = Inr set_id"
    using h add_sub_word [of set_id] by (simp_all add: epoch_end_header_def sub_ck_def)
  have keys: "\<forall>k\<in>set ks. length k = 32" and enc: "c_compact c = scale_compact"
    using h get_authorities_keys by (auto simp: epoch_end_header_def avail_encoding_def)
  show ?thesis
    using h ids find_log_skip [OF ls(2)] check_scheduled_change_ok [OF keys]
    by (simp add: get_header_rotate_def epoch_end_header_def ls(1) enc Let_def)
qed

text \<open>The bytes before the scheduled change end with one byte for the number of logs or with the
  previous log.\<close>

definition header_front :: "client \<Rightarrow> avail_header \<Rightarrow> digest_item list \<Rightarrow> byte list" where
  "header_front c h ls = hdr_parent_hash h @ scale_compact (hdr_number h) @ hdr_state_root h @ hdr_extrinsics_root h
     @ scale_compact (of_nat (length (hdr_logs h))) @ concat (map (c_encode_log c) ls)"

lemma header_front:
  assumes h: "epoch_end_header c S N n set_id ks h"
    and ls: "hdr_logs h = ls @ Consensus grandpa_engine (scheduled_change_value ks) # rs"
  obtains post where "c_encode_header c h = header_front c h ls @ [4, 70, 82, 78, 75]
      @ scale_compact (of_nat (length (scheduled_change_value ks))) @ scheduled_change_value ks @ post"
    and "length (header_front c h ls) = 97 + length (scale_compact n) + length (concat (map (c_encode_log c) ls))"
proof (rule that)
  have logs: "unat (of_nat (length (hdr_logs h)) :: u32) = length (hdr_logs h)"
    by (rule unat_of_nat_small) (use h in \<open>simp add: epoch_end_header_def\<close>)
  show "c_encode_header c h = header_front c h ls @ [4, 70, 82, 78, 75]
      @ scale_compact (of_nat (length (scheduled_change_value ks))) @ scheduled_change_value ks
      @ concat (map (c_encode_log c) rs) @ hdr_extension h @ hdr_data_root h"
    using h by (simp add: epoch_end_header_def avail_encoding_def header_layout_def header_front_def ls
        grandpa_engine_def)
  show "length (header_front c h ls) = 97 + length (scale_compact n) + length (concat (map (c_encode_log c) ls))"
    using h logs by (simp add: epoch_end_header_def header_front_def scale_compact_def)
qed

lemma length_scheduled_change_value:
  assumes "\<forall>k\<in>set ks. length k = 32" and "length ks < 2 ^ 14"
  shows "length (scheduled_change_value ks) = (if length ks < 64 then 6 else 7) + 40 * length ks"
proof -
  have "unat (of_nat (length ks) :: u32) = length ks" by (rule unat_of_nat_small) (use assms(2) in simp)
  then show ?thesis
    using length_encode_authorities [OF assms(1)] assms(2)
    by (simp add: scheduled_change_value_def scale_compact_def)
qed

lemma scheduled_change_at_start:
  assumes h: "epoch_end_header c S N n set_id ks h"
    and ls: "hdr_logs h = ls @ Consensus grandpa_engine (scheduled_change_value ks) # rs"
    and size: "2 \<le> length ks" "length ks < 410"
  obtains pre tag skip post where "c_encode_header c h = pre @ scheduled_change_log tag skip ks @ post"
    and "length skip = 2" and "length pre = 96 + length (scale_compact n) + length (concat (map (c_encode_log c) ls))"
proof -
  obtain post where bytes: "c_encode_header c h = header_front c h ls @ [4, 70, 82, 78, 75]
      @ scale_compact (of_nat (length (scheduled_change_value ks))) @ scheduled_change_value ks @ post"
    and len: "length (header_front c h ls) = 97 + length (scale_compact n) + length (concat (map (c_encode_log c) ls))"
    by (rule header_front [OF h ls])
  have keys: "\<forall>k\<in>set ks. length k = 32" using h get_authorities_keys by (auto simp: epoch_end_header_def)
  have val: "64 \<le> length (scheduled_change_value ks)" "length (scheduled_change_value ks) < 2 ^ 14"
    using size length_scheduled_change_value [OF keys] by auto
  then have "unat (of_nat (length (scheduled_change_value ks)) :: u32) = length (scheduled_change_value ks)"
    by (intro unat_of_nat_small) simp
  then have skip: "length (scale_compact (of_nat (length (scheduled_change_value ks)))) = 2"
    using val by (simp add: scale_compact_def)
  have "header_front c h ls = butlast (header_front c h ls) @ [last (header_front c h ls)]"
    using len by (metis append_butlast_last_id add_is_0 list.size(3) zero_neq_numeral)
  then have "c_encode_header c h = butlast (header_front c h ls) @ scheduled_change_log (last (header_front c h ls))
      (scale_compact (of_nat (length (scheduled_change_value ks)))) ks @ post"
    unfolding bytes scheduled_change_log_def scheduled_change_value_def [of ks] by simp
  then show ?thesis by (rule that) (use skip len in simp_all)
qed

lemma hinted_rotate:
  assumes h: "epoch_end_header c S N n set_id ks h" and last: "last_justified_block c set_id = Inr n"
    and crypto: "same_crypto c G" and size: "length ks \<le> N" "S < 2 ^ 32" and hash: "hash_gadgets G"
    and ls: "hdr_logs h = ls @ Consensus grandpa_engine (scheduled_change_value ks) # rs" "no_grandpa_log ls"
  obtains r where "rotate_hint c S N set_id = Inr r" and "wf_rotate S N r" and "epoch_end_block_number r = n"
    and "header_bytes (target_header r) = c_encode_header c h @ replicate (S - length (c_encode_header c h)) 0"
    and "hash_encoded_header G (target_header r) = blake2b G (c_encode_header c h)"
    and "target_header_num_authorities r = length ks" and "take (length ks) (new_pubkeys r) = ks"
    and "next_authority_set_start_position r
      = 96 + length (scale_compact n) + length (concat (map (c_encode_log c) ls))"
proof -
  have keys: "\<forall>k\<in>set ks. length k = 32" using h get_authorities_keys by (auto simp: epoch_end_header_def)
  have fits: "length (c_encode_header c h) \<le> S" using h by (simp add: epoch_end_header_def)
  then have "unat (of_nat (length (c_encode_header c h)) :: u32) = length (c_encode_header c h)"
    using size by (intro unat_of_nat_small) simp
  then have hash_eq: "hash_encoded_header G \<lparr>header_bytes = c_encode_header c h @ replicate m 0,
      header_size = of_nat (length (c_encode_header c h))\<rparr> = blake2b G (c_encode_header c h)" for m
    using hash_gadget_simps [OF hash] by (simp add: hash_encoded_header_def)
  show ?thesis
    by (rule that, simp add: rotate_hint_def last get_header_rotate_eq [OF h ls] Let_def)
      (use fits size keys crypto hash_eq in \<open>auto simp: wf_rotate_def wf_header_def same_crypto_def\<close>)
qed

lemma rotate_hinted:
  assumes ok: "gadgets_ok G" and crypto: "same_crypto c G"
    and h: "epoch_end_header c S N n set_id ks h" and last: "last_justified_block c set_id = Inr n"
    and size: "2 \<le> length ks" "length ks \<le> N" "N < 410" and S: "S < 2 ^ 32"
    and j: "wf_justification N j" "justified G n (blake2b G (c_encode_header c h)) set_id set_hash j"
  obtains r where "rotate_hint c S N set_id = Inr r" and "wf_rotate S N r" and "epoch_end_block_number r = n"
    and "rotate G N (N * 40 + 4) set_id set_hash r j = Some (compute_authority_set_hash (sha256 G) ks)"
proof -
  obtain ls rs where ls: "hdr_logs h = ls @ Consensus grandpa_engine (scheduled_change_value ks) # rs" "no_grandpa_log ls"
    and room: "119 + length (concat (map (c_encode_log c) ls)) + 40 * N \<le> S"
    using h by (auto simp: epoch_end_header_def)
  have keys: "\<forall>k\<in>set ks. length k = 32" using h get_authorities_keys by (auto simp: epoch_end_header_def)
  obtain r where r: "rotate_hint c S N set_id = Inr r" "wf_rotate S N r" "epoch_end_block_number r = n"
    "header_bytes (target_header r) = c_encode_header c h @ replicate (S - length (c_encode_header c h)) 0"
    "hash_encoded_header G (target_header r) = blake2b G (c_encode_header c h)"
    "target_header_num_authorities r = length ks" "take (length ks) (new_pubkeys r) = ks"
    "next_authority_set_start_position r = 96 + length (scale_compact n) + length (concat (map (c_encode_log c) ls))"
    by (rule hinted_rotate [OF h last crypto size(2) S gadgets_okD(5) [OF ok] ls])
  obtain pre tag skip post where log: "c_encode_header c h = pre @ scheduled_change_log tag skip ks @ post"
    "length skip = 2" "length pre = 96 + length (scale_compact n) + length (concat (map (c_encode_log c) ls))"
    by (rule scheduled_change_at_start [OF h ls(1)]) (use size in auto)
  have bytes: "header_bytes (target_header r) = pre @ scheduled_change_log tag skip ks
      @ (post @ replicate (S - length (c_encode_header c h)) 0)" using r(4) log(1) by simp
  have count: "0 < length ks" using size by linarith
  have "rotate G N (N * 40 + 4) set_id set_hash r j = Some (compute_authority_set_hash (sha256 G) ks)"
    by (subst rotate_at_log [OF ok j(1) r(2) _ _ S bytes log(2) keys count])
      (use r j(2) log(3) size room length_scale_compact_le [of n] in simp_all)
  then show ?thesis by (rule that [OF r(1-3)])
qed

section \<open>An epoch end block\<close>

text \<open>Block 4 of the example chain schedules two new keys, between two other logs.\<close>

definition digest_header :: "bytes32 list \<Rightarrow> nat \<Rightarrow> avail_header" where
  "digest_header ks i = \<lparr>hdr_parent_hash = replicate 32 1, hdr_number = of_nat i, hdr_state_root = replicate 32 2,
     hdr_extrinsics_root = replicate 32 3,
     hdr_logs = (if i = 4 then [Other_log [6, 6], Consensus grandpa_engine (scheduled_change_value ks), Other_log [5]] else []),
     hdr_extension = [8], hdr_data_root = replicate 32 9\<rparr>"

definition rotating_hash :: "bytes32 list \<Rightarrow> bytes32" where
  "rotating_hash ks = toy_digest (header_layout toy_encode_log (digest_header ks 4))"

abbreviation rotating_client :: "bytes32 list \<Rightarrow> client" where
  "rotating_client ks \<equiv> proving_client (digest_header ks) (\<lambda>i. if i < 4 then three_keys else ks) (rotating_hash ks) three_keys"

lemma rotating_client:
  assumes "\<forall>k\<in>set ks. length k = 32" "length ks \<le> 3"
  shows "epoch_end_header (rotating_client ks) 400 3 4 0 ks (digest_header ks 4)"
    and "c_encode_header (rotating_client ks) = header_layout toy_encode_log"
    and "last_justified_block (rotating_client ks) 0 = Inr 4"
    and "finality_proof (rotating_client ks) 4 0 (rotating_hash ks) three_keys (set three_keys)"
proof -
  let ?c = "rotating_client ks"
  show enc: "c_encode_header ?c = header_layout toy_encode_log"
    by (simp add: proving_client_def toy_client_def Let_def)
  have elog: "c_encode_log ?c = toy_encode_log" by (simp add: proving_client_def toy_client_def Let_def)
  have val: "length (scheduled_change_value ks) = 6 + 40 * length ks"
    using length_scheduled_change_value [OF assms(1)] assms(2) by simp
  have "length (scale_compact n) \<le> 5" for n by (rule length_scale_compact_le)
  note compact = this [of 4] this [of 3] this [of "of_nat (length (scheduled_change_value ks))"]
  have "length (header_layout toy_encode_log (digest_header ks 4)) \<le> 400"
    using val compact assms(2) by (simp add: header_layout_def digest_header_def grandpa_engine_def)
  moreover have "get_authority_set_id ?c 3 = Inr 0" "get_authority_set_id ?c 4 = Inr 1"
    "get_header ?c 4 = Inr (digest_header ks 4)" "get_authorities ?c 4 = Inr ks" "avail_encoding ?c"
    using proving_client_simps(6) [of 3] proving_client_simps(6) [of 4] proving_client_simps(7) [of 4]
      proving_client_simps(8) [of 4] proving_client_simps(5) assms
    by (simp_all add: example_ids_def)
  moreover have "\<exists>ls rs. hdr_logs (digest_header ks 4)
      = ls @ Consensus grandpa_engine (scheduled_change_value ks) # rs \<and> no_grandpa_log ls
      \<and> 119 + length (concat (map toy_encode_log ls)) + 40 * 3 \<le> 400"
    by (intro exI [of _ "[Other_log [6, 6]]"] exI [of _ "[Other_log [5]]"])
      (simp add: digest_header_def no_grandpa_log_def)
  ultimately show "epoch_end_header ?c 400 3 4 0 ks (digest_header ks 4)"
    by (simp add: epoch_end_header_def enc elog) (simp add: digest_header_def)
  have "epoch_end example_ids 0 4" by (simp add: epoch_end_def example_ids_def)
  moreover have "id_chain ?c 10 example_ids" by (rule proving_client_simps) (simp add: digest_header_def)
  ultimately show "last_justified_block ?c 0 = Inr 4"
    using last_justified_block_at [of ?c 10 example_ids 0 4] by simp
  show "finality_proof ?c 4 0 (rotating_hash ks) three_keys (set three_keys)"
    using proving_client_proof [where signers = three_keys and bh = "rotating_hash ks"
        and auths = "\<lambda>i. if i < 4 then three_keys else ks" and hdr = "digest_header ks"]
    by (simp add: three_keys_def rotating_hash_def toy_digest_def)
qed

lemma rotating_client_proof:
  assumes "\<forall>k\<in>set ks. length k = 32" "length ks \<le> 3"
  shows "finality_proof (rotating_client ks) 4 0
    (blake2b toy_gadgets (c_encode_header (rotating_client ks) (digest_header ks 4))) three_keys (set three_keys)"
proof -
  have "blake2b toy_gadgets (c_encode_header (rotating_client ks) (digest_header ks 4)) = rotating_hash ks"
    unfolding rotating_client(2) [OF assms] by (simp add: rotating_hash_def toy_gadgets_def)
  then show ?thesis using rotating_client(4) [OF assms] by simp
qed

text \<open>With one authority the value is 46 bytes long, and its length takes one byte, not the two that the
  circuit skips.\<close>

lemma single_authority_log:
  assumes h: "epoch_end_header c S N n set_id [k] h"
    and ls: "hdr_logs h = ls @ Consensus grandpa_engine (scheduled_change_value [k]) # rs"
  shows "(c_encode_header c h @ ys) ! (96 + length (scale_compact n) + length (concat (map (c_encode_log c) ls)) + 8) = 4"
proof -
  obtain post where bytes: "c_encode_header c h = header_front c h ls @ [4, 70, 82, 78, 75]
      @ scale_compact (of_nat (length (scheduled_change_value [k]))) @ scheduled_change_value [k] @ post"
    and len: "length (header_front c h ls) = 97 + length (scale_compact n) + length (concat (map (c_encode_log c) ls))"
    by (rule header_front [OF h ls])
  have "\<forall>k'\<in>set [k]. length k' = 32" using h get_authorities_keys by (auto simp: epoch_end_header_def)
  from length_scheduled_change_value [OF this]
  have skip: "scale_compact (of_nat (length (scheduled_change_value [k]))) = [184]"
    by (simp add: scale_compact_def)
  have count: "scale_compact 1 = [4]" by (simp add: scale_compact_def)
  have "96 + length (scale_compact n) + length (concat (map (c_encode_log c) ls)) + 8
      = length (header_front c h ls) + 7" using len by linarith
  then show ?thesis
    unfolding bytes skip by (simp add: nth_append scheduled_change_value_def count)
qed

lemma single_authority_rejected:
  assumes ok: "gadgets_ok G" and crypto: "same_crypto c G"
    and h: "epoch_end_header c S N n set_id [k] h" and last: "last_justified_block c set_id = Inr n"
    and size: "0 < N" "3 * N < 2 ^ 32" "S < 2 ^ 32" and j: "wf_justification N j"
  obtains r where "rotate_hint c S N set_id = Inr r" and "rotate G N (N * 40 + 4) set_id set_hash r j = None"
proof -
  obtain ls rs where ls: "hdr_logs h = ls @ Consensus grandpa_engine (scheduled_change_value [k]) # rs" "no_grandpa_log ls"
    using h by (auto simp: epoch_end_header_def)
  have one: "length [k] \<le> N" using size by simp
  obtain r where r: "rotate_hint c S N set_id = Inr r" "wf_rotate S N r"
    "header_bytes (target_header r) = c_encode_header c h @ replicate (S - length (c_encode_header c h)) 0"
    "next_authority_set_start_position r = 96 + length (scale_compact n) + length (concat (map (c_encode_log c) ls))"
    by (rule hinted_rotate [OF h last crypto one size(3) gadgets_okD(5) [OF ok] ls]) auto
  have wf: "\<forall>k\<in>set (new_pubkeys r). length k = 32" "length (new_pubkeys r) = N"
    "length (header_bytes (target_header r)) < 2 ^ 32"
    using r(2) size by (auto simp: wf_rotate_def wf_header_def)
  have "header_bytes (target_header r) ! (next_authority_set_start_position r + 8) = 4"
    unfolding r(3,4) by (rule single_authority_log [OF h ls(1)])
  then have "\<not> epoch_end_log (header_bytes (target_header r)) (next_authority_set_start_position r) m i (new_pubkeys r)"
    for m i by (simp add: epoch_end_log_def)
  then have "verify_epoch_end_header G (N * 40 + 4) (target_header r) (hash_encoded_header G (target_header r))
      (target_header_num_authorities r) (next_authority_set_start_position r) (new_pubkeys r) \<noteq> Some ()"
    using verify_epoch_end_header_iff [OF ok wf(1,3), unfolded wf(2)] by blast
  then have "rotate G N (N * 40 + 4) set_id set_hash r j \<noteq> Some out" for out
    using rotate_Some_iff [OF ok j size(1,2) r(2)] by blast
  then show ?thesis using that [OF r(1)] by (metis not_None_eq)
qed

lemma rotation_from_chain:
  assumes "gadgets_ok G" and "same_crypto c G" and "length (c_dummy_signature c) = 64"
    and "epoch_end_header c S N n set_id ks h" and "last_justified_block c set_id = Inr n"
    and "finality_proof c n set_id (blake2b G (c_encode_header c h)) old signers"
    and "2 * length old < 3 * card (signer_slots old signers)" and "length old \<le> N"
    and "2 \<le> length ks" and "length ks \<le> N" and "N < 410" and "S < 2 ^ 32"
  shows "\<exists>r j. rotate_hint c S N set_id = Inr r \<and> hint_simple_justification c N n set_id = Inr j
    \<and> rotate_define G N (N * VALIDATOR_LENGTH + DELAY_LENGTH) (\<lambda>i. r) (\<lambda>b i. j)
        (rotate_input set_id (compute_authority_set_hash (c_sha256 c) old))
      = Some (compute_authority_set_hash (c_sha256 c) ks)"
proof -
  have sha: "c_sha256 c = sha256 G" using assms(2) by (simp add: same_crypto_def)
  have N: "0 < N" "3 * N < 2 ^ 32" using assms(9,10,11) by simp_all
  obtain j round where j: "hint_simple_justification c N n set_id = Inr j" "length (validator_signed j) = N"
    "num_authorities j = of_nat (length old)" "authorities_of j = old"
    "active_slots (validator_signed j) = signer_slots old signers"
    "encoded_precommit j = signed_message \<lparr>target_hash = blake2b G (c_encode_header c h), target_number = n\<rparr> round set_id"
    by (rule hint_epoch_end [OF assms(6,8) _ assms(3)]) (use assms(7,11) in auto)
  have wf: "wf_justification N j" using hinted_justification(1) [OF assms(1,2) N j(1)] j(2) by simp
  have num: "unat (num_authorities j) = length old"
    unfolding j(3) by (rule unat_of_nat_small) (use assms(8,11) in simp)
  have "signer_slots old signers \<noteq> {}" using assms(7) by auto
  then have "num_authorities j \<noteq> 0" using num by (auto simp: signer_slots_def)
  then have acc: "verify_simple_justification G n (blake2b G (c_encode_header c h)) set_id
      (compute_authority_set_hash (sha256 G) old) j = Some ()"
    using hinted_justification(2) [OF assms(1,2) N j(1)] j num assms(7) gadgets_okD(5) [OF assms(1)]
    by (auto simp: sha hash_gadget_simps)
  then have just: "justified G n (blake2b G (c_encode_header c h)) set_id (compute_authority_set_hash (sha256 G) old) j"
    by (simp only: verify_simple_justification_iff [OF assms(1) wf N])
  obtain r where r: "rotate_hint c S N set_id = Inr r" "epoch_end_block_number r = n"
    "rotate G N (N * 40 + 4) set_id (compute_authority_set_hash (sha256 G) old) r j
      = Some (compute_authority_set_hash (sha256 G) ks)"
    by (rule rotate_hinted [OF assms(1,2,4,5,9-12) wf just]) auto
  have "old \<noteq> []" using \<open>signer_slots old signers \<noteq> {}\<close> by (auto simp: signer_slots_def)
  then have "length (compute_authority_set_hash (sha256 G) old) = 32"
    by (rule length_authority_set_hash [OF gadgets_okD(5) [OF assms(1)]])
  then show ?thesis
    using r j(1) by (auto simp: sha rotate_define_eq)
qed

section \<open>Properties\<close>

text \<open>C6. Rotation from the chain to the proof: for an epoch end block that schedules at least two
  authorities and whose finality proof is signed by more than two thirds of the old set, both hints
  answer, and the rotate circuit accepts their answers on the packed on-chain input and outputs the
  commitment of the scheduled authorities.\<close>

theorem rotation_end_to_end:
  assumes "gadgets_ok G" and "same_crypto c G" and "length (c_dummy_signature c) = 64"
    and "epoch_end_header c S N n set_id ks h" and "last_justified_block c set_id = Inr n"
    and "finality_proof c n set_id (blake2b G (c_encode_header c h)) old signers"
    and "2 * length old < 3 * card (signer_slots old signers)" and "length old \<le> N"
    and "2 \<le> length ks" and "length ks \<le> N" and "N < 410" and "S < 2 ^ 32"
  shows "\<exists>r j. rotate_hint c S N set_id = Inr r \<and> hint_simple_justification c N n set_id = Inr j
    \<and> rotate_define G N (N * VALIDATOR_LENGTH + DELAY_LENGTH) (\<lambda>i. r) (\<lambda>b i. j)
        (rotate_input set_id (compute_authority_set_hash (c_sha256 c) old))
      = Some (compute_authority_set_hash (c_sha256 c) ks)"
  using assms by (rule rotation_from_chain)

theorem rotation_end_to_end_witness:
  "\<exists>r j. rotate_hint (rotating_client (next_keys 2)) 400 3 0 = Inr r
    \<and> hint_simple_justification (rotating_client (next_keys 2)) 3 4 0 = Inr j
    \<and> rotate_define toy_gadgets 3 (3 * VALIDATOR_LENGTH + DELAY_LENGTH) (\<lambda>i. r) (\<lambda>b i. j)
        (rotate_input 0 (compute_authority_set_hash (c_sha256 (rotating_client (next_keys 2))) three_keys))
      = Some (compute_authority_set_hash (c_sha256 (rotating_client (next_keys 2))) (next_keys 2))"
proof -
  have keys: "\<forall>k\<in>set (next_keys 2). length k = 32" "length (next_keys 2) \<le> 3" using next_keys_wf by simp_all
  have proof_: "finality_proof (rotating_client (next_keys 2)) 4 0
      (blake2b toy_gadgets (c_encode_header (rotating_client (next_keys 2)) (digest_header (next_keys 2) 4)))
      three_keys (set three_keys)" by (rule rotating_client_proof [OF keys])
  show ?thesis
    by (rule rotation_end_to_end [OF toy_gadgets_ok proving_client_simps(2,3) rotating_client(1,3) [OF keys] proof_])
      (simp_all add: three_slots next_keys_wf, simp_all add: three_keys_def)
qed

text \<open>C30. An epoch end that schedules a single authority cannot be rotated to: the hint answers, but
  the circuit, which skips two bytes for the length of the log's value, rejects the answer with any
  justification.\<close>

theorem single_authority_rotation_rejected:
  assumes "gadgets_ok G" and "same_crypto c G"
    and "epoch_end_header c S N n set_id [k] h" and "last_justified_block c set_id = Inr n"
    and "0 < N" and "3 * N < 2 ^ 32" and "S < 2 ^ 32" and "wf_justification N j"
  shows "\<exists>r. rotate_hint c S N set_id = Inr r
    \<and> rotate G N (N * VALIDATOR_LENGTH + DELAY_LENGTH) set_id set_hash r j = None"
proof -
  obtain r where "rotate_hint c S N set_id = Inr r" "rotate G N (N * 40 + 4) set_id set_hash r j = None"
    by (rule single_authority_rejected [OF assms])
  then show ?thesis by auto
qed

theorem single_authority_rotation_rejected_witness:
  "\<exists>r. rotate_hint (rotating_client (next_keys 1)) 400 3 0 = Inr r
    \<and> rotate toy_gadgets 3 (3 * VALIDATOR_LENGTH + DELAY_LENGTH) 0 (compute_authority_set_hash toy_digest three_keys) r
        (toy_justification 3 (replicate 32 7) 4 0 three_keys) = None"
proof -
  have one: "next_keys 1 = [replicate 32 4]" by (simp add: next_keys_def)
  have keys: "\<forall>k\<in>set (next_keys 1). length k = 32" "length (next_keys 1) \<le> 3" using next_keys_wf by simp_all
  have "wf_justification 3 (toy_justification 3 (replicate 32 7) 4 0 three_keys)"
    by (rule toy_justification_wf) (simp_all add: three_keys_def)
  then show ?thesis
    unfolding one
    by (intro single_authority_rotation_rejected [OF toy_gadgets_ok proving_client_simps(2)
          rotating_client(1,3) [OF keys, unfolded one]]) simp_all
qed

end
