(* ===== verification/Dummy_Programs.thy ===== *)
theory Dummy_Programs
  imports Rotation_Data
begin

text \<open>
  The programs that stand in for the circuits in tests (\<open>circuits/dummy_header_range.rs\<close> and
  \<open>circuits/dummy_rotate.rs\<close>): they compute the outputs from the chain without proving anything.
  The lemmas show that they agree with the circuits on a node that serves a chain.
\<close>

section \<open>The programs\<close>

definition dummy_header_range :: "client \<Rightarrow> byte list \<Rightarrow> byte list host" where
  "dummy_header_range c input_bytes =
     bind_h (slice_h 0 4 input_bytes) (\<lambda>trusted_block_bytes.
     bind_h (slice_h 4 36 input_bytes) (\<lambda>trusted_header_hash.
     bind_h (slice_h 36 44 input_bytes) (\<lambda>set_id_bytes.
     bind_h (slice_h 44 76 input_bytes) (\<lambda>set_hash.
     bind_h (slice_h 76 80 input_bytes) (\<lambda>target_block_bytes.
     let trusted_block = u32_from_be trusted_block_bytes;
         target_block = u32_from_be target_block_bytes
     in
     bind_h (get_header c target_block) (\<lambda>header.
     let target_hash = c_header_hash c header in
     bind_h (get_merkle_root_commitments c trusted_block target_block) (\<lambda>(state_merkle_root, data_merkle_root).
     Inr (target_hash @ state_merkle_root @ data_merkle_root))))))))"

definition dummy_rotate :: "client \<Rightarrow> byte list \<Rightarrow> byte list host" where
  "dummy_rotate c input_bytes =
     bind_h (slice_h 0 8 input_bytes) (\<lambda>set_id_bytes.
     bind_h (slice_h 8 40 input_bytes) (\<lambda>set_hash.
     bind_h (last_justified_block c (u64_from_be set_id_bytes)) (\<lambda>epoch_end_block_number.
     authority_set_hash_at c epoch_end_block_number)))"

text \<open>What the circuit's header hint fetches through the client.\<close>

definition client_range :: "client \<Rightarrow> u32 \<Rightarrow> u32 \<Rightarrow> byte list list host" where
  "client_range c a b = bind_h (get_block_headers_range c a b) (\<lambda>hs. Inr (map (c_encode_header c) hs))"

section \<open>A node that serves a chain\<close>

definition block_of :: "client \<Rightarrow> avail_header \<Rightarrow> chain_header" where
  "block_of c h = \<lparr>ch_parent = hdr_parent_hash h, ch_state_root = hdr_state_root h,
     ch_middle = hdr_extrinsics_root h @ scale_compact (of_nat (length (hdr_logs h)))
       @ concat (map (c_encode_log c) (hdr_logs h)) @ hdr_extension h,
     ch_data_root = hdr_data_root h\<rparr>"

definition served_chain :: "client \<Rightarrow> gadgets \<Rightarrow> nat \<Rightarrow> (nat \<Rightarrow> avail_header) \<Rightarrow> nat \<Rightarrow> nat \<Rightarrow> bool" where
  "served_chain c G S hdr a b \<longleftrightarrow> connected c \<and> avail_encoding c
     \<and> (\<forall>i. a < i \<and> i \<le> b \<longrightarrow> get_header c (of_nat i) = Inr (hdr i) \<and> hdr_number (hdr i) = of_nat i
          \<and> c_header_hash c (hdr i) = blake2b G (c_encode_header c (hdr i)))
     \<and> avail_chain G S (\<lambda>i. block_of c (hdr i)) (a + 1) b"

lemma encode_block_of:
  "avail_encoding c \<Longrightarrow> hdr_number h = of_nat i \<Longrightarrow> encode_chain_header i (block_of c h) = c_encode_header c h"
  by (simp add: avail_encoding_def header_layout_def encode_chain_header_def avail_header_bytes_def block_of_def)

lemma client_range_eq:
  assumes chain: "served_chain c G S hdr (unat s) (unat e)" and small: "unat e + 200 < 2 ^ 32"
    and range: "s < a" "b \<le> e"
  shows "client_range c a b = chain_range (\<lambda>i. block_of c (hdr i)) a b"
proof -
  have in_chain: "unat s < i \<and> i \<le> unat e" if "unat a \<le> i" "i \<le> unat b" for i
    using that range by (simp add: word_less_nat_alt word_le_nat_alt)
  have "get_block_headers_range c a b = Inr (map hdr [unat a..<unat b + 1])"
    by (rule get_block_headers_range_eq)
      (use chain small range in_chain in \<open>auto simp: served_chain_def word_le_nat_alt\<close>)
  moreover have "map (c_encode_header c) (map hdr [unat a..<unat b + 1])
      = map (\<lambda>i. encode_chain_header i (block_of c (hdr i))) [unat a..<unat b + 1]"
    using in_chain chain by (auto simp: served_chain_def encode_block_of)
  ultimately show ?thesis by (simp only: client_range_def chain_range_def bind_h_simps)
qed

lemma client_batch:
  assumes chain: "served_chain c G S hdr (unat s) (unat e)" and small: "unat e + 200 < 2 ^ 32"
    and lo: "unat s + lo + 8 < 2 ^ 32"
  shows "batch_headers (hint_output (client_range c) S) s e lo
    = batch_headers (hint_output (chain_range (\<lambda>i. block_of c (hdr i))) S) s e lo"
proof -
  have "s + of_nat (lo + 1) = of_nat (unat s + lo + 1)" by (simp add: algebra_simps)
  then have "unat (s + of_nat (lo + 1)) = unat s + lo + 1" using lo by (simp only:) (rule unat_of_nat_small, simp)
  then have "s < s + of_nat (lo + 1)" by (simp only: word_less_nat_alt)
  then have "client_range c (s + of_nat (lo + 1)) (min b e)
      = chain_range (\<lambda>i. block_of c (hdr i)) (s + of_nat (lo + 1)) (min b e)" for b
    by (rule client_range_eq [OF chain small]) simp
  then show ?thesis
    by (simp only: batch_headers_def hint_output_def header_range_fetcher_hint_def Let_def)
qed

text \<open>The circuit depends only on the batches it fetches.\<close>

lemma verify_subchain_cong:
  assumes ok: "gadgets_ok G" and mr: "mapreduce_gadget mapreduce" and jobs: "2 \<le> num_map_jobs N"
    and small: "unat trusted + 8 * num_map_jobs N < 2 ^ 32"
    and fetched: "fetched_ok g trusted target (num_map_jobs N)"
    and batch: "\<forall>i<num_map_jobs N. batch_headers f trusted target (8 * i) = batch_headers g trusted target (8 * i)"
  shows "verify_subchain G mapreduce f N trusted trusted_hash target
    = verify_subchain G mapreduce g N trusted trusted_hash target"
proof -
  have "fetched_ok f trusted target (num_map_jobs N)"
    using fetched batch by (simp add: fetched_ok_def list_all_iff)
  moreover have "range_headers f trusted target 0 (num_map_jobs N) = range_headers g trusted target 0 (num_map_jobs N)"
    using batch by (auto simp: range_headers_def intro!: arg_cong [of _ _ concat])
  ultimately show ?thesis
    using verify_subchain_eq [OF ok mr jobs small] fetched by simp
qed

lemma client_fetched:
  assumes chain: "served_chain c G S hdr (unat s) (unat e)" and small: "unat e + 200 < 2 ^ 32"
    and n: "unat s + 8 * n < 2 ^ 32"
  shows "fetched_ok (hint_output (client_range c) S) s e n"
  unfolding fetched_ok_def list_all_iff
proof
  fix i assume "i \<in> set [0..<n]"
  then have lo: "unat s + 8 * i + 8 < 2 ^ 32" using n by simp
  have avail: "avail_chain G S (\<lambda>i. block_of c (hdr i)) (unat s + 1) (unat e)"
    using chain by (simp add: served_chain_def)
  show "length (batch_headers (hint_output (client_range c) S) s e (8 * i)) = HEADERS_PER_MAP"
    unfolding client_batch [OF chain small lo] hint_batch [OF avail lo] by simp
qed

lemma verify_subchain_client:
  assumes ok: "gadgets_ok G" and mr: "mapreduce_gadget mapreduce" and jobs: "2 \<le> num_map_jobs N"
    and small: "unat trusted + 8 * num_map_jobs N < 2 ^ 32" "unat target + 200 < 2 ^ 32"
    and chain: "served_chain c G S hdr (unat trusted) (unat target)"
  shows "verify_subchain G mapreduce (hint_output (client_range c) S) N trusted trusted_hash target
    = verify_subchain G mapreduce (hint_output (chain_range (\<lambda>i. block_of c (hdr i))) S) N trusted trusted_hash target"
proof -
  have batch: "\<forall>i<num_map_jobs N. batch_headers (hint_output (chain_range (\<lambda>i. block_of c (hdr i))) S) trusted target (8 * i)
      = batch_headers (hint_output (client_range c) S) trusted target (8 * i)"
    using client_batch [OF chain small(2)] small(1) by simp
  show ?thesis
    by (rule verify_subchain_cong [OF ok mr jobs small(1) client_fetched [OF chain small(2,1)] batch, symmetric])
qed

section \<open>The outputs\<close>

lemma full_jobs: "num_map_jobs MAX_NUM_HEADERS = 32"
  by (simp add: num_map_jobs_def ceil_log2_def log2_floor.simps)

lemma header_range_input_slices:
  assumes "length trusted_hash = 32" "length set_hash = 32"
  shows "slice_h 0 4 (header_range_input a trusted_hash i set_hash b) = Inr (u32_to_be a)"
    "slice_h 4 36 (header_range_input a trusted_hash i set_hash b) = Inr trusted_hash"
    "slice_h 36 44 (header_range_input a trusted_hash i set_hash b) = Inr (u64_to_be i)"
    "slice_h 44 76 (header_range_input a trusted_hash i set_hash b) = Inr set_hash"
    "slice_h 76 80 (header_range_input a trusted_hash i set_hash b) = Inr (u32_to_be b)"
  using assms by (simp_all add: header_range_input_def u32_to_be_def u64_to_be_def segment_def)

lemma be_roundtrip [simp]: "u32_from_be (u32_to_be n) = n" "u64_from_be (u64_to_be k) = k"
  by (simp_all add: u32_from_be_def u32_to_be_def u64_from_be_def u64_to_be_def)

text \<open>What both compute for a chain.\<close>

definition header_range_output :: "client \<Rightarrow> gadgets \<Rightarrow> (nat \<Rightarrow> avail_header) \<Rightarrow> nat \<Rightarrow> nat \<Rightarrow> byte list" where
  "header_range_output c G hdr a b =
     (let pad = replicate (MAX_NUM_HEADERS - (b - a)) zero_hash; blocks = [a + 1..<b + 1]
      in blake2b G (c_encode_header c (hdr b))
         @ list_root (sha_node G) (map (\<lambda>i. hdr_state_root (hdr i)) blocks @ pad)
         @ list_root (sha_node G) (map (\<lambda>i. hdr_data_root (hdr i)) blocks @ pad))"

lemma dummy_header_range_eq:
  assumes crypto: "same_crypto c G" and chain: "served_chain c G S hdr (unat trusted) (unat target)"
    and range: "trusted < target" "unat target - unat trusted \<le> 256" "unat target + 200 < 2 ^ 32"
    and len: "length trusted_hash = 32" "length set_hash = 32"
  shows "dummy_header_range c (header_range_input trusted trusted_hash set_id set_hash target)
    = Inr (header_range_output c G hdr (unat trusted) (unat target))"
proof -
  have le: "unat trusted < unat target" using range(1) by (simp add: word_less_nat_alt)
  have node: "(\<lambda>l r. c_sha256 c (l @ r)) = sha_node G"
    using crypto by (simp add: fun_eq_iff same_crypto_def sha_node_def)
  have served: "get_header c (of_nat i) = Inr (hdr i)" if "unat trusted < i" "i \<le> unat target" for i
    using chain that by (simp add: served_chain_def)
  have con: "connected c" using chain by (simp add: served_chain_def)
  have roots: "get_merkle_root_commitments c trusted target =
    (let pad = replicate (256 - (unat target - unat trusted)) zero_hash; blocks = [unat trusted + 1..<unat target + 1]
     in Inr (list_root (sha_node G) (map (\<lambda>i. hdr_state_root (hdr i)) blocks @ pad),
             list_root (sha_node G) (map (\<lambda>i. hdr_data_root (hdr i)) blocks @ pad)))"
    using get_merkle_root_commitments_eq [OF con range(3) order.strict_implies_order [OF range(1)] range(2), of hdr] served
    unfolding node by (simp only: Let_def zero_hash_def) blast
  have last: "get_header c target = Inr (hdr (unat target))" using served [of "unat target"] le by simp
  moreover have "c_header_hash c (hdr (unat target)) = blake2b G (c_encode_header c (hdr (unat target)))"
    using chain le by (simp add: served_chain_def)
  ultimately show ?thesis
    by (simp add: dummy_header_range_def header_range_input_slices [OF len] roots Let_def header_range_output_def
        del: slice_h_simps)
qed

lemma header_range_define_served:
  assumes ok: "gadgets_ok G" and mr: "mapreduce_gadget mapreduce" and S: "69 \<le> S" "S < 2 ^ 32"
    and chain: "served_chain c G S hdr (unat trusted) (unat target)"
    and link: "hdr_parent_hash (hdr (unat trusted + 1)) = trusted_hash"
    and range: "trusted < target" "unat target - unat trusted \<le> 256" "unat target + 256 < 2 ^ 32"
    and len: "length trusted_hash = 32" "length set_hash = 32"
    and just: "verify_simple_justification G target (blake2b G (c_encode_header c (hdr (unat target)))) set_id set_hash
      (hint target set_id) = Some ()"
  shows "header_range_define G mapreduce (hint_output (client_range c) S) hint MAX_NUM_HEADERS
      (header_range_input trusted trusted_hash set_id set_hash target)
    = Some (header_range_output c G hdr (unat trusted) (unat target))"
proof -
  have le: "unat trusted < unat target" using range(1) by (simp add: word_less_nat_alt)
  have jobs: "2 \<le> num_map_jobs MAX_NUM_HEADERS" and small: "unat trusted + 8 * num_map_jobs MAX_NUM_HEADERS < 2 ^ 32"
    using le range(3) by (simp_all only: full_jobs)
  have target: "encode_chain_header (unat target) (block_of c (hdr (unat target))) = c_encode_header c (hdr (unat target))"
    by (rule encode_block_of) (use chain le in \<open>auto simp: served_chain_def\<close>)
  have "verify_subchain G mapreduce (hint_output (client_range c) S) MAX_NUM_HEADERS trusted trusted_hash target
    = verify_subchain G mapreduce (hint_output (chain_range (\<lambda>i. block_of c (hdr i))) S) MAX_NUM_HEADERS
        trusted trusted_hash target"
    by (rule verify_subchain_client [OF ok mr jobs small _ chain]) (use range(3) in simp)
  also have "\<dots> = Some
    (let pad = replicate (8 * num_map_jobs MAX_NUM_HEADERS - (unat target - unat trusted)) zero_hash;
         blocks = [unat trusted + 1..<unat target + 1]
     in \<lparr>target_header_hash = blake2b G (encode_chain_header (unat target) (block_of c (hdr (unat target)))),
         state_root_merkle_root =
           list_root (sha_node G) (map (\<lambda>i. ch_state_root (block_of c (hdr i))) blocks @ pad),
         data_root_merkle_root =
           list_root (sha_node G) (map (\<lambda>i. ch_data_root (block_of c (hdr i))) blocks @ pad)\<rparr>)"
    by (rule verify_subchain_honest [OF ok mr jobs small S])
      (use chain link range in \<open>simp_all only: served_chain_def full_jobs, simp_all add: block_of_def\<close>)
  finally show ?thesis
    using just unfolding header_range_define_eq [OF len] target
    by (simp add: Let_def full_jobs [unfolded MAX_NUM_HEADERS_def] header_range_output_def block_of_def del: upt_Suc)
qed

lemma dummy_rotate_eq:
  assumes "same_crypto c G" and "hash_gadgets G" and "last_justified_block c set_id = Inr n"
    and "get_authorities c n = Inr ks" and "ks \<noteq> []" and "length set_hash = 32"
  shows "dummy_rotate c (rotate_input set_id set_hash) = Inr (compute_authority_set_hash (c_sha256 c) ks)"
proof -
  have "length (compute_authority_set_hash (c_sha256 c) ks) = 32"
    using assms(1) length_authority_set_hash [OF assms(2,5)] by (simp add: same_crypto_def)
  moreover have "slice_h 0 8 (rotate_input set_id set_hash) = Inr (u64_to_be set_id)"
    "slice_h 8 40 (rotate_input set_id set_hash) = Inr set_hash"
    using assms(6) by (simp_all add: rotate_input_def u64_to_be_def segment_def)
  ultimately show ?thesis
    using assms(3,4) by (simp add: dummy_rotate_def authority_set_hash_at_def Let_def del: slice_h_simps)
qed

section \<open>A linked chain\<close>

text \<open>A chain of headers with Blake2b links, whose block 4 is finalised by the three example keys.\<close>

primrec linked_parent :: "nat \<Rightarrow> bytes32" where
  "linked_parent 0 = zero_hash"
| "linked_parent (Suc i) = toy_digest (header_layout toy_encode_log
     ((digest_header [] i)\<lparr>hdr_parent_hash := linked_parent i, hdr_logs := []\<rparr>))"

definition linked_header :: "nat \<Rightarrow> avail_header" where
  "linked_header i = (digest_header [] i)\<lparr>hdr_parent_hash := linked_parent i, hdr_logs := []\<rparr>"

abbreviation linked_client :: client where
  "linked_client \<equiv> proving_client linked_header (\<lambda>i. three_keys) (linked_parent 5) three_keys"

lemma length_linked_parent: "length (linked_parent i) = 32"
  by (cases i) (simp_all add: zero_hash_def toy_digest_def)

lemma linked_client:
  assumes "b < 2 ^ 32"
  shows "served_chain linked_client toy_gadgets 160 linked_header a b"
    and "avail_chain toy_gadgets 160 (\<lambda>i. block_of linked_client (linked_header i)) a b"
    and "finality_proof linked_client 4 0 (linked_parent 5) three_keys (set three_keys)"
    and "blake2b toy_gadgets (c_encode_header linked_client (linked_header 4)) = linked_parent 5"
proof -
  let ?c = linked_client
  have enc: "c_encode_header ?c = header_layout toy_encode_log" "c_header_hash ?c = (\<lambda>h. toy_digest (header_layout toy_encode_log h))"
    and hash: "blake2b toy_gadgets = toy_digest"
    by (simp_all add: proving_client_def toy_client_def Let_def toy_gadgets_def)
  have parent: "linked_parent (Suc i) = toy_digest (header_layout toy_encode_log (linked_header i))" for i
    by (simp add: linked_header_def)
  show "blake2b toy_gadgets (c_encode_header linked_client (linked_header 4)) = linked_parent 5"
    using parent [of 4] unfolding enc hash by (simp add: numeral_eq_Suc del: linked_parent.simps)
  show "finality_proof ?c 4 0 (linked_parent 5) three_keys (set three_keys)"
    using proving_client_proof [where auths = "\<lambda>i. three_keys" and signers = three_keys and bh = "linked_parent 5"
        and hdr = linked_header] length_linked_parent [of 5]
    by (simp add: three_keys_def)
  have number: "hdr_number (linked_header i) = of_nat i" for i by (simp add: linked_header_def digest_header_def)
  have encode: "encode_chain_header i (block_of ?c (linked_header i)) = header_layout toy_encode_log (linked_header i)" for i
    unfolding enc(1) [symmetric] by (rule encode_block_of [OF proving_client_simps(5) number])
  have "length (header_layout toy_encode_log (linked_header i)) \<le> 160" for i
  proof -
    have "length (scale_compact 0) = 1" by (simp add: scale_compact_def)
    then show ?thesis
      using length_scale_compact_le [of "of_nat i"] length_linked_parent [of i]
      by (simp add: header_layout_def linked_header_def digest_header_def)
  qed
  moreover have "ch_parent (block_of ?c (linked_header i)) = linked_parent i"
    "length (ch_state_root (block_of ?c (linked_header i))) = 32" "length (ch_data_root (block_of ?c (linked_header i))) = 32" for i
    by (simp_all add: block_of_def linked_header_def digest_header_def)
  moreover have "toy_digest (header_layout toy_encode_log (linked_header (i - 1))) = linked_parent i" if "0 < i" for i
    using parent [of "i - 1"] that by simp
  ultimately have avail: "avail_chain toy_gadgets 160 (\<lambda>i. block_of ?c (linked_header i)) a b" for a
    unfolding avail_chain_def encode hash using length_linked_parent by simp
  then show "avail_chain toy_gadgets 160 (\<lambda>i. block_of linked_client (linked_header i)) a b" by blast
  from avail [of "a + 1"] show "served_chain ?c toy_gadgets 160 linked_header a b"
    using proving_client_simps(1,5) proving_client_simps(7) assms number
    by (auto simp: served_chain_def enc hash)
qed

section \<open>Properties\<close>

text \<open>C7. The header range proof from the chain to the output: on a node that serves a linked chain of at
  most 256 blocks whose last block is finalised by more than two thirds of the set, with a finality proof of
  the node if the block ends an epoch and a justification in Redis if it does not, the justification
  hint answers and the circuit of 256 headers, fed by the fetcher, accepts; the test program, which
  only computes, returns the same bytes on the same input.\<close>

theorem header_range_from_chain:
  assumes "gadgets_ok G" and "mapreduce_gadget mapreduce" and "same_crypto c G"
    and "length (c_dummy_signature c) = 64" and "69 \<le> S" and "S < 2 ^ 32"
    and "served_chain c G S hdr (unat trusted) (unat target)"
    and "hdr_parent_hash (hdr (unat trusted + 1)) = trusted_hash" and "length trusted_hash = 32"
    and "trusted < target" and "unat target - unat trusted \<le> MAX_NUM_HEADERS" and "unat target + 256 < 2 ^ 32"
    and "served_finality c target set_id (blake2b G (c_encode_header c (hdr (unat target)))) ks signers"
    and "2 * length ks < 3 * card (signer_slots ks signers)" and "length ks \<le> N" and "3 * N < 2 ^ 32"
  shows "\<exists>j out. hint_simple_justification c N target set_id = Inr j
    \<and> header_range_define G mapreduce (hint_output (client_range c) S) (\<lambda>b i. j) MAX_NUM_HEADERS
        (header_range_input trusted trusted_hash set_id (compute_authority_set_hash (c_sha256 c) ks) target) = Some out
    \<and> dummy_header_range c
        (header_range_input trusted trusted_hash set_id (compute_authority_set_hash (c_sha256 c) ks) target) = Inr out"
proof -
  obtain j where j: "hint_simple_justification c N target set_id = Inr j"
    "verify_simple_justification G target (blake2b G (c_encode_header c (hdr (unat target)))) set_id
      (compute_authority_set_hash (c_sha256 c) ks) j = Some ()"
    using served_hint_accepted [OF assms(1,3,4,13,15,16,14)] by blast
  have "signer_slots ks signers \<noteq> {}" using assms(14) by auto
  then have "ks \<noteq> []" by (auto simp: signer_slots_def)
  then have "length (compute_authority_set_hash (c_sha256 c) ks) = 32"
    using assms(3) length_authority_set_hash [OF gadgets_okD(5) [OF assms(1)]] by (simp add: same_crypto_def)
  then show ?thesis
    using j header_range_define_served [where hint = "\<lambda>b i. j", OF assms(1,2,5-8,10) _ assms(12,9) _ j(2)]
      dummy_header_range_eq [OF assms(3,7,10) _ _ assms(9)] assms(11,12)
    by auto
qed

theorem header_range_from_chain_witness:
  "\<exists>j out. hint_simple_justification linked_client 3 4 0 = Inr j
    \<and> header_range_define toy_gadgets tree_mapreduce (hint_output (client_range linked_client) 160) (\<lambda>b i. j) MAX_NUM_HEADERS
        (header_range_input 1 (linked_parent 2) 0 (compute_authority_set_hash (c_sha256 linked_client) three_keys) 4) = Some out
    \<and> dummy_header_range linked_client
        (header_range_input 1 (linked_parent 2) 0 (compute_authority_set_hash (c_sha256 linked_client) three_keys) 4) = Inr out"
proof -
  have chain: "served_chain linked_client toy_gadgets 160 linked_header (unat (1 :: u32)) (unat (4 :: u32))"
    by (rule linked_client) simp
  have proof_: "served_finality linked_client 4 0
      (blake2b toy_gadgets (c_encode_header linked_client (linked_header (unat (4 :: u32))))) three_keys (set three_keys)"
    using linked_client(3,4) [of 0] by (simp add: served_finality_def)
  have parent: "hdr_parent_hash (linked_header (unat (1 :: u32) + 1)) = linked_parent 2"
    by (simp add: linked_header_def numeral_2_eq_2 del: linked_parent.simps)
  show ?thesis
    by (rule header_range_from_chain [OF toy_gadgets_ok tree_mapreduce_ok proving_client_simps(2,3) _ _ chain parent
          length_linked_parent _ _ _ proof_])
      (simp_all add: three_slots, simp_all add: three_keys_def)
qed

text \<open>The test program of a rotation agrees with the circuit: on a node that serves an epoch end with
  its finality proof, the circuit's output on the fetched data is what the program returns.\<close>

theorem dummy_rotate_agrees:
  assumes "gadgets_ok G" and "same_crypto c G" and "length (c_dummy_signature c) = 64"
    and "epoch_end_header c S N n set_id ks h" and "last_justified_block c set_id = Inr n"
    and "finality_proof c n set_id (blake2b G (c_encode_header c h)) old signers"
    and "2 * length old < 3 * card (signer_slots old signers)" and "length old \<le> N"
    and "2 \<le> length ks" and "length ks \<le> N" and "N < 410" and "S < 2 ^ 32"
    and "input = rotate_input set_id (compute_authority_set_hash (c_sha256 c) old)"
  shows "\<exists>r j out. rotate_hint c S N set_id = Inr r \<and> hint_simple_justification c N n set_id = Inr j
    \<and> rotate_define G N (N * VALIDATOR_LENGTH + DELAY_LENGTH) (\<lambda>i. r) (\<lambda>b i. j) input = Some out
    \<and> dummy_rotate c input = Inr out"
proof -
  obtain r j where rj: "rotate_hint c S N set_id = Inr r" "hint_simple_justification c N n set_id = Inr j"
    "rotate_define G N (N * VALIDATOR_LENGTH + DELAY_LENGTH) (\<lambda>i. r) (\<lambda>b i. j) input
      = Some (compute_authority_set_hash (c_sha256 c) ks)"
    unfolding assms(13) using rotation_from_chain [OF assms(1-12)] by blast
  have "signer_slots old signers \<noteq> {}" using assms(7) by auto
  then have "old \<noteq> []" by (auto simp: signer_slots_def)
  then have "length (compute_authority_set_hash (c_sha256 c) old) = 32"
    using assms(2) length_authority_set_hash [OF gadgets_okD(5) [OF assms(1)]] by (simp add: same_crypto_def)
  moreover have "get_authorities c n = Inr ks" "ks \<noteq> []" using assms(4,9) by (auto simp: epoch_end_header_def)
  ultimately have "dummy_rotate c input = Inr (compute_authority_set_hash (c_sha256 c) ks)"
    unfolding assms(13) using dummy_rotate_eq [OF assms(2) gadgets_okD(5) [OF assms(1)] assms(5)] by blast
  with rj show ?thesis by blast
qed

theorem dummy_rotate_agrees_witness:
  "\<exists>r j out. rotate_hint (rotating_client (next_keys 2)) 400 3 0 = Inr r
    \<and> hint_simple_justification (rotating_client (next_keys 2)) 3 4 0 = Inr j
    \<and> rotate_define toy_gadgets 3 (3 * VALIDATOR_LENGTH + DELAY_LENGTH) (\<lambda>i. r) (\<lambda>b i. j)
        (rotate_input 0 (compute_authority_set_hash (c_sha256 (rotating_client (next_keys 2))) three_keys)) = Some out
    \<and> dummy_rotate (rotating_client (next_keys 2))
        (rotate_input 0 (compute_authority_set_hash (c_sha256 (rotating_client (next_keys 2))) three_keys)) = Inr out"
proof -
  have keys: "\<forall>k\<in>set (next_keys 2). length k = 32" "length (next_keys 2) \<le> 3" using next_keys_wf by simp_all
  have proof_: "finality_proof (rotating_client (next_keys 2)) 4 0
      (blake2b toy_gadgets (c_encode_header (rotating_client (next_keys 2)) (digest_header (next_keys 2) 4)))
      three_keys (set three_keys)" by (rule rotating_client_proof [OF keys])
  show ?thesis
    by (rule dummy_rotate_agrees [OF toy_gadgets_ok proving_client_simps(2,3) rotating_client(1,3) [OF keys] proof_])
      (simp_all add: three_slots next_keys_wf, simp_all add: three_keys_def)
qed

end
