(* ===== verification/Light_Client_Interface.thy ===== *)
theory Light_Client_Interface
  imports Circuits
begin

text \<open>
  The interface between a light client's storage and the proofs it accepts: a view of the chain, the
  promise that answers are true of it, and the locale of a store that advances by answers only. The laws
  of the store imply that it never holds anything but the hashes of the chain.
\<close>

section \<open>A view of the chain\<close>

record chain_view =
  cv_head :: nat
  cv_ids :: "nat \<Rightarrow> nat"
  cv_header :: "nat \<Rightarrow> bytes32"
  cv_set :: "nat \<Rightarrow> bytes32"
  cv_state_root :: "nat \<Rightarrow> nat \<Rightarrow> bytes32"
  cv_data_root :: "nat \<Rightarrow> nat \<Rightarrow> bytes32"

abbreviation cv_last_set :: "chain_view \<Rightarrow> nat" where
  "cv_last_set V \<equiv> cv_ids V (cv_head V)"

text \<open>Answers about the true set of an id say the truth about the block and the range.\<close>

definition true_range :: "chain_view \<Rightarrow> (byte list \<Rightarrow> byte list option) \<Rightarrow> bool" where
  "true_range V ask \<longleftrightarrow> (\<forall>a p i b out.
     ask (header_range_input a p i (cv_set V (unat i)) b) = Some out \<longrightarrow> a < b \<longrightarrow> unat a + 256 < 2 ^ 32 \<longrightarrow>
     length p = 32 \<longrightarrow> unat i \<le> cv_last_set V \<longrightarrow>
       unat b \<le> cv_head V \<and> unat i = cv_ids V (unat b - 1) \<and> p = cv_header V (unat a)
       \<and> segment 0 32 out = cv_header V (unat b) \<and> segment 32 64 out = cv_state_root V (unat a) (unat b)
       \<and> segment 64 96 out = cv_data_root V (unat a) (unat b))"

definition true_rotation :: "chain_view \<Rightarrow> (byte list \<Rightarrow> byte list option) \<Rightarrow> bool" where
  "true_rotation V ask \<longleftrightarrow> (\<forall>i out.
     ask (rotate_input i (cv_set V (unat i))) = Some out \<longrightarrow> unat i \<le> cv_last_set V \<longrightarrow>
       unat i < cv_last_set V \<and> segment 0 32 out = cv_set V (unat i + 1))"

text \<open>The hashes a store holds, where it holds any, are those of the chain.\<close>

definition tracks :: "chain_view \<Rightarrow> (u32 \<Rightarrow> bytes32) \<Rightarrow> (u64 \<Rightarrow> bytes32) \<Rightarrow> bool" where
  "tracks V header sets \<longleftrightarrow>
     (\<forall>b. header b \<noteq> zero_hash \<longrightarrow> unat b \<le> cv_head V \<and> header b = cv_header V (unat b))
     \<and> (\<forall>i. sets i \<noteq> zero_hash \<longrightarrow> unat i \<le> cv_last_set V \<and> sets i = cv_set V (unat i))"

lemma tracksD:
  assumes "tracks V header sets"
  shows "header b \<noteq> zero_hash \<Longrightarrow> unat b \<le> cv_head V" "header b \<noteq> zero_hash \<Longrightarrow> header b = cv_header V (unat b)"
    and "sets i \<noteq> zero_hash \<Longrightarrow> unat i \<le> cv_last_set V" "sets i \<noteq> zero_hash \<Longrightarrow> sets i = cv_set V (unat i)"
  using assms unfolding tracks_def by blast+

text \<open>A longer chain keeps what was true of a shorter one.\<close>

lemma tracks_grow:
  assumes "tracks V header sets" and "cv_head V \<le> h" and "cv_last_set V \<le> cv_ids V h"
  shows "tracks (V\<lparr>cv_head := h\<rparr>) header sets"
  using assms unfolding tracks_def by fastforce

section \<open>The interface\<close>

text \<open>\<open>commit i b s s' d r\<close>: the store takes the range up to \<open>b\<close> attested by the set \<open>i\<close>, with the data
  commitment \<open>d\<close> and the state commitment \<open>r\<close>; \<open>rotate i s s'\<close>: it takes the set after \<open>i\<close>.\<close>

locale light_client_store =
  fixes latest :: "'s \<Rightarrow> u32" and header :: "'s \<Rightarrow> u32 \<Rightarrow> bytes32" and sets :: "'s \<Rightarrow> u64 \<Rightarrow> bytes32"
    and ask_range :: "'s \<Rightarrow> byte list \<Rightarrow> byte list option" and ask_rotation :: "'s \<Rightarrow> byte list \<Rightarrow> byte list option"
    and commit :: "u64 \<Rightarrow> u32 \<Rightarrow> 's \<Rightarrow> 's \<Rightarrow> bytes32 \<Rightarrow> bytes32 \<Rightarrow> bool" and rotate :: "u64 \<Rightarrow> 's \<Rightarrow> 's \<Rightarrow> bool"
  assumes commit_law: "commit i b s s' d r \<Longrightarrow> latest s < b \<and> header s (latest s) \<noteq> zero_hash \<and> sets s i \<noteq> zero_hash
      \<and> latest s' = b \<and> sets s' = sets s
      \<and> (\<exists>out. ask_range s (header_range_input (latest s) (header s (latest s)) i (sets s i) b) = Some out
           \<and> header s' = (header s)(b := segment 0 32 out) \<and> r = segment 32 64 out \<and> d = segment 64 96 out)"
    and rotate_law: "rotate i s s' \<Longrightarrow> sets s i \<noteq> zero_hash \<and> unat i + 1 < 2 ^ 64 \<and> latest s' = latest s \<and> header s' = header s
      \<and> (\<exists>out. ask_rotation s (rotate_input i (sets s i)) = Some out \<and> sets s' = (sets s)(i + 1 := segment 0 32 out))"
begin

lemma commit_true:
  assumes "commit i b s s' d r" and "tracks V (header s) (sets s)" and "true_range V (ask_range s)"
    and "unat (latest s) + 256 < 2 ^ 32" and "length (header s (latest s)) = 32"
  shows "unat b \<le> cv_head V \<and> unat i = cv_ids V (unat b - 1) \<and> sets s i = cv_set V (unat i)
    \<and> header s' = (header s)(b := cv_header V (unat b))
    \<and> d = cv_data_root V (unat (latest s)) (unat b) \<and> r = cv_state_root V (unat (latest s)) (unat b)"
proof -
  obtain out where c: "latest s < b" "sets s i \<noteq> zero_hash"
    and out: "ask_range s (header_range_input (latest s) (header s (latest s)) i (sets s i) b) = Some out"
    "header s' = (header s)(b := segment 0 32 out)" "r = segment 32 64 out" "d = segment 64 96 out"
    using commit_law [OF assms(1)] by blast
  note i = tracksD(3,4) [OF assms(2) c(2)]
  have "ask_range s (header_range_input (latest s) (header s (latest s)) i (cv_set V (unat i)) b) = Some out"
    using out(1) i(2) by simp
  then show ?thesis using assms(3-5) c i out(2-4) unfolding true_range_def by metis
qed

lemma commit_tracks:
  assumes "commit i b s s' d r" and "tracks V (header s) (sets s)" and "true_range V (ask_range s)"
    and "unat (latest s) + 256 < 2 ^ 32" and "length (header s (latest s)) = 32"
  shows "tracks V (header s') (sets s')"
  using commit_true [OF assms] commit_law [OF assms(1)] assms(2) by (simp add: tracks_def)

lemma rotate_true:
  assumes "rotate i s s'" and "tracks V (header s) (sets s)" and "true_rotation V (ask_rotation s)"
  shows "unat i < cv_last_set V \<and> unat (i + 1) = unat i + 1 \<and> sets s i = cv_set V (unat i)
    \<and> sets s' = (sets s)(i + 1 := cv_set V (unat i + 1))"
proof -
  obtain out where c: "sets s i \<noteq> zero_hash" "unat i + 1 < 2 ^ 64"
    and out: "ask_rotation s (rotate_input i (sets s i)) = Some out" "sets s' = (sets s)(i + 1 := segment 0 32 out)"
    using rotate_law [OF assms(1)] by blast
  note i = tracksD(3,4) [OF assms(2) c(1)]
  have "unat i < cv_last_set V" "segment 0 32 out = cv_set V (unat i + 1)"
    using assms(3) out(1) i unfolding true_rotation_def by metis+
  then show ?thesis using c(2) i(2) out(2) by (simp add: unat_word_ariths)
qed

lemma rotate_tracks:
  assumes "rotate i s s'" and "tracks V (header s) (sets s)" and "true_rotation V (ask_rotation s)"
  shows "tracks V (header s') (sets s')"
  using rotate_true [OF assms] rotate_law [OF assms(1)] assms(2) by (simp add: tracks_def)

end

end
