(* ===== verification/Contract.thy ===== *)
theory Contract
  imports Dummy_Programs Light_Client_Interface
begin

text \<open>
  The on-chain light client (\<open>contracts/src/VectorX.sol\<close>): its storage and every function that changes
  it. Keccak, the gateway that verifies proofs and the guardian role of \<open>TimelockedUpgradeable\<close> are
  parameters. The commitments are a log of the contract's events, and with a gateway that lets only provable
  outputs through, every stored range is backed by a finalised chain of headers.
\<close>

section \<open>Storage\<close>

text \<open>Mappings are total, zero where nothing was stored.\<close>

record vectorx =
  vx_frozen :: bool
  vx_gateway :: nat
  vx_latest_block :: u32
  vx_header_range_function_id :: bytes32
  vx_rotate_function_id :: bytes32
  vx_header_hash :: "u32 \<Rightarrow> bytes32"
  vx_set_hash :: "u64 \<Rightarrow> bytes32"
  vx_data_commitments :: "bytes32 \<Rightarrow> bytes32"
  vx_state_commitments :: "bytes32 \<Rightarrow> bytes32"
  vx_range_start :: "bytes32 \<Rightarrow> u32"

datatype vx_error = ContractFrozen | TrustedHeaderNotFound | AuthoritySetNotFound | NextAuthoritySetExists
  | Require_failed | Panicked | Gateway_reverted | Decode_failed | Not_guardian

datatype vx_event =
    HeadUpdate u32 bytes32
  | HeaderRangeCommitmentStored u32 u32 bytes32 bytes32    \<comment> \<open>start, end, data, state\<close>
  | AuthoritySetStored u64 bytes32
  | HeaderRangeRequested u32 bytes32 u64 bytes32 u32
  | RotateRequested u64 bytes32

type_synonym 'a vx = "vx_error + 'a"

definition bind_v :: "'a vx \<Rightarrow> ('a \<Rightarrow> 'b vx) \<Rightarrow> 'b vx" where
  "bind_v m f = (case m of Inl e \<Rightarrow> Inl e | Inr x \<Rightarrow> f x)"

definition require_v :: "vx_error \<Rightarrow> bool \<Rightarrow> unit vx" where
  "require_v e b = (if b then Inr () else Inl e)"

lemma vx_simps [simp]:
  "bind_v m f = Inr y \<longleftrightarrow> (\<exists>x. m = Inr x \<and> f x = Inr y)"
  "bind_v (Inl e) f = Inl e" "bind_v (Inr x) f = f x"
  "require_v e b = Inr u \<longleftrightarrow> b" "require_v e True = Inr ()" "require_v e False = Inl e"
  by (cases m) (simp_all add: bind_v_def require_v_def)

text \<open>The gateway of an address: from a function id and an input to the output of a verified call.\<close>

type_synonym gateway = "nat \<Rightarrow> bytes32 \<Rightarrow> byte list \<Rightarrow> byte list option"

definition verified_call :: "gateway \<Rightarrow> vectorx \<Rightarrow> bytes32 \<Rightarrow> byte list \<Rightarrow> byte list vx" where
  "verified_call gw s fid input =
     (case gw (vx_gateway s) fid input of None \<Rightarrow> Inl Gateway_reverted | Some out \<Rightarrow> Inr out)"

text \<open>\<open>abi.encode\<close> of two \<open>uint32\<close> and \<open>abi.decode\<close> of \<open>bytes32\<close> words.\<close>

definition abi_range :: "u32 \<Rightarrow> u32 \<Rightarrow> byte list" where
  "abi_range a b = replicate 28 0 @ u32_to_be a @ replicate 28 0 @ u32_to_be b"

definition abi_words :: "nat \<Rightarrow> byte list \<Rightarrow> bytes32 list vx" where
  "abi_words n out = (if length out < 32 * n then Inl Decode_failed
     else Inr (map (\<lambda>i. segment (32 * i) (32 * i + 32) out) [0..<n]))"

section \<open>The functions\<close>

definition commit_header_range ::
    "(byte list \<Rightarrow> bytes32) \<Rightarrow> gateway \<Rightarrow> u64 \<Rightarrow> u32 \<Rightarrow> vectorx \<Rightarrow> (vectorx \<times> vx_event list) vx" where
  "commit_header_range keccak gw set_id target s =
     bind_v (require_v ContractFrozen (\<not> vx_frozen s)) (\<lambda>_.
     let latest = vx_latest_block s; trusted_header = vx_header_hash s latest in
     bind_v (require_v TrustedHeaderNotFound (trusted_header \<noteq> zero_hash)) (\<lambda>_.
     let set_hash = vx_set_hash s set_id in
     bind_v (require_v AuthoritySetNotFound (set_hash \<noteq> zero_hash)) (\<lambda>_.
     bind_v (require_v Require_failed (target > latest)) (\<lambda>_.
     bind_v (verified_call gw s (vx_header_range_function_id s)
         (header_range_input latest trusted_header set_id set_hash target)) (\<lambda>out.
     bind_v (abi_words 3 out) (\<lambda>words.
     let target_hash = words ! 0; state_root = words ! 1; data_root = words ! 2;
         key = keccak (abi_range latest target)
     in Inr (s\<lparr>vx_header_hash := (vx_header_hash s)(target := target_hash),
            vx_data_commitments := (vx_data_commitments s)(key := data_root),
            vx_state_commitments := (vx_state_commitments s)(key := state_root),
            vx_range_start := (vx_range_start s)(key := latest),
            vx_latest_block := target\<rparr>,
         [HeadUpdate target target_hash, HeaderRangeCommitmentStored latest target data_root state_root])))))))"

definition rotate_set :: "gateway \<Rightarrow> u64 \<Rightarrow> vectorx \<Rightarrow> (vectorx \<times> vx_event list) vx" where
  "rotate_set gw set_id s =
     bind_v (require_v ContractFrozen (\<not> vx_frozen s)) (\<lambda>_.
     let set_hash = vx_set_hash s set_id in
     bind_v (require_v AuthoritySetNotFound (set_hash \<noteq> zero_hash)) (\<lambda>_.
     bind_v (verified_call gw s (vx_rotate_function_id s) (rotate_input set_id set_hash)) (\<lambda>out.
     bind_v (abi_words 1 out) (\<lambda>words.
     bind_v (require_v Panicked (unat set_id + 1 < 2 ^ 64)) (\<lambda>_.
     Inr (s\<lparr>vx_set_hash := (vx_set_hash s)(set_id + 1 := words ! 0)\<rparr>,
       [AuthoritySetStored (set_id + 1) (words ! 0)]))))))"

text \<open>The requests leave the storage as it is; the result is the call handed to the gateway.\<close>

datatype vx_call = CommitHeaderRange u64 u32 | Rotate u64

definition request_header_range_v :: "u64 \<Rightarrow> u32 \<Rightarrow> vectorx \<Rightarrow> (bytes32 \<times> byte list \<times> vx_call \<times> vx_event list) vx" where
  "request_header_range_v set_id requested s =
     (let latest = vx_latest_block s; trusted_header = vx_header_hash s latest; set_hash = vx_set_hash s set_id in
     bind_v (require_v AuthoritySetNotFound (trusted_header \<noteq> zero_hash)) (\<lambda>_.
     bind_v (require_v AuthoritySetNotFound (set_hash \<noteq> zero_hash)) (\<lambda>_.
     bind_v (require_v Require_failed (requested > latest)) (\<lambda>_.
     Inr (vx_header_range_function_id s, header_range_input latest trusted_header set_id set_hash requested,
       CommitHeaderRange set_id requested,
       [HeaderRangeRequested latest trusted_header set_id set_hash requested])))))"

definition request_rotate_v :: "u64 \<Rightarrow> vectorx \<Rightarrow> (bytes32 \<times> byte list \<times> vx_call \<times> vx_event list) vx" where
  "request_rotate_v set_id s =
     (let set_hash = vx_set_hash s set_id in
     bind_v (require_v AuthoritySetNotFound (set_hash \<noteq> zero_hash)) (\<lambda>_.
     bind_v (require_v Panicked (unat set_id + 1 < 2 ^ 64)) (\<lambda>_.
     bind_v (require_v NextAuthoritySetExists (vx_set_hash s (set_id + 1) = zero_hash)) (\<lambda>_.
     Inr (vx_rotate_function_id s, rotate_input set_id set_hash, Rotate set_id, [RotateRequested set_id set_hash])))))"

text \<open>\<open>initialize\<close>, which its modifier admits once, on a contract whose storage is zero.\<close>

definition initialize_vx :: "nat \<Rightarrow> u32 \<Rightarrow> bytes32 \<Rightarrow> u64 \<Rightarrow> bytes32 \<Rightarrow> bytes32 \<Rightarrow> bytes32 \<Rightarrow> vectorx" where
  "initialize_vx gw height header set_id set_hash header_range_id rotate_id =
     \<lparr>vx_frozen = False, vx_gateway = gw, vx_latest_block = height, vx_header_range_function_id = header_range_id,
      vx_rotate_function_id = rotate_id, vx_header_hash = (\<lambda>b. zero_hash)(height := header),
      vx_set_hash = (\<lambda>i. zero_hash)(set_id := set_hash), vx_data_commitments = (\<lambda>k. zero_hash),
      vx_state_commitments = (\<lambda>k. zero_hash), vx_range_start = (\<lambda>k. 0)\<rparr>"

text \<open>The functions of the guardian; \<open>guardian\<close> says whether the caller has the role.\<close>

definition update_freeze :: "bool \<Rightarrow> bool \<Rightarrow> vectorx \<Rightarrow> vectorx vx" where
  "update_freeze guardian freeze s =
     bind_v (require_v Not_guardian guardian) (\<lambda>_. Inr (s\<lparr>vx_frozen := freeze\<rparr>))"

definition update_function_ids :: "bool \<Rightarrow> bytes32 \<Rightarrow> bytes32 \<Rightarrow> vectorx \<Rightarrow> vectorx vx" where
  "update_function_ids guardian header_range_id rotate_id s =
     bind_v (require_v Not_guardian guardian) (\<lambda>_.
     Inr (s\<lparr>vx_header_range_function_id := header_range_id, vx_rotate_function_id := rotate_id\<rparr>))"

definition update_gateway :: "bool \<Rightarrow> nat \<Rightarrow> vectorx \<Rightarrow> vectorx vx" where
  "update_gateway guardian gw s = bind_v (require_v Not_guardian guardian) (\<lambda>_. Inr (s\<lparr>vx_gateway := gw\<rparr>))"

definition update_genesis_state :: "bool \<Rightarrow> u32 \<Rightarrow> bytes32 \<Rightarrow> u64 \<Rightarrow> bytes32 \<Rightarrow> vectorx \<Rightarrow> vectorx vx" where
  "update_genesis_state guardian height header set_id set_hash s =
     bind_v (require_v Not_guardian guardian) (\<lambda>_.
     Inr (s\<lparr>vx_header_hash := (vx_header_hash s)(height := header),
        vx_set_hash := (vx_set_hash s)(set_id := set_hash), vx_latest_block := height\<rparr>))"

record block_range =
  br_start :: u32
  br_end :: u32
  br_header_hash :: bytes32
  br_data :: bytes32
  br_state :: bytes32

text \<open>The loop of \<open>updateBlockRangeData\<close>; each range must end where the next one starts.\<close>

fun store_ranges :: "(byte list \<Rightarrow> bytes32) \<Rightarrow> block_range list \<Rightarrow> vectorx \<Rightarrow> (vectorx \<times> vx_event list) vx" where
  "store_ranges keccak [] s = Inr (s, [])"
| "store_ranges keccak (r # rs) s =
     bind_v (require_v Require_failed (rs = [] \<or> br_end r = br_start (hd rs))) (\<lambda>_.
     let key = keccak (abi_range (br_start r) (br_end r));
         s' = s\<lparr>vx_data_commitments := (vx_data_commitments s)(key := br_data r),
              vx_state_commitments := (vx_state_commitments s)(key := br_state r),
              vx_range_start := (vx_range_start s)(key := br_start r),
              vx_header_hash := (vx_header_hash s)(br_end r := br_header_hash r)\<rparr>
     in bind_v (store_ranges keccak rs s') (\<lambda>(s'', evs).
        Inr (s'', HeadUpdate (br_end r) (br_header_hash r)
          # HeaderRangeCommitmentStored (br_start r) (br_end r) (br_data r) (br_state r) # evs)))"

definition zip_ranges :: "u32 list \<Rightarrow> u32 list \<Rightarrow> bytes32 list \<Rightarrow> bytes32 list \<Rightarrow> bytes32 list \<Rightarrow> block_range list" where
  "zip_ranges starts ends hashes datas states =
     map (\<lambda>i. \<lparr>br_start = starts ! i, br_end = ends ! i, br_header_hash = hashes ! i, br_data = datas ! i,
       br_state = states ! i\<rparr>) [0..<length starts]"

definition update_block_range_data ::
    "(byte list \<Rightarrow> bytes32) \<Rightarrow> bool \<Rightarrow> u32 list \<Rightarrow> u32 list \<Rightarrow> bytes32 list \<Rightarrow> bytes32 list \<Rightarrow> bytes32 list
      \<Rightarrow> u64 \<Rightarrow> bytes32 \<Rightarrow> vectorx \<Rightarrow> (vectorx \<times> vx_event list) vx" where
  "update_block_range_data keccak guardian starts ends hashes datas states end_set_id end_set_hash s =
     bind_v (require_v Not_guardian guardian) (\<lambda>_.
     bind_v (require_v Panicked (length starts > 0 \<and> length starts = length ends
       \<and> length ends = length hashes \<and> length hashes = length datas \<and> length datas = length states)) (\<lambda>_.
     bind_v (require_v Require_failed (starts ! 0 = vx_latest_block s)) (\<lambda>_.
     bind_v (store_ranges keccak (zip_ranges starts ends hashes datas states) s) (\<lambda>(s', evs).
     Inr (s'\<lparr>vx_set_hash := (vx_set_hash s')(end_set_id := end_set_hash),
            vx_latest_block := ends ! (length ends - 1)\<rparr>, evs)))))"

text \<open>Every stored hash is a 32-byte word, as its type in the source says.\<close>

definition wf_storage :: "vectorx \<Rightarrow> bool" where
  "wf_storage s \<longleftrightarrow> (\<forall>b. length (vx_header_hash s b) = 32) \<and> (\<forall>i. length (vx_set_hash s i) = 32)"

lemma abi_words_Inr:
  "abi_words n out = Inr ws \<longleftrightarrow> 32 * n \<le> length out \<and> ws = map (\<lambda>i. segment (32 * i) (32 * i + 32) out) [0..<n]"
  by (auto simp: abi_words_def)

lemma abi_words_three:
  "abi_words 3 out = Inr ws \<longleftrightarrow> 96 \<le> length out \<and> ws = [segment 0 32 out, segment 32 64 out, segment 64 96 out]"
  by (auto simp: abi_words_Inr upt_rec numeral_3_eq_3)

lemma abi_words_one: "abi_words 1 out = Inr ws \<longleftrightarrow> 32 \<le> length out \<and> ws = [segment 0 32 out]"
  by (auto simp: abi_words_Inr)

text \<open>What a successful commit did.\<close>

lemma commit_header_range_Inr:
  "commit_header_range keccak gw i b s = Inr (s', evs) \<longleftrightarrow>
    (let a = vx_latest_block s; p = vx_header_hash s a; k = vx_set_hash s i; key = keccak (abi_range a b)
     in \<not> vx_frozen s \<and> p \<noteq> zero_hash \<and> k \<noteq> zero_hash \<and> a < b
       \<and> (\<exists>out. gw (vx_gateway s) (vx_header_range_function_id s) (header_range_input a p i k b) = Some out
            \<and> 96 \<le> length out
            \<and> s' = s\<lparr>vx_header_hash := (vx_header_hash s)(b := segment 0 32 out),
                vx_data_commitments := (vx_data_commitments s)(key := segment 64 96 out),
                vx_state_commitments := (vx_state_commitments s)(key := segment 32 64 out),
                vx_range_start := (vx_range_start s)(key := a), vx_latest_block := b\<rparr>
            \<and> evs = [HeadUpdate b (segment 0 32 out),
                HeaderRangeCommitmentStored a b (segment 64 96 out) (segment 32 64 out)]))"
  by (auto simp: commit_header_range_def verified_call_def Let_def abi_words_three split: option.splits)

lemma rotate_set_Inr:
  "rotate_set gw i s = Inr (s', evs) \<longleftrightarrow>
    (let k = vx_set_hash s i
     in \<not> vx_frozen s \<and> k \<noteq> zero_hash \<and> unat i + 1 < 2 ^ 64
       \<and> (\<exists>out. gw (vx_gateway s) (vx_rotate_function_id s) (rotate_input i k) = Some out \<and> 32 \<le> length out
            \<and> s' = s\<lparr>vx_set_hash := (vx_set_hash s)(i + 1 := segment 0 32 out)\<rparr>
            \<and> evs = [AuthoritySetStored (i + 1) (segment 0 32 out)]))"
  by (auto simp: rotate_set_def verified_call_def Let_def abi_words_one [unfolded One_nat_def] split: option.splits)

text \<open>The storage is a light client's store: it advances by the outputs of verified calls only.\<close>

abbreviation vx_ask_range :: "gateway \<Rightarrow> vectorx \<Rightarrow> byte list \<Rightarrow> byte list option" where
  "vx_ask_range gw s \<equiv> gw (vx_gateway s) (vx_header_range_function_id s)"

abbreviation vx_ask_rotation :: "gateway \<Rightarrow> vectorx \<Rightarrow> byte list \<Rightarrow> byte list option" where
  "vx_ask_rotation gw s \<equiv> gw (vx_gateway s) (vx_rotate_function_id s)"

interpretation vx_store: light_client_store vx_latest_block vx_header_hash vx_set_hash
  "vx_ask_range gw" "vx_ask_rotation gw"
  "\<lambda>i b s s' d r. \<exists>h. commit_header_range keccak gw i b s
     = Inr (s', [HeadUpdate b h, HeaderRangeCommitmentStored (vx_latest_block s) b d r])"
  "\<lambda>i s s'. \<exists>evs. rotate_set gw i s = Inr (s', evs)" for keccak gw
proof
  fix i b s s' d r
  assume "\<exists>h. commit_header_range keccak gw i b s
     = Inr (s', [HeadUpdate b h, HeaderRangeCommitmentStored (vx_latest_block s) b d r])"
  then show "vx_latest_block s < b \<and> vx_header_hash s (vx_latest_block s) \<noteq> zero_hash \<and> vx_set_hash s i \<noteq> zero_hash
      \<and> vx_latest_block s' = b \<and> vx_set_hash s' = vx_set_hash s
      \<and> (\<exists>out. vx_ask_range gw s (header_range_input (vx_latest_block s) (vx_header_hash s (vx_latest_block s)) i (vx_set_hash s i) b) = Some out
           \<and> vx_header_hash s' = (vx_header_hash s)(b := segment 0 32 out) \<and> r = segment 32 64 out \<and> d = segment 64 96 out)"
    by (auto simp: commit_header_range_Inr Let_def)
next
  fix i s s'
  assume "\<exists>evs. rotate_set gw i s = Inr (s', evs)"
  then show "vx_set_hash s i \<noteq> zero_hash \<and> unat i + 1 < 2 ^ 64 \<and> vx_latest_block s' = vx_latest_block s
      \<and> vx_header_hash s' = vx_header_hash s
      \<and> (\<exists>out. vx_ask_rotation gw s (rotate_input i (vx_set_hash s i)) = Some out
           \<and> vx_set_hash s' = (vx_set_hash s)(i + 1 := segment 0 32 out))"
    by (auto simp: rotate_set_Inr Let_def)
qed

section \<open>The steps of the contract\<close>

text \<open>What anyone may do, and the guardian's freeze.\<close>

inductive vx_step :: "(byte list \<Rightarrow> bytes32) \<Rightarrow> gateway \<Rightarrow> vectorx \<Rightarrow> vx_event list \<Rightarrow> vectorx \<Rightarrow> bool"
  for keccak gw where
  commit: "commit_header_range keccak gw i b s = Inr (s', evs) \<Longrightarrow> vx_step keccak gw s evs s'"
| rotate: "rotate_set gw i s = Inr (s', evs) \<Longrightarrow> vx_step keccak gw s evs s'"
| freeze: "update_freeze True f s = Inr s' \<Longrightarrow> vx_step keccak gw s [] s'"

inductive vx_run :: "(byte list \<Rightarrow> bytes32) \<Rightarrow> gateway \<Rightarrow> vectorx \<Rightarrow> vx_event list \<Rightarrow> vectorx \<Rightarrow> bool"
  for keccak gw s where
  start: "vx_run keccak gw s [] s"
| step: "vx_run keccak gw s evs s' \<Longrightarrow> vx_step keccak gw s' evs' s'' \<Longrightarrow> vx_run keccak gw s (evs @ evs') s''"

inductive_cases vx_stepE: "vx_step keccak gw s evs s'"

lemma wf_storage_step: "vx_step keccak gw s evs s' \<Longrightarrow> wf_storage s \<Longrightarrow> wf_storage s'"
  by (auto simp: wf_storage_def commit_header_range_Inr rotate_set_Inr Let_def update_freeze_def elim!: vx_stepE)

lemma gateway_step:
  "vx_step keccak gw s evs s' \<Longrightarrow> vx_gateway s' = vx_gateway s
    \<and> vx_header_range_function_id s' = vx_header_range_function_id s \<and> vx_rotate_function_id s' = vx_rotate_function_id s"
  by (auto simp: commit_header_range_Inr rotate_set_Inr Let_def update_freeze_def elim!: vx_stepE)

section \<open>What a sound gateway lets through\<close>

text \<open>A chain of headers from \<open>a\<close> with hash \<open>p\<close> to \<open>b\<close> with hash \<open>h\<close>, finalised by the set \<open>i\<close> with
  hash \<open>k\<close>, and its two commitments.\<close>

definition proved_range ::
    "gadgets \<Rightarrow> u32 \<Rightarrow> bytes32 \<Rightarrow> u64 \<Rightarrow> bytes32 \<Rightarrow> u32 \<Rightarrow> bytes32 \<Rightarrow> bytes32 \<Rightarrow> bytes32 \<Rightarrow> bool" where
  "proved_range G a p i k b h state_root_commitment data_root_commitment \<longleftrightarrow>
     (\<exists>hs j. a < b \<and> length hs = unat b - unat a \<and> length hs \<le> MAX_NUM_HEADERS
        \<and> list_all (decodes G) hs \<and> linked_from G (a + 1) p hs \<and> h = hash_encoded_header G (last hs)
        \<and> justified G b h i k j
        \<and> state_root_commitment
            = list_root (sha_node G) (state_roots G hs @ replicate (MAX_NUM_HEADERS - length hs) zero_hash)
        \<and> data_root_commitment
            = list_root (sha_node G) (data_roots G hs @ replicate (MAX_NUM_HEADERS - length hs) zero_hash))"

text \<open>The gateway answers a call to one of the two functions only with an output that the circuit has on
  the input, for some answers of the hints.\<close>

definition sound_gateway ::
    "gadgets \<Rightarrow> map_reduce_subchain mapreduce \<Rightarrow> nat \<Rightarrow> nat \<Rightarrow> gateway \<Rightarrow> vectorx \<Rightarrow> bool" where
  "sound_gateway G mapreduce N S gw s \<longleftrightarrow>
     (\<forall>input out. gw (vx_gateway s) (vx_header_range_function_id s) input = Some out \<longrightarrow>
        (\<exists>fetch hint. (\<forall>a b e. length (fetch a b e) = HEADERS_PER_MAP) \<and> (\<forall>b i. wf_justification N (hint b i))
           \<and> header_range_define G mapreduce fetch hint MAX_NUM_HEADERS input = Some out))
     \<and> (\<forall>input out. gw (vx_gateway s) (vx_rotate_function_id s) input = Some out \<longrightarrow>
        (\<exists>rhint hint. (\<forall>i. wf_rotate S N (rhint i)) \<and> (\<forall>b i. wf_justification N (hint b i))
           \<and> rotate_define G N (N * VALIDATOR_LENGTH + DELAY_LENGTH) rhint hint input = Some out))"

lemma sound_gateway_step:
  "vx_step keccak gw s evs s' \<Longrightarrow> sound_gateway G mr N S gw s \<Longrightarrow> sound_gateway G mr N S gw s'"
  using gateway_step by (simp add: sound_gateway_def)

lemma length_root:
  assumes "hash_gadgets G" "length xs = 256"
  shows "length (list_root (sha_node G) xs) = 32"
proof -
  have "length xs = 2 ^ Suc 7" using assms(2) by simp
  from ref_root.root_halves [OF this, of "sha_node G"] show ?thesis
    using assms(1) by (simp only: sha_node_def hash_gadget_simps)
qed

lemma header_range_proved:
  assumes ok: "gadgets_ok G" and mr: "mapreduce_gadget mapreduce" and N: "0 < N" "3 * N < 2 ^ 32"
    and fetch: "\<forall>a b e. length (fetch a b e) = 8" and wf: "\<forall>b i. wf_justification N (hint b i)"
    and range: "a < b" "unat a + 256 < 2 ^ 32" and len: "length p = 32" "length k = 32"
    and out: "header_range_define G mapreduce fetch hint MAX_NUM_HEADERS (header_range_input a p i k b) = Some out"
  shows "length out = 96 \<and> proved_range G a p i k b (segment 0 32 out) (segment 32 64 out) (segment 64 96 out)"
proof -
  have jobs: "2 \<le> num_map_jobs MAX_NUM_HEADERS" "unat a + 8 * num_map_jobs MAX_NUM_HEADERS < 2 ^ 32"
    using range by (simp_all only: full_jobs)
  have fetched: "fetched_ok fetch a b (num_map_jobs MAX_NUM_HEADERS)"
    using fetch by (simp add: fetched_ok_def batch_headers_def list_all_iff)
  let ?all = "range_headers fetch a b 0 32" and ?k = "unat b - unat a"
  obtain sub where sub: "verify_subchain G mapreduce fetch MAX_NUM_HEADERS a p b = Some sub"
    and just: "verify_simple_justification G b (target_header_hash sub) i k (hint b i) = Some ()"
    and o: "out = target_header_hash sub @ state_root_merkle_root sub @ data_root_merkle_root sub"
    using out unfolding header_range_define_eq [OF len] by (auto simp: Option.bind_eq_Some_conv)
  have le: "unat a < unat b" using range(1) by (simp add: word_less_nat_alt)
  have all: "length ?all = 256"
    using length_range_headers [of 32 fetch a b 0] fetch by (simp add: batch_headers_def)
  have sub': "?k \<le> 256 \<and> list_all (decodes G) ?all \<and> linked_from G (a + 1) p (take ?k ?all)
      \<and> sub = \<lparr>target_header_hash = hash_encoded_header G (?all ! (?k - 1)),
            state_root_merkle_root = list_root (sha_node G) (enable_leaves ?k (state_roots G ?all)),
            data_root_merkle_root = list_root (sha_node G) (enable_leaves ?k (data_roots G ?all))\<rparr>"
    using sub unfolding verify_subchain_Some_iff [OF ok mr jobs fetched range(1)] full_jobs
    by (simp add: Let_def)
  have leaves: "enable_leaves ?k (map f ?all) = map f (take ?k ?all) @ replicate (256 - ?k) zero_hash" for f
    using all by (simp add: enable_leaves_def take_map)
  have just': "justified G b (target_header_hash sub) i k (hint b i)"
    using just verify_simple_justification_iff [OF ok _ N] wf by blast
  have words: "length (target_header_hash sub) = 32" "length (state_root_merkle_root sub) = 32"
    "length (data_root_merkle_root sub) = 32"
    using just' sub' all length_root [OF gadgets_okD(5) [OF ok]]
    by (simp_all add: justified_def state_roots_def data_roots_def)
  have "length (take ?k ?all) = ?k" using all sub' by simp
  moreover from this have "take ?k ?all \<noteq> []" using le by auto
  ultimately have last: "last (take ?k ?all) = ?all ! (?k - 1)"
    using le by (metis last_conv_nth nth_take diff_less zero_less_one zero_less_diff)
  have "proved_range G a p i k b (target_header_hash sub) (state_root_merkle_root sub) (data_root_merkle_root sub)"
    unfolding proved_range_def
    by (rule exI [of _ "take ?k ?all"], rule exI [of _ "hint b i"])
      (use sub' just' range(1) all last leaves in
        \<open>auto simp: list_all_iff state_roots_def data_roots_def min_def dest: in_set_takeD\<close>)
  then show ?thesis using words by (simp add: o segment_def)
qed

section \<open>Invariants\<close>

lemma vx_latest_mono: "vx_step keccak gw s evs s' \<Longrightarrow> vx_latest_block s \<le> vx_latest_block s'"
  by (auto simp: commit_header_range_Inr rotate_set_Inr Let_def update_freeze_def elim!: vx_stepE)

lemma vx_run_latest: "vx_run keccak gw s evs s' \<Longrightarrow> vx_latest_block s \<le> vx_latest_block s'"
  by (induction rule: vx_run.induct) (auto dest: vx_latest_mono)

lemma vx_run_wf: "vx_run keccak gw s evs s' \<Longrightarrow> wf_storage s \<Longrightarrow> wf_storage s'"
  by (induction rule: vx_run.induct) (auto dest: wf_storage_step)

lemma vx_run_sound: "vx_run keccak gw s evs s' \<Longrightarrow> sound_gateway G mr N S gw s \<Longrightarrow> sound_gateway G mr N S gw s'"
  by (induction rule: vx_run.induct) (auto dest: sound_gateway_step)

text \<open>A commit through a sound gateway stores a proved range.\<close>

lemma commit_proved:
  assumes ok: "gadgets_ok G" "mapreduce_gadget mr" and N: "0 < N" "3 * N < 2 ^ 32"
    and sound: "sound_gateway G mr N S gw s" and wf: "wf_storage s" and small: "unat (vx_latest_block s) + 256 < 2 ^ 32"
    and commit: "commit_header_range keccak gw i b s = Inr (s', evs)"
  shows "\<exists>h sr dr. proved_range G (vx_latest_block s) (vx_header_hash s (vx_latest_block s)) i (vx_set_hash s i) b h sr dr
    \<and> vx_latest_block s < b \<and> vx_header_hash s (vx_latest_block s) \<noteq> zero_hash \<and> vx_set_hash s i \<noteq> zero_hash
    \<and> vx_header_hash s' = (vx_header_hash s)(b := h) \<and> vx_latest_block s' = b \<and> vx_set_hash s' = vx_set_hash s
    \<and> evs = [HeadUpdate b h, HeaderRangeCommitmentStored (vx_latest_block s) b dr sr]"
proof -
  let ?a = "vx_latest_block s" and ?p = "vx_header_hash s (vx_latest_block s)" and ?k = "vx_set_hash s i"
  obtain out where out: "gw (vx_gateway s) (vx_header_range_function_id s) (header_range_input ?a ?p i ?k b) = Some out"
    and step: "?a < b" "?p \<noteq> zero_hash" "?k \<noteq> zero_hash" "vx_header_hash s' = (vx_header_hash s)(b := segment 0 32 out)"
      "vx_latest_block s' = b" "vx_set_hash s' = vx_set_hash s"
      "evs = [HeadUpdate b (segment 0 32 out), HeaderRangeCommitmentStored ?a b (segment 64 96 out) (segment 32 64 out)]"
    using commit by (auto simp: commit_header_range_Inr Let_def)
  obtain fetch hint where "\<forall>a b e. length (fetch a b e) = HEADERS_PER_MAP" "\<forall>b i. wf_justification N (hint b i)"
    "header_range_define G mr fetch hint MAX_NUM_HEADERS (header_range_input ?a ?p i ?k b) = Some out"
    using sound out unfolding sound_gateway_def by blast
  then have "proved_range G ?a ?p i ?k b (segment 0 32 out) (segment 32 64 out) (segment 64 96 out)"
    using header_range_proved [OF ok N _ _ step(1) small, of fetch hint ?p ?k i out] wf
    by (simp add: wf_storage_def)
  with step show ?thesis by blast
qed

section \<open>Every call\<close>

text \<open>The functions that change the storage; the gateways may answer differently from call to call.\<close>

datatype vx_op = Public_call | Update_function_ids | Update_gateway | Update_genesis_state | Update_block_range_data

inductive vx_op_step :: "(byte list \<Rightarrow> bytes32) \<Rightarrow> vx_op \<Rightarrow> vectorx \<Rightarrow> vx_event list \<Rightarrow> vectorx \<Rightarrow> bool" for keccak where
  public: "vx_step keccak gw s evs s' \<Longrightarrow> vx_op_step keccak Public_call s evs s'"
| function_ids: "update_function_ids guardian h r s = Inr s' \<Longrightarrow> vx_op_step keccak Update_function_ids s [] s'"
| gateway: "update_gateway guardian g s = Inr s' \<Longrightarrow> vx_op_step keccak Update_gateway s [] s'"
| genesis: "update_genesis_state guardian b h i k s = Inr s' \<Longrightarrow> vx_op_step keccak Update_genesis_state s [] s'"
| block_ranges: "update_block_range_data keccak guardian starts ends hashes datas states i k s = Inr (s', evs) \<Longrightarrow>
    vx_op_step keccak Update_block_range_data s evs s'"

inductive_cases vx_op_stepE: "vx_op_step keccak op s evs s'"

inductive vx_ops :: "(byte list \<Rightarrow> bytes32) \<Rightarrow> vectorx \<Rightarrow> vx_op list \<Rightarrow> vx_event list \<Rightarrow> vectorx \<Rightarrow> bool" for keccak s where
  start: "vx_ops keccak s [] [] s"
| step: "vx_ops keccak s ops evs s' \<Longrightarrow> vx_op_step keccak op s' evs' s'' \<Longrightarrow> vx_ops keccak s (ops @ [op]) (evs @ evs') s''"

lemma vx_run_ops: "vx_run keccak gw s evs s' \<Longrightarrow> \<exists>ops. vx_ops keccak s ops evs s' \<and> set ops \<subseteq> {Public_call}"
proof (induction rule: vx_run.induct)
  case start
  then show ?case by (intro exI [of _ "[]"]) (simp add: vx_ops.start)
next
  case (step evs s' evs' s'')
  then obtain ops where "vx_ops keccak s ops evs s'" "set ops \<subseteq> {Public_call}" by blast
  then show ?case
    using vx_ops.step [OF _ vx_op_step.public [OF step.hyps(2)]] by (intro exI [of _ "ops @ [Public_call]"]) simp
qed

lemma update_block_range_Inr:
  assumes "update_block_range_data keccak guardian starts ends hashes datas states i k s = Inr (s', evs)"
  obtains s1 where "store_ranges keccak (zip_ranges starts ends hashes datas states) s = Inr (s1, evs)"
    and "s' = s1\<lparr>vx_set_hash := (vx_set_hash s1)(i := k), vx_latest_block := ends ! (length ends - 1)\<rparr>"
    and "0 < length starts" and "length ends = length starts"
proof -
  obtain p where p: "store_ranges keccak (zip_ranges starts ends hashes datas states) s = Inr p"
    "(case p of (s1, evs1) \<Rightarrow> Inr (s1\<lparr>vx_set_hash := (vx_set_hash s1)(i := k),
        vx_latest_block := ends ! (length ends - 1)\<rparr>, evs1)) = (Inr (s', evs) :: (vectorx \<times> vx_event list) vx)"
    and len: "length starts > 0 \<and> length starts = length ends \<and> length ends = length hashes
      \<and> length hashes = length datas \<and> length datas = length states"
    using assms unfolding update_block_range_data_def vx_simps(1,4) by blast
  obtain s1 evs1 where eq: "p = (s1, evs1)" by (cases p)
  show ?thesis by (rule that [of s1]) (use p len in \<open>auto simp: eq\<close>)
qed

text \<open>The head moves back by the guardian's hand only.\<close>

lemma vx_ops_latest:
  assumes "vx_ops keccak s ops evs s'" and "Update_genesis_state \<notin> set ops" and "Update_block_range_data \<notin> set ops"
  shows "vx_latest_block s \<le> vx_latest_block s'"
  using assms
proof (induction rule: vx_ops.induct)
  case (step ops evs s' op evs' s'')
  from step.hyps(2) step.prems have "vx_latest_block s' \<le> vx_latest_block s''"
    by (cases rule: vx_op_step.cases) (auto dest: vx_latest_mono simp: update_function_ids_def update_gateway_def)
  with step show ?case by auto
qed simp

section \<open>The commitments as a log\<close>

text \<open>The three mappings that are written together, under the key of a range.\<close>

definition range_key :: "(byte list \<Rightarrow> bytes32) \<Rightarrow> u32 \<times> u32 \<Rightarrow> bytes32" where
  "range_key keccak = (\<lambda>(a, b). keccak (abi_range a b))"

definition commitments :: "vectorx \<Rightarrow> bytes32 \<Rightarrow> u32 \<times> bytes32 \<times> bytes32" where
  "commitments s key = (vx_range_start s key, vx_data_commitments s key, vx_state_commitments s key)"

definition no_commitments :: "bytes32 \<Rightarrow> u32 \<times> bytes32 \<times> bytes32" where
  "no_commitments key = (0, zero_hash, zero_hash)"

text \<open>What a reader of the events knows of them.\<close>

fun replay ::
    "(byte list \<Rightarrow> bytes32) \<Rightarrow> vx_event list \<Rightarrow> (bytes32 \<Rightarrow> u32 \<times> bytes32 \<times> bytes32) \<Rightarrow> bytes32 \<Rightarrow> u32 \<times> bytes32 \<times> bytes32" where
  "replay keccak [] m = m"
| "replay keccak (HeaderRangeCommitmentStored a b dr sr # evs) m
    = replay keccak evs (m(range_key keccak (a, b) := (a, dr, sr)))"
| "replay keccak (_ # evs) m = replay keccak evs m"

lemma replay_append [simp]: "replay keccak (xs @ ys) m = replay keccak ys (replay keccak xs m)"
proof (induction xs arbitrary: m)
  case (Cons e xs)
  then show ?case by (cases e) (simp_all del: fun_upd_apply)
qed simp

text \<open>The ranges whose commitments were stored.\<close>

fun stored_ranges :: "vx_event list \<Rightarrow> (u32 \<times> u32) list" where
  "stored_ranges (HeaderRangeCommitmentStored a b d sr # evs) = (a, b) # stored_ranges evs"
| "stored_ranges (_ # evs) = stored_ranges evs"
| "stored_ranges [] = []"

lemma stored_ranges_append [simp]: "stored_ranges (xs @ ys) = stored_ranges xs @ stored_ranges ys"
  by (induction xs rule: stored_ranges.induct) simp_all

lemma stored_ranges_iff: "(a, b) \<in> set (stored_ranges evs) \<longleftrightarrow> (\<exists>dr sr. HeaderRangeCommitmentStored a b dr sr \<in> set evs)"
proof (induction evs)
  case (Cons e evs)
  then show ?case by (cases e) auto
qed simp

lemma replay_other: "key \<notin> range_key keccak ` set (stored_ranges evs) \<Longrightarrow> replay keccak evs m key = m key"
proof (induction evs arbitrary: m)
  case (Cons e evs)
  then show ?case by (cases e) auto
qed simp

lemma replay_last:
  "key \<in> range_key keccak ` set (stored_ranges evs) \<Longrightarrow> \<exists>a b dr sr. HeaderRangeCommitmentStored a b dr sr \<in> set evs
     \<and> key = range_key keccak (a, b) \<and> replay keccak evs m key = (a, dr, sr)"
proof (induction evs arbitrary: m)
  case (Cons e evs)
  show ?case
  proof (cases "key \<in> range_key keccak ` set (stored_ranges evs)")
    case True
    have "\<exists>m'. replay keccak (e # evs) m = replay keccak evs m'" by (cases e) auto
    then obtain m' where m': "replay keccak (e # evs) m = replay keccak evs m'" by blast
    from Cons.IH [OF True, of m'] show ?thesis unfolding m' by (metis list.set_intros(2))
  next
    case False
    then obtain a b dr sr where "e = HeaderRangeCommitmentStored a b dr sr" "key = range_key keccak (a, b)"
      using Cons.prems by (cases e) auto
    then show ?thesis using replay_other [OF False] by auto
  qed
qed simp

text \<open>The storage is that log: each call writes what its events say, under their keys.\<close>

lemma commitments_upd:
  "commitments (s\<lparr>vx_data_commitments := (vx_data_commitments s)(key := d),
     vx_state_commitments := (vx_state_commitments s)(key := r), vx_range_start := (vx_range_start s)(key := a),
     vx_header_hash := hh\<rparr>) = (commitments s)(key := (a, d, r))"
  by (simp add: commitments_def fun_eq_iff)

lemma store_ranges_replay:
  "store_ranges keccak rs s = Inr (s', evs) \<Longrightarrow> commitments s' = replay keccak evs (commitments s)"
proof (induction rs arbitrary: s evs)
  case (Cons r rs)
  then show ?case
    by (auto simp: Let_def range_key_def commitments_upd simp del: fun_upd_apply split: prod.splits)
qed simp

lemma vx_step_replay: "vx_step keccak gw s evs s' \<Longrightarrow> commitments s' = replay keccak evs (commitments s)"
  by (auto simp: commit_header_range_Inr rotate_set_Inr Let_def update_freeze_def commitments_def range_key_def fun_eq_iff
      elim!: vx_stepE)

lemma vx_op_step_replay: "vx_op_step keccak op s evs s' \<Longrightarrow> commitments s' = replay keccak evs (commitments s)"
proof (induction rule: vx_op_step.induct)
  case (public gw s evs s')
  then show ?case by (rule vx_step_replay)
next
  case (block_ranges guardian starts ends hashes datas states i k s s' evs)
  obtain s1 where "store_ranges keccak (zip_ranges starts ends hashes datas states) s = Inr (s1, evs)"
    "s' = s1\<lparr>vx_set_hash := (vx_set_hash s1)(i := k), vx_latest_block := ends ! (length ends - 1)\<rparr>"
    by (rule update_block_range_Inr [OF block_ranges.hyps])
  moreover from this have "commitments s' = commitments s1" by (simp add: commitments_def fun_eq_iff)
  ultimately show ?case using store_ranges_replay by simp
qed (auto simp: update_function_ids_def update_gateway_def update_genesis_state_def commitments_def fun_eq_iff)

lemma vx_ops_replay: "vx_ops keccak s ops evs s' \<Longrightarrow> commitments s' = replay keccak evs (commitments s)"
  by (induction rule: vx_ops.induct) (simp_all add: vx_op_step_replay)

lemma initial_commitments: "commitments (initialize_vx g height header i k h r) = no_commitments"
  by (simp add: commitments_def no_commitments_def initialize_vx_def fun_eq_iff)

text \<open>The head and the header hashes are a log, too, unless the genesis state is set again.\<close>

fun replay_heads :: "vx_event list \<Rightarrow> u32 \<times> (u32 \<Rightarrow> bytes32) \<Rightarrow> u32 \<times> (u32 \<Rightarrow> bytes32)" where
  "replay_heads [] m = m"
| "replay_heads (HeadUpdate b h # evs) (a, m) = replay_heads evs (b, m(b := h))"
| "replay_heads (_ # evs) m = replay_heads evs m"

lemma replay_heads_append [simp]: "replay_heads (xs @ ys) m = replay_heads ys (replay_heads xs m)"
  by (induction xs m rule: replay_heads.induct) simp_all

lemma store_ranges_heads:
  "store_ranges keccak rs s = Inr (s', evs) \<Longrightarrow>
    replay_heads evs (a, vx_header_hash s) = (if rs = [] then a else br_end (last rs), vx_header_hash s')"
proof (induction rs arbitrary: s evs a)
  case (Cons r rs)
  then show ?case by (fastforce simp: Let_def split: prod.splits)
qed simp

lemma vx_op_step_heads:
  "vx_op_step keccak op s evs s' \<Longrightarrow> op \<noteq> Update_genesis_state \<Longrightarrow>
    (vx_latest_block s', vx_header_hash s') = replay_heads evs (vx_latest_block s, vx_header_hash s)"
proof (induction rule: vx_op_step.induct)
  case (public gw s evs s')
  then show ?case by (auto simp: commit_header_range_Inr rotate_set_Inr Let_def update_freeze_def elim!: vx_stepE)
next
  case (block_ranges guardian starts ends hashes datas states i k s s' evs)
  obtain s1 where s1: "store_ranges keccak (zip_ranges starts ends hashes datas states) s = Inr (s1, evs)"
    "s' = s1\<lparr>vx_set_hash := (vx_set_hash s1)(i := k), vx_latest_block := ends ! (length ends - 1)\<rparr>"
    "0 < length starts" "length ends = length starts"
    by (rule update_block_range_Inr [OF block_ranges.hyps])
  have "br_end (last (zip_ranges starts ends hashes datas states)) = ends ! (length ends - 1)"
    using s1(3,4) by (simp add: zip_ranges_def last_map last_upt)
  then show ?case
    using store_ranges_heads [OF s1(1), of "vx_latest_block s"] s1(3) by (simp add: s1(2) zip_ranges_def split: if_splits)
qed (auto simp: update_function_ids_def update_gateway_def)

lemma vx_ops_heads:
  "vx_ops keccak s ops evs s' \<Longrightarrow> Update_genesis_state \<notin> set ops \<Longrightarrow>
    (vx_latest_block s', vx_header_hash s') = replay_heads evs (vx_latest_block s, vx_header_hash s)"
  by (induction rule: vx_ops.induct) (auto dest!: vx_op_step_heads)

section \<open>The stored ranges\<close>

text \<open>The ranges follow each other.\<close>

fun contiguous :: "u32 \<Rightarrow> (u32 \<times> u32) list \<Rightarrow> u32 \<Rightarrow> bool" where
  "contiguous a [] b \<longleftrightarrow> a = b"
| "contiguous a ((x, y) # rs) b \<longleftrightarrow> x = a \<and> x < y \<and> contiguous y rs b"

lemma contiguous_append: "contiguous a (xs @ ys) c \<longleftrightarrow> (\<exists>b. contiguous a xs b \<and> contiguous b ys c)"
  by (induction xs arbitrary: a) auto

definition ranges_proved :: "gadgets \<Rightarrow> vx_event list \<Rightarrow> vectorx \<Rightarrow> bool" where
  "ranges_proved G evs s \<longleftrightarrow> (\<forall>a b dr sr. HeaderRangeCommitmentStored a b dr sr \<in> set evs \<longrightarrow>
     a < b \<and> b \<le> vx_latest_block s
     \<and> (\<exists>i k. proved_range G a (vx_header_hash s a) i k b (vx_header_hash s b) sr dr))"

lemma run_invariant:
  assumes "vx_run keccak gw s evs s'"
    and ok: "gadgets_ok G" "mapreduce_gadget mr" and N: "0 < N" "3 * N < 2 ^ 32"
    and sound: "sound_gateway G mr N S gw s" and wf: "wf_storage s"
  shows "unat (vx_latest_block s') + 256 < 2 ^ 32 \<Longrightarrow>
    contiguous (vx_latest_block s) (stored_ranges evs) (vx_latest_block s') \<and> ranges_proved G evs s'"
  using assms(1)
proof (induction rule: vx_run.induct)
  case start
  show ?case by (simp add: ranges_proved_def)
next
  case (step evs s' evs' s'')
  have small: "unat (vx_latest_block s') + 256 < 2 ^ 32"
    using vx_latest_mono [OF step.hyps(2)] step.prems by (simp add: word_le_nat_alt)
  note sound' = vx_run_sound [OF step.hyps(1) sound] and wf' = vx_run_wf [OF step.hyps(1) wf]
  note IH = step.IH [OF small]
  from step.hyps(2) show ?case
  proof (cases rule: vx_step.cases)
    case (commit i b)
    obtain h sr dr where c: "proved_range G (vx_latest_block s') (vx_header_hash s' (vx_latest_block s')) i (vx_set_hash s' i) b h sr dr"
      "vx_latest_block s' < b" "vx_header_hash s'' = (vx_header_hash s')(b := h)" "vx_latest_block s'' = b"
      "evs' = [HeadUpdate b h, HeaderRangeCommitmentStored (vx_latest_block s') b dr sr]"
      using commit_proved [OF ok N sound' wf' small commit] by blast
    have old: "\<exists>i k. proved_range G a (vx_header_hash s'' a) i k b' (vx_header_hash s'' b') sr' dr'" "a < b'" "b' \<le> b"
      if "HeaderRangeCommitmentStored a b' dr' sr' \<in> set evs" for a b' dr' sr'
    proof -
      have r: "a < b'" "b' \<le> vx_latest_block s'"
        "\<exists>i k. proved_range G a (vx_header_hash s' a) i k b' (vx_header_hash s' b') sr' dr'"
        using IH that by (auto simp: ranges_proved_def)
      with c(2) have "a \<noteq> b" "b' \<noteq> b" by auto
      with r c(2) show "\<exists>i k. proved_range G a (vx_header_hash s'' a) i k b' (vx_header_hash s'' b') sr' dr'" "a < b'" "b' \<le> b"
        by (auto simp: c(3))
    qed
    have "proved_range G (vx_latest_block s') (vx_header_hash s'' (vx_latest_block s')) i (vx_set_hash s' i) b (vx_header_hash s'' b) sr dr"
      using c(1,2) by (auto simp: c(3))
    then have "ranges_proved G (evs @ evs') s''"
      using old c(2) unfolding ranges_proved_def c(4,5) by auto
    moreover have "contiguous (vx_latest_block s) (stored_ranges (evs @ evs')) (vx_latest_block s'')"
      using IH c(2,4,5) by (auto simp: contiguous_append)
    ultimately show ?thesis by blast
  next
    case (rotate i)
    then show ?thesis
      using IH by (auto simp: rotate_set_Inr Let_def ranges_proved_def)
  next
    case (freeze f)
    then show ?thesis using IH by (auto simp: update_freeze_def ranges_proved_def)
  qed
qed

section \<open>A deployment\<close>

text \<open>The fetcher's answers on the linked chain up to its block 4, for any question.\<close>

definition linked_block :: "nat \<Rightarrow> chain_header" where
  "linked_block i = block_of linked_client (linked_header i)"

definition linked_fetch :: "u32 \<Rightarrow> u32 \<Rightarrow> u32 \<Rightarrow> encoded_header list" where
  "linked_fetch a b e = map (hinted_header 160 linked_block 4) [unat a..<unat a + HEADERS_PER_MAP]"

definition linked_hint :: "u32 \<Rightarrow> u64 \<Rightarrow> justification" where
  "linked_hint b i = toy_justification 3 (linked_parent 5) 4 0 three_keys"

lemma linked_batch:
  assumes "lo < 256"
  shows "batch_headers linked_fetch 1 4 lo = batch_headers (hint_output (client_range linked_client) 160) 1 4 lo"
proof -
  have chain: "served_chain linked_client toy_gadgets 160 linked_header (unat (1 :: u32)) (unat (4 :: u32))"
    "avail_chain toy_gadgets 160 (\<lambda>i. block_of linked_client (linked_header i)) (unat (1 :: u32) + 1) (unat (4 :: u32))"
    by (rule linked_client; simp)+
  have "(1 :: u32) + of_nat (lo + 1) = of_nat (lo + 2)" by simp
  moreover have "unat (of_nat (lo + 2) :: u32) = lo + 2" using assms by (intro unat_of_nat_small) simp
  ultimately have "unat ((1 :: u32) + of_nat (lo + 1)) = lo + 2" by metis
  then have "batch_headers linked_fetch 1 4 lo = map (hinted_header 160 linked_block 4) [lo + 2..<lo + 10]"
    unfolding batch_headers_def linked_fetch_def by (simp add: add.commute)
  also have "\<dots> = batch_headers (hint_output (chain_range linked_block) 160) 1 4 lo"
  proof -
    have one: "unat (1 :: u32) + lo + 1 = lo + 2" "unat (1 :: u32) + lo + 9 = lo + 10" "unat (4 :: u32) = 4" by simp_all
    have "unat (1 :: u32) + lo + 8 < 2 ^ 32" using assms by simp
    from hint_batch [OF chain(2) this] show ?thesis
      unfolding one linked_block_def [abs_def] by (rule sym)
  qed
  finally show ?thesis
    using client_batch [OF chain(1), of lo] assms by (simp add: linked_block_def [abs_def])
qed

lemma linked_range:
  assumes "length h = 32" "length k = 32"
  shows "header_range_define toy_gadgets tree_mapreduce linked_fetch hint MAX_NUM_HEADERS (header_range_input 1 h i k 4)
    = header_range_define toy_gadgets tree_mapreduce (hint_output (client_range linked_client) 160) hint MAX_NUM_HEADERS
        (header_range_input 1 h i k 4)"
proof -
  let ?f = "hint_output (client_range linked_client) 160"
  have chain: "served_chain linked_client toy_gadgets 160 linked_header (unat (1 :: u32)) (unat (4 :: u32))"
    by (rule linked_client) simp
  have fetched: "fetched_ok ?f 1 4 (num_map_jobs MAX_NUM_HEADERS)"
    by (rule client_fetched [OF chain]) (simp_all only: full_jobs, simp_all)
  have batch: "\<forall>i<num_map_jobs MAX_NUM_HEADERS. batch_headers linked_fetch 1 4 (8 * i) = batch_headers ?f 1 4 (8 * i)"
    by (simp only: full_jobs) (simp add: linked_batch)
  have "verify_subchain toy_gadgets tree_mapreduce linked_fetch MAX_NUM_HEADERS 1 h 4
      = verify_subchain toy_gadgets tree_mapreduce ?f MAX_NUM_HEADERS 1 h 4"
    by (rule verify_subchain_cong [OF toy_gadgets_ok tree_mapreduce_ok _ _ fetched batch])
      (simp_all only: full_jobs, simp_all)
  then show ?thesis unfolding header_range_define_eq [OF assms] by simp
qed

text \<open>A gateway that verifies the proofs of the linked chain, and a contract that trusts its block 1.\<close>

definition linked_gateway :: gateway where
  "linked_gateway addr fid input = (if fid = replicate 32 1
     then header_range_define toy_gadgets tree_mapreduce linked_fetch linked_hint MAX_NUM_HEADERS input
     else None)"

definition linked_contract :: vectorx where
  "linked_contract = initialize_vx 0 1 (linked_parent 2) 0 (compute_authority_set_hash toy_digest three_keys)
     (replicate 32 1) (replicate 32 2)"

lemma toy_digest_nonzero: "of_nat (length m) \<noteq> (0 :: byte) \<Longrightarrow> toy_digest m \<noteq> zero_hash"
  by (auto simp: toy_digest_def zero_hash_def dest: arg_cong [of _ _ "\<lambda>xs. xs ! 1"])

lemma three_keys_hash: "length (compute_authority_set_hash toy_digest three_keys) = 32"
  "compute_authority_set_hash toy_digest three_keys \<noteq> zero_hash"
proof -
  have "compute_authority_set_hash toy_digest three_keys
      = toy_digest (toy_digest (toy_digest (replicate 32 1) @ replicate 32 2) @ replicate 32 3)"
    by (simp add: compute_authority_set_hash_def three_keys_def)
  moreover have "length (toy_digest m @ replicate 32 3) = 64" for m by (simp add: toy_digest_def)
  ultimately show "compute_authority_set_hash toy_digest three_keys \<noteq> zero_hash"
    using toy_digest_nonzero by simp
qed (simp add: compute_authority_set_hash_def three_keys_def toy_digest_def)

lemma linked_parent_nonzero: "linked_parent 2 \<noteq> zero_hash"
proof -
  have "linked_parent 2 = toy_digest (header_layout toy_encode_log (linked_header 1))"
    by (simp add: numeral_2_eq_2 linked_header_def)
  moreover have "length (header_layout toy_encode_log (linked_header 1)) = 131"
    using length_linked_parent [of 1]
    by (simp add: header_layout_def linked_header_def digest_header_def scale_compact_def del: linked_parent.simps)
  ultimately show ?thesis using toy_digest_nonzero by simp
qed

lemma linked_sound: "sound_gateway toy_gadgets tree_mapreduce 3 160 linked_gateway linked_contract"
proof -
  have "\<forall>a b e. length (linked_fetch a b e) = HEADERS_PER_MAP" by (simp add: linked_fetch_def)
  moreover have "wf_justification 3 (linked_hint b i)" for b i
    unfolding linked_hint_def
    by (rule toy_justification_wf) (use length_linked_parent [of 5] in \<open>simp_all add: three_keys_def\<close>)
  ultimately show ?thesis
    by (auto simp: sound_gateway_def linked_gateway_def linked_contract_def initialize_vx_def)
qed

lemma linked_commit:
  obtains s' h sr dr where "commit_header_range keccak linked_gateway 0 4 linked_contract
      = Inr (s', [HeadUpdate 4 h, HeaderRangeCommitmentStored 1 4 dr sr])"
    and "vx_latest_block s' = 4" and "h = linked_parent 5"
proof -
  let ?k = "compute_authority_set_hash toy_digest three_keys"
  have chain: "served_chain linked_client toy_gadgets 160 linked_header (unat (1 :: u32)) (unat (4 :: u32))"
    by (rule linked_client) simp
  have head: "blake2b toy_gadgets (c_encode_header linked_client (linked_header (unat (4 :: u32)))) = linked_parent 5"
    using linked_client(4) [of 0] by simp
  have parent: "hdr_parent_hash (linked_header (unat (1 :: u32) + 1)) = linked_parent 2"
    by (simp add: linked_header_def numeral_2_eq_2 del: linked_parent.simps)
  have sha: "sha256 toy_gadgets = toy_digest" by (simp add: toy_gadgets_def)
  have wf: "wf_justification 3 (linked_hint 4 0)"
    unfolding linked_hint_def
    by (rule toy_justification_wf) (use length_linked_parent [of 5] in \<open>simp_all add: three_keys_def\<close>)
  have "justified toy_gadgets 4 (linked_parent 5) 0 ?k (linked_hint 4 0)"
    unfolding linked_hint_def
    by (rule toy_justification_justified) (use length_linked_parent [of 5] in \<open>simp_all add: three_keys_def\<close>)
  then have just: "verify_simple_justification toy_gadgets 4 (linked_parent 5) 0 ?k (linked_hint 4 0) = Some ()"
    using verify_simple_justification_iff [OF toy_gadgets_ok wf] by simp
  define out where "out = header_range_output linked_client toy_gadgets linked_header (unat (1 :: u32)) (unat (4 :: u32))"
  have "header_range_define toy_gadgets tree_mapreduce (hint_output (client_range linked_client) 160) linked_hint
      MAX_NUM_HEADERS (header_range_input 1 (linked_parent 2) 0 ?k 4) = Some out"
    unfolding out_def
    by (rule header_range_define_served [OF toy_gadgets_ok tree_mapreduce_ok _ _ chain parent])
      (use just head length_linked_parent three_keys_hash in \<open>simp_all del: linked_parent.simps\<close>)
  then have gate: "linked_gateway 0 (replicate 32 1) (header_range_input 1 (linked_parent 2) 0 ?k 4) = Some out"
    using linked_range [OF length_linked_parent three_keys_hash(1)]
    by (simp add: linked_gateway_def del: linked_parent.simps)
  have "out = linked_parent 5 @ drop 32 out" "96 \<le> length out"
    using head length_linked_parent [of 5] length_root [OF gadgets_okD(5) [OF toy_gadgets_ok]]
    by (simp_all add: out_def header_range_output_def Let_def del: linked_parent.simps)
  then have "segment 0 32 out = linked_parent 5" using length_linked_parent [of 5] by (metis append_eq_conv_conj segment_def diff_zero drop_0)
  then have "\<exists>s'. commit_header_range keccak linked_gateway 0 4 linked_contract
      = Inr (s', [HeadUpdate 4 (linked_parent 5), HeaderRangeCommitmentStored 1 4 (segment 64 96 out) (segment 32 64 out)])
    \<and> vx_latest_block s' = 4"
    using gate three_keys_hash(2) linked_parent_nonzero \<open>96 \<le> length out\<close>
    unfolding commit_header_range_Inr Let_def
    by (simp add: linked_contract_def initialize_vx_def del: linked_parent.simps)
  then show ?thesis using that by blast
qed

section \<open>Properties\<close>

text \<open>C8. The invariant of the deployed contract: after any sequence of commits, rotations and freezes, the
  ranges whose commitments were stored follow each other without gap or overlap from the genesis block to
  the head; under the key of each, the storage has its start and the two commitments of a chain of headers
  that links the two stored hashes and is finalised by a set of authorities; and it has nothing under any
  other key (no gateway accepting what the circuits do not, block numbers staying 256 below the end of
  \<open>u32\<close>, and Keccak without a collision among the stored ranges).\<close>

theorem committed_ranges_proved:
  assumes "gadgets_ok G" and "mapreduce_gadget mapreduce" and "0 < N" and "3 * N < 2 ^ 32"
    and "init = initialize_vx gateway_address height header set_id set_hash header_range_id rotate_id"
    and "length header = 32" and "length set_hash = 32" and "sound_gateway G mapreduce N S gw init"
    and "vx_run keccak gw init evs s" and "unat (vx_latest_block s) + 256 < 2 ^ 32"
    and "ranges = set (stored_ranges evs)" and "inj_on (range_key keccak) ranges"
  shows "contiguous height (stored_ranges evs) (vx_latest_block s)
    \<and> (\<forall>a b key. (a, b) \<in> ranges \<longrightarrow> key = range_key keccak (a, b) \<longrightarrow> vx_range_start s key = a
         \<and> (\<exists>i k. proved_range G a (vx_header_hash s a) i k b (vx_header_hash s b)
              (vx_state_commitments s key) (vx_data_commitments s key)))
    \<and> (\<forall>key. key \<notin> range_key keccak ` ranges \<longrightarrow> vx_range_start s key = 0
         \<and> vx_data_commitments s key = zero_hash \<and> vx_state_commitments s key = zero_hash)"
proof -
  have "wf_storage init" "vx_latest_block init = height"
    using assms(6,7) by (auto simp: assms(5) initialize_vx_def wf_storage_def zero_hash_def)
  then have inv: "contiguous height (stored_ranges evs) (vx_latest_block s)" "ranges_proved G evs s"
    using run_invariant [OF assms(9,1-4,8) _ assms(10)] by auto
  obtain ops where "vx_ops keccak init ops evs s" using vx_run_ops [OF assms(9)] by blast
  from vx_ops_replay [OF this] have log: "commitments s = replay keccak evs no_commitments"
    by (simp only: assms(5) initial_commitments)
  have "vx_range_start s key = a \<and> (\<exists>i k. proved_range G a (vx_header_hash s a) i k b (vx_header_hash s b)
      (vx_state_commitments s key) (vx_data_commitments s key))" if "(a, b) \<in> ranges" "key = range_key keccak (a, b)" for a b key
  proof -
    have "key \<in> range_key keccak ` set (stored_ranges evs)" using that assms(11) by blast
    from replay_last [OF this, of no_commitments] obtain x y dr sr where e: "HeaderRangeCommitmentStored x y dr sr \<in> set evs"
      "key = range_key keccak (x, y)" "commitments s key = (x, dr, sr)" unfolding log by blast
    have "(x, y) = (a, b)" using e(1,2) that assms(11) inj_onD [OF assms(12)] stored_ranges_iff by metis
    then show ?thesis using e(1,3) inv(2) by (auto simp: ranges_proved_def commitments_def)
  qed
  moreover have "commitments s key = no_commitments key" if "key \<notin> range_key keccak ` ranges" for key
    using replay_other that unfolding log assms(11) by metis
  ultimately show ?thesis using inv(1) by (simp add: commitments_def no_commitments_def)
qed

theorem committed_ranges_proved_witness:
  "\<exists>s i k evs. vx_run toy_digest linked_gateway linked_contract evs s \<and> stored_ranges evs = [(1, 4)]
    \<and> proved_range toy_gadgets 1 (vx_header_hash s 1) i k 4 (vx_header_hash s 4)
        (vx_state_commitments s (toy_digest (abi_range 1 4))) (vx_data_commitments s (toy_digest (abi_range 1 4)))"
proof -
  obtain s h sr dr where s: "commit_header_range toy_digest linked_gateway 0 4 linked_contract
      = Inr (s, [HeadUpdate 4 h, HeaderRangeCommitmentStored 1 4 dr sr])" "vx_latest_block s = 4"
    by (rule linked_commit)
  let ?evs = "[HeadUpdate 4 h, HeaderRangeCommitmentStored 1 4 dr sr]"
  have run: "vx_run toy_digest linked_gateway linked_contract ?evs s"
    using vx_run.step [OF vx_run.start vx_step.commit [OF s(1)]] by simp
  have small: "unat (vx_latest_block s) + 256 < 2 ^ 32" and inj: "inj_on (range_key toy_digest) (set (stored_ranges ?evs))"
    using s(2) by simp_all
  obtain i k where "proved_range toy_gadgets 1 (vx_header_hash s 1) i k 4 (vx_header_hash s 4)
      (vx_state_commitments s (range_key toy_digest (1, 4))) (vx_data_commitments s (range_key toy_digest (1, 4)))"
    using committed_ranges_proved [OF toy_gadgets_ok tree_mapreduce_ok _ _ linked_contract_def _ _ linked_sound run small refl inj]
      length_linked_parent three_keys_hash by (auto simp del: linked_parent.simps)
  then show ?thesis using run by (intro exI [of _ s] exI [of _ i] exI [of _ k] exI [of _ ?evs]) (simp add: range_key_def)
qed

text \<open>C31. The storage is what its events say: after any sequence of calls of any function, the guardian's
  among them, whatever the gateways answer, the commitments and the range starts are exactly those that a
  reader of the events since the deployment computes, last writer per key; and so are the head and the
  header hashes, unless the guardian has set the genesis state again, which no event reports.\<close>

theorem storage_is_its_log:
  assumes "vx_ops keccak (initialize_vx g height header set_id set_hash header_range_id rotate_id) ops evs s"
  shows "commitments s = replay keccak evs no_commitments
    \<and> (Update_genesis_state \<notin> set ops \<longrightarrow>
         (vx_latest_block s, vx_header_hash s) = replay_heads evs (height, (\<lambda>b. zero_hash)(height := header)))"
  using vx_ops_replay [OF assms] vx_ops_heads [OF assms] by (simp add: initial_commitments) (simp add: initialize_vx_def)

theorem storage_is_its_log_witness:
  "\<exists>s evs. stored_ranges evs = [(1, 3), (3, 7)] \<and> commitments s = replay toy_digest evs no_commitments
    \<and> vx_data_commitments s (toy_digest (abi_range 3 7)) = replicate 32 9 \<and> vx_latest_block s = 7"
proof -
  let ?h = "replicate 32 (8 :: byte)" and ?d = "replicate 32 (9 :: byte)"
  define rs where "rs = [\<lparr>br_start = 1, br_end = 3, br_header_hash = ?h, br_data = ?d, br_state = ?h\<rparr>,
    \<lparr>br_start = 3, br_end = 7, br_header_hash = ?h, br_data = ?d, br_state = ?h\<rparr>]"
  have rs: "zip_ranges [1, 3] [3, 7] [?h, ?h] [?d, ?d] [?h, ?h] = rs" by (simp add: zip_ranges_def rs_def upt_rec)
  have "vx_latest_block linked_contract = 1" by (simp add: linked_contract_def initialize_vx_def)
  then have "\<exists>s evs. update_block_range_data toy_digest True [1, 3] [3, 7] [?h, ?h] [?d, ?d] [?h, ?h] 1 ?h linked_contract
      = Inr (s, evs) \<and> stored_ranges evs = [(1, 3), (3, 7)] \<and> vx_latest_block s = 7
    \<and> vx_data_commitments s (toy_digest (abi_range 3 7)) = ?d"
    by (simp add: update_block_range_data_def rs) (simp add: rs_def Let_def)
  then obtain s evs where call: "update_block_range_data toy_digest True [1, 3] [3, 7] [?h, ?h] [?d, ?d] [?h, ?h] 1 ?h linked_contract
      = Inr (s, evs)" and eff: "stored_ranges evs = [(1, 3), (3, 7)]" "vx_latest_block s = 7"
      "vx_data_commitments s (toy_digest (abi_range 3 7)) = ?d" by blast
  have ops: "vx_ops toy_digest linked_contract [Update_block_range_data] evs s"
    using vx_ops.step [OF vx_ops.start vx_op_step.block_ranges [OF call]] by simp
  then have "commitments s = replay toy_digest evs no_commitments"
    using storage_is_its_log [OF ops [unfolded linked_contract_def]] by blast
  then show ?thesis using eff by blast
qed

end
