(* ===== verification/Operator.thy ===== *)
theory Operator
  imports Contract
begin

text \<open>
  The operator (\<open>bin/vectorx.rs\<close>): a loop that compares the contract with the chain and requests the
  proofs of the next rotation and of the next header range from the proving service. Each iteration
  reads one state of the contract; what it does is the list of requests it submits. The answers of
  the service are only logged.
\<close>

section \<open>Configuration and requests\<close>

record vectorx_config =
  cfg_address :: nat
  cfg_chain_id :: u32

record platform_request =
  pr_chain_id :: u32
  pr_address :: nat
  pr_call :: vx_call
  pr_function_id :: bytes32
  pr_input :: "byte list"

record header_range_contract_data =
  hd_current_block :: u32
  hd_next_authority_set_hash_exists :: bool
  hd_function_id :: bytes32

record rotate_contract_data =
  rd_current_block :: u32
  rd_next_authority_set_hash_exists :: bool
  rd_function_id :: bytes32

definition DATA_COMMITMENT_MAX :: u32 where "DATA_COMMITMENT_MAX = 256"

text \<open>The defaults of \<open>LOOP_DELAY_MINS\<close> and \<open>UPDATE_DELAY_BLOCKS\<close>.\<close>

definition default_update_delay_blocks :: u32 where "default_update_delay_blocks = 200"

section \<open>The operations\<close>

definition get_header_range_input_data :: "vectorx \<Rightarrow> u32 \<Rightarrow> u64 \<Rightarrow> bytes32 \<times> bytes32" where
  "get_header_range_input_data s trusted_block set_id = (vx_header_hash s trusted_block, vx_set_hash s set_id)"

definition get_rotate_input_data :: "vectorx \<Rightarrow> u64 \<Rightarrow> bytes32" where
  "get_rotate_input_data s set_id = vx_set_hash s set_id"

definition request_header_range :: "vectorx_config \<Rightarrow> vectorx \<Rightarrow> u32 \<Rightarrow> u64 \<Rightarrow> u32 \<Rightarrow> bytes32 \<Rightarrow> platform_request" where
  "request_header_range cfg s trusted_block set_id target_block function_id =
     (let (trusted_hash, set_hash) = get_header_range_input_data s trusted_block set_id
      in \<lparr>pr_chain_id = cfg_chain_id cfg, pr_address = cfg_address cfg, pr_call = CommitHeaderRange set_id target_block,
          pr_function_id = function_id,
          pr_input = header_range_input trusted_block trusted_hash set_id set_hash target_block\<rparr>)"

definition request_rotate :: "vectorx_config \<Rightarrow> vectorx \<Rightarrow> u64 \<Rightarrow> bytes32 \<Rightarrow> platform_request" where
  "request_rotate cfg s set_id function_id =
     \<lparr>pr_chain_id = cfg_chain_id cfg, pr_address = cfg_address cfg, pr_call = Rotate set_id,
      pr_function_id = function_id, pr_input = rotate_input set_id (get_rotate_input_data s set_id)\<rparr>"

definition get_contract_data_for_header_range :: "client \<Rightarrow> vectorx \<Rightarrow> header_range_contract_data host" where
  "get_contract_data_for_header_range c s =
     (let current_block = vx_latest_block s in
     bind_h (sub_ck current_block 1) (\<lambda>before.
     bind_h (get_authority_set_id c before) (\<lambda>current_set_id.
     bind_h (add_ck current_set_id 1) (\<lambda>next_set_id.
     Inr \<lparr>hd_current_block = current_block,
        hd_next_authority_set_hash_exists = (vx_set_hash s next_set_id \<noteq> zero_hash),
        hd_function_id = vx_header_range_function_id s\<rparr>))))"

definition get_contract_data_for_rotate :: "client \<Rightarrow> vectorx \<Rightarrow> rotate_contract_data host" where
  "get_contract_data_for_rotate c s =
     (let current_block = vx_latest_block s in
     bind_h (sub_ck current_block 1) (\<lambda>before.
     bind_h (get_authority_set_id c before) (\<lambda>current_set_id.
     bind_h (add_ck current_set_id 1) (\<lambda>next_set_id.
     Inr \<lparr>rd_current_block = current_block,
        rd_next_authority_set_hash_exists = (vx_set_hash s next_set_id \<noteq> zero_hash),
        rd_function_id = vx_rotate_function_id s\<rparr>))))"

definition find_and_request_rotate :: "vectorx_config \<Rightarrow> client \<Rightarrow> vectorx \<Rightarrow> platform_request list host" where
  "find_and_request_rotate cfg c s =
     bind_h (get_contract_data_for_rotate c s) (\<lambda>d.
     bind_h (get_head c) (\<lambda>head.
     bind_h (sub_ck (hdr_number head) 1) (\<lambda>before_head.
     bind_h (get_authority_set_id c before_head) (\<lambda>head_set_id.
     bind_h (sub_ck (rd_current_block d) 1) (\<lambda>before.
     bind_h (get_authority_set_id c before) (\<lambda>current_set_id.
     if current_set_id < head_set_id \<and> \<not> rd_next_authority_set_hash_exists d
     then Inr [request_rotate cfg s current_set_id (rd_function_id d)]
     else Inr []))))))"

definition find_block_to_step_to :: "client \<Rightarrow> u32 \<Rightarrow> u64 \<Rightarrow> u32 option host" where
  "find_block_to_step_to c max_block_to_request set_id =
     bind_h (last_justified_block c set_id) (\<lambda>last_justified.
     if last_justified = 0 then Inr (Some max_block_to_request)
     else Inr (Some (min max_block_to_request last_justified)))"

definition find_and_request_header_range ::
    "vectorx_config \<Rightarrow> client \<Rightarrow> vectorx \<Rightarrow> u32 \<Rightarrow> platform_request list host" where
  "find_and_request_header_range cfg c s max_block_to_step_to =
     bind_h (get_contract_data_for_header_range c s) (\<lambda>d.
     bind_h (sub_ck (hd_current_block d) 1) (\<lambda>before.
     bind_h (get_authority_set_id c before) (\<lambda>current_set_id.
     bind_h (last_justified_block c current_set_id) (\<lambda>last_justified.
     let step = (\<lambda>request_set_id.
       bind_h (find_block_to_step_to c max_block_to_step_to request_set_id) (\<lambda>block_to_step_to.
       case block_to_step_to of None \<Rightarrow> Inr []
       | Some target \<Rightarrow> Inr [request_header_range cfg s (hd_current_block d) request_set_id target (hd_function_id d)]))
     in if hd_current_block d = last_justified
        then bind_h (add_ck current_set_id 1) (\<lambda>next_set_id.
          if \<not> hd_next_authority_set_hash_exists d then Inr [] else step next_set_id)
        else step current_set_id))))"

text \<open>One iteration of \<open>run\<close>, without the sleep at its end.\<close>

definition run_once :: "vectorx_config \<Rightarrow> client \<Rightarrow> vectorx \<Rightarrow> u32 \<Rightarrow> u32 \<Rightarrow> platform_request list host" where
  "run_once cfg c s block_interval data_commitment_max =
     bind_h (find_and_request_rotate cfg c s) (\<lambda>rotate_requests.
     bind_h (get_head c) (\<lambda>head.
     let latest = vx_latest_block s in
     bind_h (add_ck data_commitment_max latest) (\<lambda>limit.
     let max_block = min (hdr_number head) limit in
     bind_h (assert_h (Panic ''remainder with a divisor of zero'') (block_interval \<noteq> 0)) (\<lambda>_.
     bind_h (sub_ck max_block (max_block mod block_interval)) (\<lambda>block_to_request.
     if block_to_request > latest
     then bind_h (find_and_request_header_range cfg c s block_to_request) (\<lambda>header_requests.
       Inr (rotate_requests @ header_requests))
     else Inr rotate_requests)))))"

text \<open>The loop, over the states of the chain and the contract it meets.\<close>

definition run :: "vectorx_config \<Rightarrow> u32 \<Rightarrow> u32 \<Rightarrow> (client \<times> vectorx) list \<Rightarrow> platform_request list list host" where
  "run cfg block_interval data_commitment_max snapshots =
     map_h (\<lambda>(c, s). run_once cfg c s block_interval data_commitment_max) snapshots"

section \<open>On a chain whose sets change one at a time\<close>

text \<open>Up to its last justified block, or the head if there is none, the blocks belong to one set.\<close>

lemma epoch_span:
  assumes chain: "id_chain c head ids" and steps: "unit_steps head ids"
    and r: "\<forall>b. b \<le> head \<and> epoch_end ids (ids p) b \<longleftrightarrow> b = r \<and> 0 < r"
    and n: "p \<le> n" "n \<le> head" "0 < r \<longrightarrow> n < r"
  shows "ids n = ids p"
proof (rule ccontr)
  assume "ids n \<noteq> ids p"
  moreover have "ids p \<le> ids n" using chain n by (simp add: id_chain_def)
  ultimately obtain b where "p < b" "b \<le> n" "epoch_end ids (ids p) b"
    using first_epoch_end [OF chain steps n(2,1)] by auto
  then show False using r n by (metis le_trans not_le)
qed

text \<open>How far a request from \<open>a\<close> steps: to \<open>m\<close>, or to the end of the epoch of the set of \<open>a\<close>.\<close>

definition step_to :: "(nat \<Rightarrow> nat) \<Rightarrow> nat \<Rightarrow> nat \<Rightarrow> nat \<Rightarrow> bool" where
  "step_to ids a m t \<longleftrightarrow> a < t \<and> t \<le> m \<and> (\<forall>b. a < b \<and> b \<le> t \<longrightarrow> ids (b - 1) = ids a)
     \<and> (t = m \<or> epoch_end ids (ids a) t)"

text \<open>The requests of one iteration that may step up to \<open>m\<close>: none if there is no new block or if the next
  set is needed and not known, otherwise one by the set of the next block.\<close>

definition header_requests :: "vectorx_config \<Rightarrow> (nat \<Rightarrow> nat) \<Rightarrow> vectorx \<Rightarrow> nat \<Rightarrow> platform_request list \<Rightarrow> bool" where
  "header_requests cfg ids s m qs \<longleftrightarrow> (let a = unat (vx_latest_block s); i = of_nat (ids a) in
     if m \<le> a \<or> (ids a \<noteq> ids (a - 1) \<and> vx_set_hash s i = zero_hash) then qs = []
     else \<exists>t. step_to ids a m t \<and> qs = [request_header_range cfg s (vx_latest_block s) i (of_nat t)
            (vx_header_range_function_id s)])"

definition rotate_requests :: "vectorx_config \<Rightarrow> (nat \<Rightarrow> nat) \<Rightarrow> nat \<Rightarrow> vectorx \<Rightarrow> platform_request list" where
  "rotate_requests cfg ids head s = (let i = ids (unat (vx_latest_block s) - 1) in
     if i < ids (head - 1) \<and> vx_set_hash s (of_nat (i + 1)) = zero_hash
     then [request_rotate cfg s (of_nat i) (vx_rotate_function_id s)] else [])"

lemma chain_ids:
  assumes "id_chain c head ids" and "n \<le> head"
  shows "get_authority_set_id c (of_nat n) = Inr (of_nat (ids n))" "unat (of_nat (ids n) :: u64) = ids n"
    "unat (of_nat n :: u32) = n"
  using assms by (simp_all add: id_chain_def unat_of_nat_small)

lemma before_latest:
  assumes "0 < unat (vx_latest_block s)"
  shows "sub_ck (vx_latest_block s) 1 = Inr (of_nat (unat (vx_latest_block s) - 1))"
  using assms by (simp add: sub_ck_def word_le_nat_alt of_nat_diff)

lemma next_id:
  assumes "id_chain c head ids" and "ids head + 1 < 2 ^ 64" and "n \<le> head"
  shows "add_ck (of_nat (ids n) :: u64) 1 = Inr (of_nat (ids n + 1))" "ids n + 1 < 2 ^ 64"
proof -
  have "ids n \<le> ids head" using assms(1,3) by (simp add: id_chain_def)
  then show "ids n + 1 < 2 ^ 64" using assms(2) by simp
  then show "add_ck (of_nat (ids n) :: u64) 1 = Inr (of_nat (ids n + 1))"
    using chain_ids(2) [OF assms(1,3)] by (simp add: add_ck_def)
qed

lemma step_block:
  assumes chain: "id_chain c head ids" and steps: "unit_steps head ids" and top: "ids head + 1 < 2 ^ 64"
    and m: "a < m" "m \<le> head"
  shows "\<exists>t. find_block_to_step_to c (of_nat m) (of_nat (ids a)) = Inr (Some (of_nat t)) \<and> step_to ids a m t"
proof -
  have a: "a \<le> head" using m by simp
  obtain r where r: "r \<le> head" "last_justified_block c (of_nat (ids a)) = Inr (of_nat r)"
    "\<forall>b. b \<le> head \<and> epoch_end ids (ids a) b \<longleftrightarrow> b = r \<and> 0 < r"
    using last_justified_block_finds [OF chain next_id(2) [OF chain top a]] by blast
  note u = chain_ids(3) [OF chain r(1)] chain_ids(3) [OF chain m(2)]
  have r0: "(of_nat r :: u32) = 0 \<longleftrightarrow> r = 0" unfolding word_unat_eq_iff u by simp
  have after: "a < r \<and> epoch_end ids (ids a) r" if "0 < r"
  proof -
    have e: "epoch_end ids (ids a) r" using r(3) that by blast
    have "ids r \<le> ids a" if "r \<le> a" using chain that a by (simp add: id_chain_def)
    then have "\<not> r \<le> a" using e by (auto simp: epoch_end_def)
    with e show ?thesis by simp
  qed
  define t where "t = (if r = 0 then m else min m r)"
  have min: "min (of_nat m) (of_nat r) = (of_nat (min m r) :: u32)" by (simp add: min_def word_le_nat_alt u)
  have "find_block_to_step_to c (of_nat m) (of_nat (ids a)) = Inr (Some (of_nat t))"
    using r(2) r0 by (simp add: find_block_to_step_to_def t_def min)
  moreover have "a < t" "t \<le> m" "0 < r \<longrightarrow> t \<le> r" "t = m \<or> epoch_end ids (ids a) t"
    using m after by (auto simp: t_def min_def)
  moreover have "ids (b - 1) = ids a" if "a < b" "b \<le> t" for b
    by (rule epoch_span [OF chain steps r(3)]) (use that calculation m in auto)
  ultimately show ?thesis unfolding step_to_def by blast
qed

lemma find_header_range:
  assumes chain: "id_chain c head ids" and steps: "unit_steps head ids" and top: "ids head + 1 < 2 ^ 64"
    and a: "0 < unat (vx_latest_block s)" "unat (vx_latest_block s) < m" "m \<le> head"
  shows "\<exists>qs. find_and_request_header_range cfg c s (of_nat m) = Inr qs \<and> header_requests cfg ids s m qs"
proof -
  define a where "a = unat (vx_latest_block s)"
  have pos: "0 < a" "a - 1 \<le> head" "a \<le> head" "a - 1 < head" "Suc (a - 1) = a" using assms(4-6) by (simp_all add: a_def)
  obtain r where r: "r \<le> head" "last_justified_block c (of_nat (ids (a - 1))) = Inr (of_nat r)"
    "\<forall>b. b \<le> head \<and> epoch_end ids (ids (a - 1)) b \<longleftrightarrow> b = r \<and> 0 < r"
    using last_justified_block_finds [OF chain next_id(2) [OF chain top pos(2)]] by blast
  have at_end: "vx_latest_block s = of_nat r \<longleftrightarrow> a = r"
    unfolding word_unat_eq_iff chain_ids(3) [OF chain r(1)] by (simp add: a_def)
  have "ids a \<le> ids (a - 1) + 1" using steps pos(4,5) unfolding unit_steps_def by metis
  moreover have "ids (a - 1) \<le> ids a" using chain pos(3) by (simp add: id_chain_def)
  ultimately have ends: "a = r \<longleftrightarrow> ids a \<noteq> ids (a - 1)" "a = r \<Longrightarrow> ids (a - 1) + 1 = ids a"
    using r(3) [rule_format, of a] pos by (auto simp: epoch_end_def)
  obtain t where t: "find_block_to_step_to c (of_nat m) (of_nat (ids a)) = Inr (Some (of_nat t))" "step_to ids a m t"
    using step_block [OF chain steps top _ a(3), of a] a(2) by (auto simp: a_def)
  define d where "d = \<lparr>hd_current_block = vx_latest_block s,
    hd_next_authority_set_hash_exists = (vx_set_hash s (of_nat (ids (a - 1) + 1)) \<noteq> zero_hash),
    hd_function_id = vx_header_range_function_id s\<rparr>"
  note unf = before_latest [OF a(1), folded a_def] bind_h_simps chain_ids(1) [OF chain pos(2)] Let_def
  have data: "get_contract_data_for_header_range c s = Inr d"
    by (simp only: get_contract_data_for_header_range_def unf next_id(1) [OF chain top pos(2)] d_def)
  let ?step = "\<lambda>i. bind_h (find_block_to_step_to c (of_nat m) i) (\<lambda>b. case b of None \<Rightarrow> Inr []
    | Some t \<Rightarrow> Inr [request_header_range cfg s (vx_latest_block s) i t (vx_header_range_function_id s)])"
  have "find_and_request_header_range cfg c s (of_nat m)
    = (if a = r then if vx_set_hash s (of_nat (ids (a - 1) + 1)) = zero_hash then Inr []
         else ?step (of_nat (ids (a - 1) + 1)) else ?step (of_nat (ids (a - 1))))"
    by (simp only: find_and_request_header_range_def data unf d_def header_range_contract_data.simps r(2) at_end
        next_id(1) [OF chain top pos(2)] not_not)
  then have "find_and_request_header_range cfg c s (of_nat m)
    = (if a = r \<and> vx_set_hash s (of_nat (ids a)) = zero_hash then Inr [] else ?step (of_nat (ids a)))"
    using ends by (auto split: if_splits)
  then show ?thesis using t ends(1) a(2) by (auto simp: header_requests_def Let_def a_def [symmetric])
qed

lemma find_rotate:
  assumes chain: "id_chain c head ids" and top: "ids head + 1 < 2 ^ 64"
    and a: "0 < unat (vx_latest_block s)" "unat (vx_latest_block s) \<le> head"
  shows "find_and_request_rotate cfg c s = Inr (rotate_requests cfg ids head s)"
proof -
  let ?p = "unat (vx_latest_block s) - 1"
  obtain h where h: "get_head c = Inr h" "unat (hdr_number h) = head" using chain by (auto simp: id_chain_def)
  have p: "?p \<le> head" "head - 1 \<le> head" "0 < head" using a by simp_all
  have before_head: "sub_ck (hdr_number h) 1 = Inr (of_nat (head - 1))"
    using h(2) p(3) by (auto simp: sub_ck_def word_le_nat_alt of_nat_diff)
  define d where "d = \<lparr>rd_current_block = vx_latest_block s,
    rd_next_authority_set_hash_exists = (vx_set_hash s (of_nat (ids ?p + 1)) \<noteq> zero_hash),
    rd_function_id = vx_rotate_function_id s\<rparr>"
  note unf = before_latest [OF a(1)] bind_h_simps chain_ids(1) [OF chain p(1)] chain_ids(1) [OF chain p(2)] Let_def
  have data: "get_contract_data_for_rotate c s = Inr d"
    by (simp only: get_contract_data_for_rotate_def unf next_id(1) [OF chain top p(1)] d_def)
  have less: "(of_nat (ids ?p) :: u64) < of_nat (ids (head - 1)) \<longleftrightarrow> ids ?p < ids (head - 1)"
    unfolding word_less_nat_alt chain_ids(2) [OF chain p(1)] chain_ids(2) [OF chain p(2)] ..
  show ?thesis
    by (simp only: find_and_request_rotate_def data unf h(1) before_head less d_def rotate_contract_data.simps not_not
        rotate_requests_def) simp
qed

text \<open>The block that an iteration asks for: the last multiple of the interval within the limit.\<close>

definition block_to_request :: "nat \<Rightarrow> nat \<Rightarrow> nat \<Rightarrow> nat \<Rightarrow> nat" where
  "block_to_request head a interval dmax = (let m = min head (a + dmax) in m - m mod interval)"

lemma run_once_eq:
  assumes chain: "id_chain c head ids" and steps: "unit_steps head ids" and top: "ids head + 1 < 2 ^ 64"
    and a: "0 < unat (vx_latest_block s)" "unat (vx_latest_block s) \<le> head"
    and small: "0 < interval" "unat dmax + unat (vx_latest_block s) < 2 ^ 32"
  shows "\<exists>qs. run_once cfg c s interval dmax = Inr (rotate_requests cfg ids head s @ qs)
    \<and> header_requests cfg ids s (block_to_request head (unat (vx_latest_block s)) (unat interval) (unat dmax)) qs"
proof -
  let ?a = "unat (vx_latest_block s)"
  obtain h where h: "get_head c = Inr h" "unat (hdr_number h) = head" using chain by (auto simp: id_chain_def)
  define m where "m = min head (?a + unat dmax)"
  define n where "n = m - m mod unat interval"
  have n: "n = block_to_request head ?a (unat interval) (unat dmax)" by (simp add: n_def m_def block_to_request_def Let_def)
  have le: "m \<le> head" "n \<le> head" by (simp_all add: m_def n_def le_diff_conv trans_le_add1)
  have limit: "add_ck dmax (vx_latest_block s) = Inr (dmax + vx_latest_block s)"
    "unat (dmax + vx_latest_block s) = unat dmax + ?a"
    using small(2) by (simp_all add: add_ck_def unat_word_ariths)
  let ?m = "min (hdr_number h) (dmax + vx_latest_block s)"
  have um: "unat ?m = m" using h(2) limit(2) by (auto simp: min_def m_def word_le_nat_alt)
  have le_mod: "?m mod interval \<le> ?m" by (simp add: word_le_nat_alt unat_mod)
  then have un: "unat (?m - ?m mod interval) = n" by (simp add: unat_sub unat_mod um n_def)
  have "of_nat n = ?m - ?m mod interval" by (simp add: un [symmetric])
  then have sub: "sub_ck ?m (?m mod interval) = Inr (of_nat n)" using le_mod by (simp add: sub_ck_def)
  have less: "of_nat n > vx_latest_block s \<longleftrightarrow> ?a < n"
    using chain_ids(3) [OF chain le(2)] by (simp add: word_less_nat_alt)
  have once: "run_once cfg c s interval dmax = (if ?a < n then bind_h (find_and_request_header_range cfg c s (of_nat n))
      (\<lambda>qs. Inr (rotate_requests cfg ids head s @ qs)) else Inr (rotate_requests cfg ids head s))"
    using small(1) [unfolded word_neq_0_conv [symmetric]] by (simp add: run_once_def find_rotate [OF chain top a] h(1) limit(1) Let_def sub less)
  show ?thesis
  proof (cases "?a < n")
    case True
    obtain qs where "find_and_request_header_range cfg c s (of_nat n) = Inr qs" "header_requests cfg ids s n qs"
      using find_header_range [OF chain steps top a(1) True le(2)] by blast
    with True show ?thesis using once n by simp
  next
    case False
    then show ?thesis using once by (intro exI [of _ "[]"]) (simp add: header_requests_def n)
  qed
qed

section \<open>What an iteration does\<close>

text \<open>An iteration on such a chain always ends with its requests: a rotation exactly when the set after
  the one of the last committed block has begun and is not known, and a header range exactly when a
  multiple of the interval lies ahead and the set of the next block is known; the range is finalised by
  that set alone and ends at that multiple or at the last block of its epoch.\<close>

theorem operator_iteration:
  assumes "id_chain c head ids" and "unit_steps head ids" and "ids head + 1 < 2 ^ 64"
    and "0 < unat (vx_latest_block s)" and "unat (vx_latest_block s) \<le> head"
    and "0 < interval" and "unat dmax + unat (vx_latest_block s) < 2 ^ 32"
  shows "\<exists>qs. run_once cfg c s interval dmax = Inr (rotate_requests cfg ids head s @ qs)
    \<and> header_requests cfg ids s (block_to_request head (unat (vx_latest_block s)) (unat interval) (unat dmax)) qs"
  using assms by (rule run_once_eq)

text \<open>The chain of ten blocks, a contract that has committed block 2 and knows its set only: the next
  range ends at block 4, where the set changes, and the set after it is asked for.\<close>

definition example_contract :: vectorx where
  "example_contract = initialize_vx 0 2 (replicate 32 1) 0 (replicate 32 2) (replicate 32 3) (replicate 32 4)"

lemma example_contract_simps [simp]:
  "vx_latest_block example_contract = 2" "vx_header_range_function_id example_contract = replicate 32 3"
  "vx_rotate_function_id example_contract = replicate 32 4" "vx_gateway example_contract = 0"
  "vx_set_hash example_contract = (\<lambda>i. zero_hash)(0 := replicate 32 2)" "\<not> vx_frozen example_contract"
  "vx_header_hash example_contract = (\<lambda>b. zero_hash)(2 := replicate 32 1)"
  by (simp_all add: example_contract_def initialize_vx_def)

lemma example_steps: "step_to example_ids a 10 t \<and> a = 2 \<longleftrightarrow> a = 2 \<and> t = 4"
  (is "?l \<longleftrightarrow> _")
proof
  assume ?l
  then have t: "2 < t" "t \<le> 10" "a = 2" "\<forall>b. 2 < b \<and> b \<le> t \<longrightarrow> example_ids (b - 1) = 0"
    "t = 10 \<or> epoch_end example_ids 0 t" by (auto simp: step_to_def example_ids_def)
  have "t \<noteq> 10" using t(4) [rule_format, of 10] by (auto simp: example_ids_def)
  then show "a = 2 \<and> t = 4" using t(3,5) by (auto simp: epoch_end_def example_ids_def split: if_splits)
next
  assume "a = 2 \<and> t = 4"
  then show ?l by (auto simp: step_to_def epoch_end_def example_ids_def)
qed

theorem operator_iteration_witness:
  "run_once \<lparr>cfg_address = 7, cfg_chain_id = 1\<rparr> example_client example_contract 5 DATA_COMMITMENT_MAX
    = Inr [request_rotate \<lparr>cfg_address = 7, cfg_chain_id = 1\<rparr> example_contract 0 (replicate 32 4),
        request_header_range \<lparr>cfg_address = 7, cfg_chain_id = 1\<rparr> example_contract 2 0 4 (replicate 32 3)]"
proof -
  let ?cfg = "\<lparr>cfg_address = 7, cfg_chain_id = 1\<rparr>"
  obtain qs where once: "run_once ?cfg example_client example_contract 5 DATA_COMMITMENT_MAX
      = Inr (rotate_requests ?cfg example_ids 10 example_contract @ qs)"
    and qs: "header_requests ?cfg example_ids example_contract (block_to_request 10 2 5 256) qs"
    using operator_iteration [OF example_id_chain, of example_contract 5 DATA_COMMITMENT_MAX ?cfg]
    by (auto simp: example_ids_def DATA_COMMITMENT_MAX_def)
  have "block_to_request 10 2 5 256 = 10" by (simp add: block_to_request_def Let_def)
  then have "qs = [request_header_range ?cfg example_contract 2 0 4 (replicate 32 3)]"
    using qs example_steps [of 2] by (auto simp: header_requests_def Let_def) (simp_all add: example_ids_def)
  moreover have "rotate_requests ?cfg example_ids 10 example_contract
      = [request_rotate ?cfg example_contract 0 (replicate 32 4)]"
    by (simp add: rotate_requests_def example_ids_def)
  ultimately show ?thesis using once by simp
qed

end
