(* ===== verification/Operator_Progress.thy ===== *)
theory Operator_Progress
  imports Operator
begin

text \<open>
  The operator against the contract: the proving service calls the contract for each request, and the
  contract moves when the gateway has a verified output for its input. On a chain that stands still, with
  a prover for the true ranges and rotations of the chain, the iterations bring the contract to the last
  multiple of the interval, and its hashes stay those of the chain.
\<close>

text \<open>A request is answered by its call on the contract, during which the gateway has the output for the
  function and the input of the request only; a call that reverts changes nothing.\<close>

definition answering :: "gateway \<Rightarrow> platform_request \<Rightarrow> gateway" where
  "answering gw q addr fid input = (if fid = pr_function_id q \<and> input = pr_input q then gw addr fid input else None)"

definition fulfil :: "(byte list \<Rightarrow> bytes32) \<Rightarrow> gateway \<Rightarrow> vectorx \<Rightarrow> platform_request \<Rightarrow> vectorx" where
  "fulfil keccak gw s q = (case pr_call q of
       CommitHeaderRange i t \<Rightarrow>
         (case commit_header_range keccak (answering gw q) i t s of Inl _ \<Rightarrow> s | Inr (s', _) \<Rightarrow> s')
     | Rotate i \<Rightarrow> (case rotate_set (answering gw q) i s of Inl _ \<Rightarrow> s | Inr (s', _) \<Rightarrow> s'))"

lemma answering_Some [simp]:
  "answering gw q addr fid input = Some out \<longleftrightarrow> fid = pr_function_id q \<and> input = pr_input q \<and> gw addr fid input = Some out"
  by (auto simp: answering_def)

text \<open>An answer is a step that anyone could have made with the gateway's output, or no step.\<close>

lemma fulfil_cases:
  obtains "fulfil keccak gw s q = s"
  | i t evs where "pr_call q = CommitHeaderRange i t" "commit_header_range keccak gw i t s = Inr (fulfil keccak gw s q, evs)"
      "pr_input q = header_range_input (vx_latest_block s) (vx_header_hash s (vx_latest_block s)) i (vx_set_hash s i) t"
  | i evs where "pr_call q = Rotate i" "rotate_set gw i s = Inr (fulfil keccak gw s q, evs)"
      "pr_input q = rotate_input i (vx_set_hash s i)"
proof (cases "pr_call q")
  case (CommitHeaderRange i t)
  show ?thesis
  proof (cases "commit_header_range keccak (answering gw q) i t s")
    case (Inr r)
    then obtain s' evs where r: "commit_header_range keccak (answering gw q) i t s = Inr (s', evs)" by (cases r) simp
    then have "commit_header_range keccak gw i t s = Inr (s', evs)"
      "pr_input q = header_range_input (vx_latest_block s) (vx_header_hash s (vx_latest_block s)) i (vx_set_hash s i) t"
      unfolding commit_header_range_Inr Let_def answering_Some by (blast, metis)
    then show ?thesis using that(2) CommitHeaderRange r by (simp add: fulfil_def)
  qed (use that(1) CommitHeaderRange in \<open>simp add: fulfil_def\<close>)
next
  case (Rotate i)
  show ?thesis
  proof (cases "rotate_set (answering gw q) i s")
    case (Inr r)
    then obtain s' evs where r: "rotate_set (answering gw q) i s = Inr (s', evs)" by (cases r) simp
    then have "rotate_set gw i s = Inr (s', evs)" "pr_input q = rotate_input i (vx_set_hash s i)"
      unfolding rotate_set_Inr Let_def answering_Some by (blast, metis)
    then show ?thesis using that(3) Rotate r by (simp add: fulfil_def)
  qed (use that(1) Rotate in \<open>simp add: fulfil_def\<close>)
qed

lemma fulfil_step: "fulfil keccak gw s q = s \<or> (\<exists>evs. vx_step keccak gw s evs (fulfil keccak gw s q))"
  by (cases rule: fulfil_cases [of keccak gw s q]) (blast intro: vx_step.commit vx_step.rotate)+

definition operator_round ::
    "(byte list \<Rightarrow> bytes32) \<Rightarrow> gateway \<Rightarrow> vectorx_config \<Rightarrow> client \<Rightarrow> u32 \<Rightarrow> u32 \<Rightarrow> vectorx \<Rightarrow> vectorx" where
  "operator_round keccak gw cfg c interval dmax s =
     (case run_once cfg c s interval dmax of Inl _ \<Rightarrow> s | Inr qs \<Rightarrow> foldl (fulfil keccak gw) s qs)"

text \<open>A gateway with a verified output for every range within one epoch and for every rotation of a chain
  with the header hashes \<open>H\<close> and the set hashes \<open>K\<close>.\<close>

definition proves_chain ::
    "gateway \<Rightarrow> nat \<Rightarrow> bytes32 \<Rightarrow> bytes32 \<Rightarrow> nat \<Rightarrow> (nat \<Rightarrow> nat) \<Rightarrow> nat \<Rightarrow> (nat \<Rightarrow> bytes32) \<Rightarrow> (nat \<Rightarrow> bytes32) \<Rightarrow> bool" where
  "proves_chain gw addr header_id rotate_id head ids dmax H K \<longleftrightarrow>
     (\<forall>a t. 0 < a \<and> a < t \<and> t \<le> head \<and> t \<le> a + dmax \<and> (\<forall>b. a < b \<and> b \<le> t \<longrightarrow> ids (b - 1) = ids a) \<longrightarrow>
        (\<exists>out. gw addr header_id (header_range_input (of_nat a) (H a) (of_nat (ids a)) (K (ids a)) (of_nat t)) = Some out
           \<and> 96 \<le> length out \<and> segment 0 32 out = H t))
     \<and> (\<forall>i<ids head. \<exists>out. gw addr rotate_id (rotate_input (of_nat i) (K i)) = Some out
           \<and> 32 \<le> length out \<and> segment 0 32 out = K (i + 1))"

text \<open>The contract holds the hashes of the chain, that of the latest block among them, and that of the set of
  the latest block or, as after a deployment at the end of an epoch, of the next.\<close>

definition follows_chain ::
    "nat \<Rightarrow> bytes32 \<Rightarrow> bytes32 \<Rightarrow> nat \<Rightarrow> (nat \<Rightarrow> nat) \<Rightarrow> (nat \<Rightarrow> bytes32) \<Rightarrow> (nat \<Rightarrow> bytes32) \<Rightarrow> vectorx \<Rightarrow> bool" where
  "follows_chain addr header_id rotate_id head ids H K s \<longleftrightarrow>
     \<not> vx_frozen s \<and> vx_gateway s = addr \<and> vx_header_range_function_id s = header_id
     \<and> vx_rotate_function_id s = rotate_id
     \<and> 0 < unat (vx_latest_block s) \<and> unat (vx_latest_block s) \<le> head
     \<and> vx_header_hash s (vx_latest_block s) = H (unat (vx_latest_block s))
     \<and> (\<exists>b\<in>{unat (vx_latest_block s) - 1, unat (vx_latest_block s)}. vx_set_hash s (of_nat (ids b)) = K (ids b))
     \<and> (\<forall>i\<le>ids head. vx_set_hash s (of_nat i) \<in> {zero_hash, K i})"

lemma fulfil_header_range:
  assumes chain: "id_chain c head ids" and proves: "proves_chain gw addr header_id rotate_id head ids dmax H K"
    and follows: "follows_chain addr header_id rotate_id head ids H K s"
    and step: "step_to ids (unat (vx_latest_block s)) m t" "m \<le> head" "m \<le> unat (vx_latest_block s) + dmax"
    and nonzero: "H (unat (vx_latest_block s)) \<noteq> zero_hash" "K (ids (unat (vx_latest_block s))) \<noteq> zero_hash"
    and known: "vx_set_hash s (of_nat (ids (unat (vx_latest_block s)))) = K (ids (unat (vx_latest_block s)))"
    and asked: "q = request_header_range cfg s' (vx_latest_block s) (of_nat (ids (unat (vx_latest_block s)))) (of_nat t) header_id"
      "vx_header_hash s' (vx_latest_block s) = H (unat (vx_latest_block s))"
      "vx_set_hash s' (of_nat (ids (unat (vx_latest_block s)))) = K (ids (unat (vx_latest_block s)))"
  shows "follows_chain addr header_id rotate_id head ids H K (fulfil keccak gw s q)
    \<and> vx_latest_block (fulfil keccak gw s q) = of_nat t"
proof -
  let ?a = "unat (vx_latest_block s)" and ?i = "ids (unat (vx_latest_block s))"
  have t: "0 < ?a" "?a < t" "t \<le> head" "t \<le> ?a + dmax" "\<forall>b. ?a < b \<and> b \<le> t \<longrightarrow> ids (b - 1) = ?i"
    using step follows by (auto simp: step_to_def follows_chain_def)
  have last: "ids (t - 1) = ?i" using t(2,5) by blast
  have ut: "unat (of_nat t :: u32) = t" by (rule chain_ids(3) [OF chain t(3)])
  obtain out where "gw addr header_id (header_range_input (of_nat ?a) (H ?a) (of_nat ?i) (K ?i) (of_nat t)) = Some out"
    "96 \<le> length out" "segment 0 32 out = H t"
    using proves t unfolding proves_chain_def by blast
  moreover have "vx_latest_block s < of_nat t" using t(2) ut by (simp add: word_less_nat_alt)
  moreover have call: "pr_function_id q = header_id" "pr_call q = CommitHeaderRange (of_nat ?i) (of_nat t)"
    "pr_input q = header_range_input (of_nat ?a) (H ?a) (of_nat ?i) (K ?i) (of_nat t)"
    by (simp_all add: asked request_header_range_def get_header_range_input_data_def)
  ultimately obtain s1 evs where s1: "commit_header_range keccak (answering gw q) (of_nat ?i) (of_nat t) s = Inr (s1, evs)"
    and eff: "vx_latest_block s1 = of_nat t" "vx_header_hash s1 (of_nat t) = H t" "vx_set_hash s1 = vx_set_hash s"
      "vx_frozen s1 = vx_frozen s" "vx_gateway s1 = vx_gateway s"
      "vx_header_range_function_id s1 = vx_header_range_function_id s" "vx_rotate_function_id s1 = vx_rotate_function_id s"
    using follows nonzero known unfolding commit_header_range_Inr Let_def follows_chain_def answering_Some by force
  have "fulfil keccak gw s q = s1"
    by (simp add: fulfil_def call(2) s1)
  moreover have "follows_chain addr header_id rotate_id head ids H K s1"
    using follows known t(1-3) last by (simp add: follows_chain_def eff ut)
  ultimately show ?thesis by (simp add: eff)
qed

text \<open>After the rotation of a round, the set of the next block is known at the end of an epoch.\<close>

lemma fulfil_rotate:
  assumes chain: "id_chain c head ids" and steps: "unit_steps head ids" and top: "ids head + 1 < 2 ^ 64"
    and proves: "proves_chain gw addr header_id rotate_id head ids dmax H K"
    and follows: "follows_chain addr header_id rotate_id head ids H K s"
    and nonzero: "\<forall>i\<le>ids head. K i \<noteq> zero_hash"
    and s'_def: "s' = foldl (fulfil keccak gw) s (rotate_requests cfg ids head s)"
  shows "follows_chain addr header_id rotate_id head ids H K s'" (is ?follows)
    and "vx_latest_block s' = vx_latest_block s" (is ?latest)
    and "vx_set_hash s x \<noteq> zero_hash \<longrightarrow> vx_set_hash s' x = vx_set_hash s x" (is ?old)
    and "unat (vx_latest_block s) < head \<Longrightarrow> ids (unat (vx_latest_block s)) \<noteq> ids (unat (vx_latest_block s) - 1) \<Longrightarrow>
      vx_set_hash s' (of_nat (ids (unat (vx_latest_block s)))) \<noteq> zero_hash" (is "_ \<Longrightarrow> _ \<Longrightarrow> ?known")
proof -
  let ?a = "unat (vx_latest_block s)" and ?i = "ids (unat (vx_latest_block s) - 1)"
  have a: "0 < ?a" "?a \<le> head" "?a - 1 \<le> head" "?a - 1 < head" "Suc (?a - 1) = ?a"
    using follows by (auto simp: follows_chain_def)
  have mono: "ids i \<le> ids j" if "i \<le> j" "j \<le> head" for i j using chain that by (simp add: id_chain_def)
  have ids_a: "ids ?a \<le> ?i + 1" "?i \<le> ids ?a"
    using steps a(4,5) mono [of "?a - 1" ?a] a(2) unfolding unit_steps_def by (metis, simp)
  have small: "unat (of_nat i :: u64) = i" if "i \<le> ids head" for i
    using that top by (intro unat_of_nat_small) simp
  have "?follows \<and> ?latest \<and> ?old \<and> (?a < head \<longrightarrow> ids ?a \<noteq> ?i \<longrightarrow> ?known)"
  proof (cases "?i < ids (head - 1) \<and> vx_set_hash s (of_nat (?i + 1)) = zero_hash")
    case False
    then have s': "s' = s" by (auto simp: s'_def rotate_requests_def Let_def)
    have "vx_set_hash s (of_nat (ids ?a)) \<noteq> zero_hash" if "?a < head" "ids ?a \<noteq> ?i"
    proof -
      have "ids ?a = ?i + 1" "ids ?a \<le> ids (head - 1)" using ids_a that mono [of ?a "head - 1"] by simp_all
      then show ?thesis using False by auto
    qed
    then show ?thesis using s' follows by simp
  next
    case True
    then have i: "?i < ids head" "unat (of_nat ?i :: u64) = ?i" "?i \<le> ids head"
      using mono [of "head - 1" head] small [of ?i] by simp_all
    obtain out where "gw addr rotate_id (rotate_input (of_nat ?i) (K ?i)) = Some out" "32 \<le> length out"
      "segment 0 32 out = K (?i + 1)" using proves i(1) unfolding proves_chain_def by blast
    moreover have "K ?i \<noteq> zero_hash" "?i + 1 < 2 ^ 64" using nonzero i top by simp_all
    moreover define q where "q = request_rotate cfg s (of_nat ?i) (vx_rotate_function_id s)"
    moreover from this have call: "pr_call q = Rotate (of_nat ?i)" by (simp add: request_rotate_def)
    moreover have asked: "s' = fulfil keccak gw s q" using True by (simp add: s'_def rotate_requests_def Let_def q_def)
    moreover have known: "vx_set_hash s (of_nat ?i) = K ?i"
    proof (rule ccontr)
      assume "vx_set_hash s (of_nat ?i) \<noteq> K ?i"
      then have "vx_set_hash s (of_nat (ids ?a)) = K (ids ?a)" "ids ?a \<noteq> ?i"
        using follows by (auto simp: follows_chain_def)
      moreover from this(2) have "ids ?a = ?i + 1" using ids_a by simp
      ultimately show False using True nonzero i(1) by simp
    qed
    ultimately have "rotate_set (answering gw q) (of_nat ?i) s
        = Inr (s\<lparr>vx_set_hash := (vx_set_hash s)(of_nat ?i + 1 := K (?i + 1))\<rparr>, [AuthoritySetStored (of_nat ?i + 1) (K (?i + 1))])"
      using follows i(2)
      unfolding rotate_set_Inr Let_def follows_chain_def answering_Some
      by (auto simp: q_def request_rotate_def get_rotate_input_data_def)
    then have s': "s' = s\<lparr>vx_set_hash := (vx_set_hash s)(of_nat (?i + 1) := K (?i + 1))\<rparr>"
      using call asked by (simp add: fulfil_def add.commute)
    have eq: "(of_nat j :: u64) = of_nat (?i + 1) \<longleftrightarrow> j = ?i + 1" if "j \<le> ids head" for j
      unfolding word_unat_eq_iff using small [OF that] small [of "?i + 1"] i(1) by simp
    have "vx_set_hash s' (of_nat ?i) = K ?i" using known eq [of ?i] i by (simp add: s')
    then have ?follows using follows eq i by (auto simp: follows_chain_def s')
    moreover have ?known if "ids ?a \<noteq> ?i"
      using that ids_a nonzero i(1) by (simp add: s' le_Suc_eq)
    ultimately show ?thesis using True by (auto simp: s')
  qed
  then show ?follows ?latest ?old "?a < head \<Longrightarrow> ids ?a \<noteq> ?i \<Longrightarrow> ?known" by blast+
qed

text \<open>Rounds left: two per block, and one to learn the set of the next block.\<close>

definition rounds_left :: "nat \<Rightarrow> (nat \<Rightarrow> nat) \<Rightarrow> vectorx \<Rightarrow> nat" where
  "rounds_left head ids s = 2 * (head - unat (vx_latest_block s))
     + (if vx_set_hash s (of_nat (ids (unat (vx_latest_block s)))) = zero_hash then 1 else 0)"

lemma round_progress:
  assumes chain: "id_chain c head ids" and steps: "unit_steps head ids" and top: "ids head + 1 < 2 ^ 64"
    and small: "0 < interval" "head + unat dmax < 2 ^ 32"
    and proves: "proves_chain gw addr header_id rotate_id head ids (unat dmax) H K"
    and nonzero: "\<forall>b\<le>head. 0 < b \<longrightarrow> H b \<noteq> zero_hash" "\<forall>i\<le>ids head. K i \<noteq> zero_hash"
    and follows: "follows_chain addr header_id rotate_id head ids H K s"
    and s': "s' = operator_round keccak gw cfg c interval dmax s"
  shows "follows_chain addr header_id rotate_id head ids H K s'"
    and "unat (vx_latest_block s) < block_to_request head (unat (vx_latest_block s)) (unat interval) (unat dmax)
      \<Longrightarrow> rounds_left head ids s' < rounds_left head ids s"
proof -
  let ?a = "unat (vx_latest_block s)" and ?k = "of_nat (ids (unat (vx_latest_block s))) :: u64"
  define n where "n = block_to_request head ?a (unat interval) (unat dmax)"
  have n: "n \<le> head" "n \<le> ?a + unat dmax" by (auto simp: n_def block_to_request_def Let_def min_def)
  have a: "0 < ?a" "?a \<le> head" using follows by (auto simp: follows_chain_def)
  have limit: "unat dmax + ?a < 2 ^ 32" using small(2) a(2) by linarith
  obtain qs where once: "run_once cfg c s interval dmax = Inr (rotate_requests cfg ids head s @ qs)"
    and qs: "header_requests cfg ids s n qs"
    unfolding n_def using run_once_eq [OF chain steps top a small(1) limit] by blast
  define s1 where "s1 = foldl (fulfil keccak gw) s (rotate_requests cfg ids head s)"
  note rot = fulfil_rotate [OF chain steps top proves follows nonzero(2) s1_def]
  have s'_eq: "s' = foldl (fulfil keccak gw) s1 qs" by (simp add: s' operator_round_def once s1_def)
  have "ids ?a \<le> ids head" using chain a by (simp add: id_chain_def)
  then have k: "K (ids ?a) \<noteq> zero_hash" "vx_set_hash s ?k \<noteq> zero_hash \<Longrightarrow> vx_set_hash s ?k = K (ids ?a)"
    using nonzero(2) follows by (auto simp: follows_chain_def)
  have "follows_chain addr header_id rotate_id head ids H K s' \<and> (?a < n \<longrightarrow> rounds_left head ids s' < rounds_left head ids s)"
  proof (cases "n \<le> ?a \<or> (ids ?a \<noteq> ids (?a - 1) \<and> vx_set_hash s ?k = zero_hash)")
    case True
    then have "s' = s1" using qs s'_eq by (simp add: header_requests_def Let_def)
    moreover have "rounds_left head ids s1 < rounds_left head ids s" if "?a < n"
      using that True rot(2,4) n(1) by (auto simp: rounds_left_def)
    ultimately show ?thesis using rot(1) by simp
  next
    case False
    then obtain t where t: "step_to ids ?a n t"
      "qs = [request_header_range cfg s (vx_latest_block s) ?k (of_nat t) (vx_header_range_function_id s)]"
      using qs unfolding header_requests_def Let_def by (auto split: if_splits)
    have "vx_set_hash s ?k = K (ids ?a)"
    proof (cases "ids ?a = ids (?a - 1)")
      case True
      then show ?thesis using follows by (simp add: follows_chain_def)
    qed (use False k(2) in blast)
    then have known: "vx_set_hash s1 ?k = K (ids ?a)" and asked: "vx_set_hash s ?k = K (ids ?a)"
      using rot(3) k(1) by metis+
    have header_id: "vx_header_range_function_id s = header_id" "vx_header_hash s (vx_latest_block s) = H ?a"
      using follows by (simp_all add: follows_chain_def)
    have "a < t \<and> t \<le> head" if "step_to ids a n t" for a using that n(1) by (simp add: step_to_def)
    then have t_le: "?a < t" "unat (of_nat t :: u32) = t" using t(1) chain_ids(3) [OF chain] by blast+
    have "head - t < head - ?a" using t n(1) by (auto simp: step_to_def)
    then have less: "2 * (head - t) + 1 < 2 * (head - ?a)" by linarith
    have "follows_chain addr header_id rotate_id head ids H K s' \<and> vx_latest_block s' = of_nat t"
      unfolding s'_eq t(2) foldl.simps
      using fulfil_header_range [OF chain proves rot(1), of n t _ cfg s keccak] header_id asked
        t(1) n nonzero(1) k(1) known a unfolding rot(2) by blast
    moreover from this have "rounds_left head ids s' < rounds_left head ids s"
      using t_le less by (auto simp: rounds_left_def)
    ultimately show ?thesis by blast
  qed
  then show "follows_chain addr header_id rotate_id head ids H K s'"
    and "?a < block_to_request head ?a (unat interval) (unat dmax) \<Longrightarrow> rounds_left head ids s' < rounds_left head ids s"
    by (simp_all add: n_def)
qed

lemma rounds_catch_up:
  assumes chain: "id_chain c head ids" and steps: "unit_steps head ids" and top: "ids head + 1 < 2 ^ 64"
    and small: "0 < interval" "head + unat dmax < 2 ^ 32"
    and proves: "proves_chain gw addr header_id rotate_id head ids (unat dmax) H K"
    and nonzero: "\<forall>b\<le>head. 0 < b \<longrightarrow> H b \<noteq> zero_hash" "\<forall>i\<le>ids head. K i \<noteq> zero_hash"
    and follows: "follows_chain addr header_id rotate_id head ids H K s"
  shows "\<exists>k s'. k \<le> rounds_left head ids s \<and> s' = (operator_round keccak gw cfg c interval dmax ^^ k) s
    \<and> follows_chain addr header_id rotate_id head ids H K s'
    \<and> block_to_request head (unat (vx_latest_block s')) (unat interval) (unat dmax) \<le> unat (vx_latest_block s')"
  using follows
proof (induction "rounds_left head ids s" arbitrary: s rule: less_induct)
  case less
  let ?round = "operator_round keccak gw cfg c interval dmax"
  let ?done = "\<lambda>s. block_to_request head (unat (vx_latest_block s)) (unat interval) (unat dmax) \<le> unat (vx_latest_block s)"
  show ?case
  proof (cases "?done s")
    case True
    then show ?thesis using less.prems by (intro exI [of _ 0] exI [of _ s]) simp
  next
    case False
    note next_round = round_progress [OF chain steps top small proves nonzero less.prems refl, of keccak cfg]
    have fewer: "rounds_left head ids (?round s) < rounds_left head ids s" using next_round(2) False by simp
    obtain k s' where k: "k \<le> rounds_left head ids (?round s)" and s': "s' = (?round ^^ k) (?round s)"
      "follows_chain addr header_id rotate_id head ids H K s'" "?done s'"
      using less.hyps [OF fewer next_round(1)] by auto
    have "s' = (?round ^^ Suc k) s" using s'(1) by (simp add: funpow_swap1)
    moreover have "Suc k \<le> rounds_left head ids s" using k fewer by simp
    ultimately show ?thesis using s' by blast
  qed
qed

text \<open>The head never moves back in a round.\<close>

lemma fulfil_latest: "vx_latest_block s \<le> vx_latest_block (fulfil keccak gw s q)"
  using fulfil_step [of keccak gw s q] vx_latest_mono by auto

lemma answers_latest: "vx_latest_block s \<le> vx_latest_block (foldl (fulfil keccak gw) s qs)"
proof (induction qs arbitrary: s)
  case (Cons q qs)
  have "vx_latest_block s \<le> vx_latest_block (fulfil keccak gw s q)" by (rule fulfil_latest)
  also have "\<dots> \<le> vx_latest_block (foldl (fulfil keccak gw) s (q # qs))" using Cons.IH by simp
  finally show ?case .
qed simp

lemma rounds_latest:
  "j \<le> k \<Longrightarrow> vx_latest_block ((operator_round keccak gw cfg c interval dmax ^^ j) s)
    \<le> vx_latest_block ((operator_round keccak gw cfg c interval dmax ^^ k) s)"
proof (induction k rule: dec_induct)
  case (step k)
  have "vx_latest_block z \<le> vx_latest_block (operator_round keccak gw cfg c interval dmax z)" for z
    by (auto simp: operator_round_def answers_latest split: sum.splits)
  then show ?case using step by (auto intro: order_trans)
qed simp

text \<open>With an interval within the limit, the rounds end at the last multiple of the interval.\<close>

lemma block_to_request_done:
  assumes "block_to_request head a interval dmax \<le> a" and "a \<le> head" and "0 < interval" and "interval \<le> dmax"
  shows "head - head mod interval \<le> a"
proof (cases "head \<le> a + dmax")
  case True
  then show ?thesis using assms(1) by (simp add: block_to_request_def min_def Let_def)
next
  case False
  have "(a + dmax) mod interval < dmax" using assms(3,4) by (meson mod_less_divisor order_less_le_trans)
  then show ?thesis using assms(1) False by (simp add: block_to_request_def min_def Let_def)
qed

text \<open>Repeated iterations bring the contract up to date: on a chain that stands still, whose true
  ranges and rotations the prover proves, a contract that follows the chain reaches, after finitely many
  rounds of the operator, a block not before the last multiple of the interval, still with the chain's
  hashes, provided the interval is at most the largest range.\<close>

theorem operator_catches_up:
  assumes "id_chain c head ids" and "unit_steps head ids" and "ids head + 1 < 2 ^ 64"
    and "0 < interval" and "interval \<le> dmax" and "head + unat dmax < 2 ^ 32"
    and "proves_chain gw addr header_id rotate_id head ids (unat dmax) H K"
    and "\<forall>b\<le>head. 0 < b \<longrightarrow> H b \<noteq> zero_hash" and "\<forall>i\<le>ids head. K i \<noteq> zero_hash"
    and "follows_chain addr header_id rotate_id head ids H K s"
  shows "\<exists>k. follows_chain addr header_id rotate_id head ids H K ((operator_round keccak gw cfg c interval dmax ^^ k) s)
    \<and> head - head mod unat interval \<le> unat (vx_latest_block ((operator_round keccak gw cfg c interval dmax ^^ k) s))"
proof -
  obtain k s' where s': "s' = (operator_round keccak gw cfg c interval dmax ^^ k) s"
    "follows_chain addr header_id rotate_id head ids H K s'"
    "block_to_request head (unat (vx_latest_block s')) (unat interval) (unat dmax) \<le> unat (vx_latest_block s')"
    using rounds_catch_up [OF assms(1-4,6-10)] by blast
  moreover have "head - head mod unat interval \<le> unat (vx_latest_block s')"
    using block_to_request_done [OF s'(3)] s'(2) assms(4,5)
    by (simp add: follows_chain_def word_le_nat_alt word_less_nat_alt)
  ultimately show ?thesis by blast
qed

text \<open>A contract at block 2 of the chain of ten blocks, with recognisable hashes and a prover for them.\<close>

definition header_hash_of :: "nat \<Rightarrow> bytes32" where
  "header_hash_of b = u32_to_be (of_nat b) @ replicate 28 1"

definition set_hash_of :: "nat \<Rightarrow> bytes32" where
  "set_hash_of i = u64_to_be (of_nat i) @ replicate 24 1"

definition example_prover :: gateway where
  "example_prover addr fid input =
     (if fid = replicate 32 3 then Some (drop 76 input @ replicate 28 1 @ replicate 64 0)
      else Some (u64_to_be (u64_from_be (take 8 input) + 1) @ replicate 24 1))"

definition following_contract :: vectorx where
  "following_contract = initialize_vx 0 2 (header_hash_of 2) 0 (set_hash_of 0) (replicate 32 3) (replicate 32 4)"

lemma length_hash_of [simp]: "length (header_hash_of b) = 32" "length (set_hash_of i) = 32"
  "length (u32_to_be n) = 4" "length (u64_to_be m) = 8"
  by (simp_all add: header_hash_of_def set_hash_of_def u32_to_be_def u64_to_be_def)

lemma hash_of_nonzero: "header_hash_of b \<noteq> zero_hash" "set_hash_of i \<noteq> zero_hash"
  by (auto simp: header_hash_of_def set_hash_of_def zero_hash_def dest: arg_cong [of _ _ last])

lemma example_proves:
  "proves_chain example_prover 0 (replicate 32 3) (replicate 32 4) 10 example_ids 8 header_hash_of set_hash_of"
proof -
  have "segment 0 32 (u32_to_be n @ replicate 28 1 @ replicate 64 0) = u32_to_be n @ replicate 28 1" for n :: u32
    by (simp add: segment_def)
  then show ?thesis
    by (auto simp: proves_chain_def example_prover_def header_range_input_def rotate_input_def header_hash_of_def
        set_hash_of_def segment_def add.commute)
qed

theorem operator_catches_up_witness:
  "\<exists>k. let s = (operator_round toy_digest example_prover \<lparr>cfg_address = 7, cfg_chain_id = 1\<rparr> example_client 5 8 ^^ k)
      following_contract
    in vx_latest_block s = 10 \<and> vx_header_hash s 10 = header_hash_of 10"
proof -
  have follows: "follows_chain 0 (replicate 32 3) (replicate 32 4) 10 example_ids header_hash_of set_hash_of following_contract"
  proof -
    have "vx_set_hash following_contract (of_nat i) = (if of_nat i = (0 :: u64) then set_hash_of i else zero_hash)" for i
      by (simp add: following_contract_def initialize_vx_def set_hash_of_def)
    then have "\<forall>i\<le>example_ids 10. vx_set_hash following_contract (of_nat i) \<in> {zero_hash, set_hash_of i}" by simp
    then show ?thesis
      by (simp add: follows_chain_def) (simp add: following_contract_def initialize_vx_def example_ids_def)
  qed
  obtain k where k: "follows_chain 0 (replicate 32 3) (replicate 32 4) 10 example_ids header_hash_of set_hash_of
      ((operator_round toy_digest example_prover \<lparr>cfg_address = 7, cfg_chain_id = 1\<rparr> example_client 5 8 ^^ k) following_contract)"
    and "10 - 10 mod 5 \<le> unat (vx_latest_block ((operator_round toy_digest example_prover
      \<lparr>cfg_address = 7, cfg_chain_id = 1\<rparr> example_client 5 8 ^^ k) following_contract))"
    using operator_catches_up [OF example_id_chain, of 5 8 example_prover 0 "replicate 32 3" "replicate 32 4"
        header_hash_of set_hash_of following_contract toy_digest "\<lparr>cfg_address = 7, cfg_chain_id = 1\<rparr>"]
      example_proves follows hash_of_nonzero
    by (auto simp: example_ids_def)
  then have "unat (vx_latest_block ((operator_round toy_digest example_prover
      \<lparr>cfg_address = 7, cfg_chain_id = 1\<rparr> example_client 5 8 ^^ k) following_contract)) = 10"
    by (simp add: follows_chain_def)
  moreover from this have "vx_latest_block ((operator_round toy_digest example_prover
      \<lparr>cfg_address = 7, cfg_chain_id = 1\<rparr> example_client 5 8 ^^ k) following_contract) = 10"
    by (simp add: word_unat_eq_iff)
  ultimately show ?thesis using k by (intro exI [of _ k]) (simp add: follows_chain_def)
qed

text \<open>C32. The interval is read from the environment without a bound. Above the largest range, a contract at
  a multiple of the interval gets no header range request any more, however far the chain has gone.\<close>

theorem operator_stalls:
  assumes "id_chain c head ids" and "unit_steps head ids" and "ids head + 1 < 2 ^ 64"
    and "0 < unat (vx_latest_block s)" and "unat (vx_latest_block s) \<le> head"
    and "dmax < interval" and "unat interval dvd unat (vx_latest_block s)"
    and "unat dmax + unat (vx_latest_block s) < 2 ^ 32"
  shows "run_once cfg c s interval dmax = Inr (rotate_requests cfg ids head s)"
proof -
  let ?a = "unat (vx_latest_block s)" and ?m = "min head (unat (vx_latest_block s) + unat dmax)"
  obtain k where k: "?a = unat interval * k" using assms(7) by (elim dvdE)
  define d where "d = ?m - ?a"
  have "?m = unat interval * k + d" "d < unat interval"
    using assms(5,6) k by (simp_all add: d_def word_less_nat_alt)
  then have "?m - ?m mod unat interval = ?a" by (simp add: k)
  moreover have "0 < interval" using assms(6) by (simp add: word_less_nat_alt)
  ultimately show ?thesis
    using run_once_eq [OF assms(1-5) _ assms(8), of interval cfg]
    by (auto simp: block_to_request_def header_requests_def Let_def)
qed

theorem operator_stalls_witness:
  "run_once \<lparr>cfg_address = 7, cfg_chain_id = 1\<rparr> example_client example_contract 2 1
    = Inr [request_rotate \<lparr>cfg_address = 7, cfg_chain_id = 1\<rparr> example_contract 0 (replicate 32 4)]"
  using operator_stalls [OF example_id_chain, of example_contract 1 2 "\<lparr>cfg_address = 7, cfg_chain_id = 1\<rparr>"]
  by (simp add: example_ids_def rotate_requests_def)

end
