(* ===== verification/Chain_Safety.thy ===== *)
theory Chain_Safety
  imports Contract
begin

text \<open>
  From the circuits to the chain: a chain of blocks that GRANDPA finalises, and what the outputs of the
  two circuits say about it. The circuits leave some values to the prover that they do not check (see
  Justification and Rotate_Builder); with those values chosen as an honest prover chooses them, every
  output is true of the chain, whoever asks.
\<close>

section \<open>A finalised chain\<close>

text \<open>The head, the set id after each block, the blocks, the keys of each set, which key has signed which
  message, and the byte strings that occur as arguments of the hash functions.\<close>

record avail_model =
  av_head :: nat
  av_ids :: "nat \<Rightarrow> nat"
  av_block :: "nat \<Rightarrow> chain_header"
  av_keys :: "nat \<Rightarrow> bytes32 list"
  av_signed :: "bytes32 \<Rightarrow> byte list \<Rightarrow> bool"
  av_bytes :: "byte list set"

definition block_bytes :: "avail_model \<Rightarrow> nat \<Rightarrow> byte list" where
  "block_bytes A b = encode_chain_header b (av_block A b)"

definition true_header :: "gadgets \<Rightarrow> avail_model \<Rightarrow> nat \<Rightarrow> bytes32" where
  "true_header G A b = blake2b G (block_bytes A b)"

definition true_set :: "gadgets \<Rightarrow> avail_model \<Rightarrow> nat \<Rightarrow> bytes32" where
  "true_set G A i = compute_authority_set_hash (sha256 G) (av_keys A i)"

definition true_root :: "(chain_header \<Rightarrow> bytes32) \<Rightarrow> gadgets \<Rightarrow> avail_model \<Rightarrow> nat \<Rightarrow> nat \<Rightarrow> bytes32" where
  "true_root f G A a b = list_root (sha_node G)
     (map (\<lambda>i. f (av_block A i)) [a + 1..<b + 1] @ replicate (MAX_NUM_HEADERS - (b - a)) zero_hash)"

text \<open>More than two thirds of the slots of a set signed a message.\<close>

definition quorum_on :: "avail_model \<Rightarrow> nat \<Rightarrow> byte list \<Rightarrow> bool" where
  "quorum_on A i m \<longleftrightarrow>
     2 * length (av_keys A i) < 3 * card {x. x < length (av_keys A i) \<and> av_signed A (av_keys A i ! x) m}"

text \<open>What GRANDPA promises: a quorum of precommits of a set is for a block of the chain in the epoch of the
  set.\<close>

definition grandpa_finality :: "gadgets \<Rightarrow> avail_model \<Rightarrow> bool" where
  "grandpa_finality G A \<longleftrightarrow> (\<forall>(i :: u64) (b :: u32) h round.
     quorum_on A (unat i) (signed_message \<lparr>target_hash = h, target_number = b\<rparr> round i) \<longrightarrow>
       0 < unat b \<and> unat b \<le> av_head A \<and> unat i = av_ids A (unat b - 1) \<and> h = true_header G A (unat b))"

text \<open>Bytes of a block that read as a scheduled change to \<open>n\<close> keys announce the next set.\<close>

definition announcements :: "gadgets \<Rightarrow> avail_model \<Rightarrow> bool" where
  "announcements G A \<longleftrightarrow> (\<forall>b start v mode ks. let bs = block_bytes A b; n = unat v in
     0 < b \<longrightarrow> b \<le> av_head A \<longrightarrow> 0 < n \<longrightarrow> n \<le> length ks \<longrightarrow> (\<forall>k\<in>set ks. length k = 32) \<longrightarrow>
     start + 18 + 40 * n \<le> length bs \<longrightarrow>
     decode_compact_int G (segment (start + 9) (start + 14) bs) = Some (v, mode) \<longrightarrow>
     epoch_end_log bs start mode n ks \<longrightarrow>
       av_ids A b = av_ids A (b - 1) + 1 \<and> take n ks = av_keys A (av_ids A b))"

definition finalised_chain :: "gadgets \<Rightarrow> nat \<Rightarrow> avail_model \<Rightarrow> bool" where
  "finalised_chain G S A \<longleftrightarrow> avail_chain G S (av_block A) 0 (av_head A)
     \<and> (\<forall>i j. i \<le> j \<longrightarrow> j \<le> av_head A \<longrightarrow> av_ids A i \<le> av_ids A j) \<and> av_ids A (av_head A) < 2 ^ 64
     \<and> (\<forall>i\<le>av_ids A (av_head A). av_keys A i \<noteq> [] \<and> (\<forall>k\<in>set (av_keys A i). length k = 32)
          \<and> commit_messages (compute_authority_set_hash (sha256 G)) (av_keys A i) \<subseteq> av_bytes A)
     \<and> (\<forall>b\<le>av_head A. block_bytes A b \<in> av_bytes A)
     \<and> inj_on (blake2b G) (av_bytes A) \<and> inj_on (sha256 G) (av_bytes A)
     \<and> grandpa_finality G A \<and> announcements G A"

lemma finalised_chainD:
  assumes "finalised_chain G S A"
  shows "avail_chain G S (av_block A) 0 (av_head A)"
    and "i \<le> j \<Longrightarrow> j \<le> av_head A \<Longrightarrow> av_ids A i \<le> av_ids A j" and "av_ids A (av_head A) < 2 ^ 64"
    and "n \<le> av_ids A (av_head A) \<Longrightarrow> av_keys A n \<noteq> []"
    and "n \<le> av_ids A (av_head A) \<Longrightarrow> \<forall>k\<in>set (av_keys A n). length k = 32"
    and "n \<le> av_ids A (av_head A) \<Longrightarrow> commit_messages (compute_authority_set_hash (sha256 G)) (av_keys A n) \<subseteq> av_bytes A"
    and "b \<le> av_head A \<Longrightarrow> block_bytes A b \<in> av_bytes A"
    and "inj_on (blake2b G) (av_bytes A)" and "inj_on (sha256 G) (av_bytes A)"
    and "grandpa_finality G A" and "announcements G A"
  using assms by (simp_all add: finalised_chain_def)

section \<open>Honestly chosen values\<close>

text \<open>Only slots of authorities are marked, the count does not wrap, no signature is forged.\<close>

definition careful_justification :: "gadgets \<Rightarrow> avail_model \<Rightarrow> nat \<Rightarrow> justification \<Rightarrow> bool" where
  "careful_justification G A N j \<longleftrightarrow> wf_justification N j \<and> unat (num_authorities j) < 2 ^ 31
     \<and> (\<forall>x<N. validator_signed j ! x \<longrightarrow> x < unat (num_authorities j))
     \<and> (\<forall>x\<in>active_slots (validator_signed j).
          sig_valid G (pubkeys j ! x) (encoded_precommit j) (signatures j ! x) \<longrightarrow>
          av_signed A (pubkeys j ! x) (encoded_precommit j))
     \<and> commit_messages (compute_authority_set_hash (sha256 G)) (authorities_of j) \<subseteq> av_bytes A"

definition careful_header :: "avail_model \<Rightarrow> nat \<Rightarrow> encoded_header \<Rightarrow> bool" where
  "careful_header A S h \<longleftrightarrow> wf_header S h \<and> unat (header_size h) \<le> S \<and> hashed_bytes h \<in> av_bytes A"

definition careful_fetch :: "avail_model \<Rightarrow> nat \<Rightarrow> (u32 \<Rightarrow> u32 \<Rightarrow> u32 \<Rightarrow> encoded_header list) \<Rightarrow> bool" where
  "careful_fetch A S fetch \<longleftrightarrow>
     (\<forall>a b e. length (fetch a b e) = HEADERS_PER_MAP \<and> (\<forall>h\<in>set (fetch a b e). careful_header A S h))"

text \<open>The scheduled change lies within the hashed bytes and fits the slots.\<close>

definition careful_rotate :: "avail_model \<Rightarrow> nat \<Rightarrow> nat \<Rightarrow> rotate_variable \<Rightarrow> bool" where
  "careful_rotate A S N r \<longleftrightarrow> wf_rotate S N r \<and> careful_header A S (target_header r)
     \<and> target_header_num_authorities r \<le> N
     \<and> next_authority_set_start_position r + 18 + 40 * target_header_num_authorities r
         \<le> unat (header_size (target_header r))"

section \<open>What a justification says\<close>

lemma careful_quorum:
  assumes ok: "gadgets_ok G" and chain: "finalised_chain G S A" and j: "careful_justification G A N j"
    and i: "i \<le> av_ids A (av_head A)" and just: "justified G b h set_id (true_set G A i) j"
  shows "quorum_on A i (encoded_precommit j)"
proof -
  let ?H = "compute_authority_set_hash (sha256 G)"
  have wf: "wf_justification N j" and claimed: "unat (num_authorities j) < 2 ^ 31"
    and slots: "\<forall>x<N. validator_signed j ! x \<longrightarrow> x < unat (num_authorities j)"
    using j by (simp_all add: careful_justification_def)
  note len = wf [unfolded wf_justification_def]
  have quorum: "2 * unat (num_authorities j) < 3 * card (active_slots (validator_signed j))"
    using just claimed by (simp add: justified_def)
  then have "active_slots (validator_signed j) \<noteq> {}" by auto
  then have N: "0 < N" using len by (auto simp: active_slots_def)
  have auths: "authorities_of j = av_keys A i"
  proof (rule host_commit.commit_binding [where sha = "sha256 G"])
    show "\<forall>k\<in>set (authorities_of j) \<union> set (av_keys A i). length k = 32"
      using len finalised_chainD(5) [OF chain i] by (auto simp: authorities_of_def dest: in_set_takeD)
    show "authorities_of j \<noteq> []"
      using just len N by (auto simp: justified_def authorities_of_def unat_eq_0)
    show "inj_on (sha256 G) (commit_messages ?H (authorities_of j) \<union> commit_messages ?H (av_keys A i))"
      using finalised_chainD(6) [OF chain i] j
      by (intro inj_on_subset [OF finalised_chainD(9) [OF chain]]) (simp add: careful_justification_def)
  qed (use just finalised_chainD(4) [OF chain i] gadgets_okD(5) [OF ok] in
      \<open>auto simp: justified_def true_set_def hash_gadget_simps\<close>)
  have "active_slots (validator_signed j)
    \<subseteq> {x. x < length (av_keys A i) \<and> av_signed A (av_keys A i ! x) (encoded_precommit j)}" (is "_ \<subseteq> ?Q")
  proof
    fix x assume x: "x \<in> active_slots (validator_signed j)"
    then have "x < N" "x < unat (num_authorities j)" using slots len by (auto simp: active_slots_def)
    moreover from this have "av_keys A i ! x = pubkeys j ! x" "x < length (av_keys A i)"
      unfolding auths [symmetric] using len by (simp_all add: authorities_of_def)
    moreover have "av_signed A (pubkeys j ! x) (encoded_precommit j)"
      using x just j by (simp add: justified_def careful_justification_def)
    ultimately show "x \<in> ?Q" by simp
  qed
  then have "card (active_slots (validator_signed j)) \<le> card ?Q" by (rule card_mono [rotated]) simp
  moreover have "length (av_keys A i) \<le> unat (num_authorities j)"
    unfolding auths [symmetric] by (simp add: authorities_of_def)
  ultimately show ?thesis using quorum by (simp add: quorum_on_def)
qed

text \<open>A justified header is the one of the chain.\<close>

lemma justified_true:
  assumes "gadgets_ok G" and "finalised_chain G S A" and "careful_justification G A N j"
    and "unat i \<le> av_ids A (av_head A)" and "justified G b h i (true_set G A (unat i)) j"
  shows "0 < unat b \<and> unat b \<le> av_head A \<and> unat i = av_ids A (unat b - 1) \<and> h = true_header G A (unat b)"
proof -
  obtain round where "encoded_precommit j = signed_message \<lparr>target_hash = h, target_number = b\<rparr> round i"
    using assms(5) by (auto simp: justified_def)
  then have "quorum_on A (unat i) (signed_message \<lparr>target_hash = h, target_number = b\<rparr> round i)"
    using careful_quorum [OF assms] by simp
  then show ?thesis using finalised_chainD(10) [OF assms(2)] unfolding grandpa_finality_def by blast
qed

section \<open>What the circuits' outputs say\<close>

lemma careful_range:
  assumes "careful_fetch A S fetch" and "h \<in> set (range_headers fetch a b lo n)"
  shows "length (header_bytes h) = S \<and> unat (header_size h) \<le> S \<and> hashed_bytes h \<in> av_bytes A"
  using assms by (auto simp: range_headers_def batch_headers_def careful_fetch_def careful_header_def wf_header_def)

lemma avail_chain_part:
  assumes "avail_chain G S blk a b" and "a \<le> a'" and "b' \<le> b"
  shows "avail_chain G S blk a' b'"
  unfolding avail_chain_def
proof (intro allI impI)
  fix i assume "a' \<le> i \<and> i \<le> b'"
  then have "a \<le> i \<and> i \<le> b" "a' < i \<longrightarrow> a < i" using assms(2,3) by linarith+
  then show "length (ch_parent (blk i)) = 32 \<and> length (ch_state_root (blk i)) = 32
      \<and> length (ch_data_root (blk i)) = 32 \<and> length (encode_chain_header i (blk i)) \<le> S
      \<and> (a' < i \<longrightarrow> ch_parent (blk i) = blake2b G (encode_chain_header (i - 1) (blk (i - 1))))"
    using assms(1) unfolding avail_chain_def by blast
qed

lemma careful_header_range:
  assumes ok: "gadgets_ok G" "mapreduce_gadget mapreduce" and N: "0 < N" "3 * N < 2 ^ 32" and S: "S < 2 ^ 32"
    and chain: "finalised_chain G S A" and fetch: "careful_fetch A S fetch"
    and hint: "\<forall>b i. careful_justification G A N (hint b i)"
    and range: "a < b" "unat a + 256 < 2 ^ 32" and len: "length p = 32" and i: "unat i \<le> av_ids A (av_head A)"
    and out: "header_range_define G mapreduce fetch hint MAX_NUM_HEADERS
      (header_range_input a p i (true_set G A (unat i)) b) = Some out"
  shows "unat b \<le> av_head A \<and> unat i = av_ids A (unat b - 1) \<and> p = true_header G A (unat a)
    \<and> out = true_header G A (unat b) @ true_root ch_state_root G A (unat a) (unat b)
        @ true_root ch_data_root G A (unat a) (unat b)"
proof -
  let ?a = "unat a" and ?b = "unat b"
  have jobs: "2 \<le> num_map_jobs MAX_NUM_HEADERS" "?a + 8 * num_map_jobs MAX_NUM_HEADERS < 2 ^ 32"
    using range by (simp_all only: full_jobs)
  have fetched: "fetched_ok fetch a b (num_map_jobs MAX_NUM_HEADERS)"
    using fetch by (simp add: fetched_ok_def batch_headers_def list_all_iff careful_fetch_def)
  have lt: "?a < ?b" using range(1) by (simp add: word_less_nat_alt)
  have set_len: "length (true_set G A (unat i)) = 32"
    using length_authority_set_hash [OF gadgets_okD(5) [OF ok(1)] finalised_chainD(4) [OF chain i]]
    by (simp add: true_set_def)
  obtain sub where sub: "verify_subchain G mapreduce fetch MAX_NUM_HEADERS a p b = Some sub"
    and just: "verify_simple_justification G b (target_header_hash sub) i (true_set G A (unat i)) (hint b i) = Some ()"
    and o: "out = target_header_hash sub @ state_root_merkle_root sub @ data_root_merkle_root sub"
    using out unfolding header_range_define_eq [OF len set_len] by (auto simp: Option.bind_eq_Some_conv)
  have j: "careful_justification G A N (hint b i)" using hint by blast
  then have "justified G b (target_header_hash sub) i (true_set G A (unat i)) (hint b i)"
    using just verify_simple_justification_iff [OF ok(1) _ N] by (auto simp: careful_justification_def)
  from justified_true [OF ok(1) chain j i this]
  have b: "?b \<le> av_head A" "unat i = av_ids A (?b - 1)" "target_header_hash sub = true_header G A ?b" by blast+
  have part: "avail_chain G S (av_block A) (?a + 1) ?b"
    by (rule avail_chain_part [OF finalised_chainD(1) [OF chain] _ b(1)]) simp
  let ?hs = "take (?b - ?a) (range_headers fetch a b 0 (num_map_jobs MAX_NUM_HEADERS))"
  have fit: "\<forall>h\<in>set ?hs. length (header_bytes h) = S \<and> unat (header_size h) \<le> S"
    using careful_range [OF fetch] by (auto dest: in_set_takeD)
  have "inj_on (blake2b G) (hashed_bytes ` set ?hs
      \<union> (\<lambda>i. encode_chain_header i (av_block A i)) ` {?a + 1..<?b + 1})"
    using careful_range [OF fetch] b(1) finalised_chainD(7) [OF chain]
    by (intro inj_on_subset [OF finalised_chainD(8) [OF chain]])
      (auto simp: block_bytes_def dest: in_set_takeD)
  note bound = verify_subchain_bound [OF ok jobs fetched range(1) sub S fit part
      b(3) [unfolded true_header_def block_bytes_def] this, unfolded Let_def full_jobs]
  have "ch_parent (av_block A (?a + 1)) = true_header G A ?a"
    using finalised_chainD(1) [OF chain] lt b(1) by (simp add: avail_chain_def true_header_def block_bytes_def)
  then show ?thesis using bound b o by (simp add: true_root_def)
qed

text \<open>The part of a log that is checked depends on the bytes up to the end of the delay only.\<close>

lemma epoch_end_log_prefix:
  assumes "n \<le> length ks" and "mode < 4" and "start + 18 + 40 * n \<le> length xs"
  shows "epoch_end_log (xs @ ys) start mode n ks \<longleftrightarrow> epoch_end_log xs start mode n ks"
proof -
  have "compact_length mode \<le> 5" using compact_length_le [OF assms(2)] .
  then show ?thesis
    using assms by (auto simp: epoch_end_log_def Let_def nth_append segment_append_left min_def)
qed

lemma careful_rotation:
  assumes ok: "gadgets_ok G" and N: "0 < N" "3 * N < 2 ^ 32" and S: "S < 2 ^ 32"
    and chain: "finalised_chain G S A" and r: "careful_rotate A S N (rhint i)"
    and hint: "\<forall>b i. careful_justification G A N (hint b i)" and i: "unat i \<le> av_ids A (av_head A)"
    and out: "rotate_define G N (N * VALIDATOR_LENGTH + DELAY_LENGTH) rhint hint
      (rotate_input i (true_set G A (unat i))) = Some out"
  shows "unat i < av_ids A (av_head A) \<and> out = true_set G A (unat i + 1)"
proof -
  let ?r = "rhint i" and ?h = "target_header (rhint i)" and ?n = "target_header_num_authorities (rhint i)"
    and ?start = "next_authority_set_start_position (rhint i)"
  let ?b = "epoch_end_block_number ?r" and ?j = "hint (epoch_end_block_number ?r) i"
  have wfr: "wf_rotate S N ?r" and head: "careful_header A S ?h" and n: "?n \<le> N"
    and within: "?start + 18 + 40 * ?n \<le> unat (header_size ?h)" using r by (simp_all add: careful_rotate_def)
  have keys: "\<forall>k\<in>set (new_pubkeys ?r). length k = 32" "length (new_pubkeys ?r) = N"
    "length (header_bytes ?h) < 2 ^ 32" using wfr S by (simp_all add: wf_rotate_def wf_header_def)
  have size: "unat (header_size ?h) \<le> length (header_bytes ?h)"
    using head by (simp add: careful_header_def wf_header_def)
  have set_len: "length (true_set G A (unat i)) = 32"
    using length_authority_set_hash [OF gadgets_okD(5) [OF ok] finalised_chainD(4) [OF chain i]]
    by (simp add: true_set_def)
  have j: "careful_justification G A N ?j" using hint by blast
  then have wfj: "wf_justification N ?j" by (simp add: careful_justification_def)
  have "rotate G N (N * 40 + 4) i (true_set G A (unat i)) ?r ?j = Some out"
    using out rotate_define_eq [OF set_len] by simp
  then have acc: "justified G ?b (hash_encoded_header G ?h) i (true_set G A (unat i)) ?j"
    "verify_epoch_end_header G (N * 40 + 4) ?h (hash_encoded_header G ?h) ?n ?start (new_pubkeys ?r) = Some ()"
    "out = compute_authority_set_hash (sha256 G) (take ?n (new_pubkeys ?r))"
    using rotate_Some_iff [OF ok wfj N wfr] by blast+
  from justified_true [OF ok chain j i acc(1)]
  have b: "0 < unat ?b" "unat ?b \<le> av_head A" "unat i = av_ids A (unat ?b - 1)"
    "hash_encoded_header G ?h = true_header G A (unat ?b)" by blast+
  have "hash_encoded_header G ?h = blake2b G (hashed_bytes ?h)"
    using hash_gadget_simps(4) [OF gadgets_okD(5) [OF ok]] size by (simp add: hash_encoded_header_def hashed_bytes_def)
  then have bytes: "hashed_bytes ?h = block_bytes A (unat ?b)"
    using b(4) head inj_onD [OF finalised_chainD(8) [OF chain]] finalised_chainD(7) [OF chain b(2)]
    by (simp add: true_header_def careful_header_def)
  have split: "header_bytes ?h = block_bytes A (unat ?b) @ drop (unat (header_size ?h)) (header_bytes ?h)"
    using bytes by (metis append_take_drop_id hashed_bytes_def)
  have len: "length (block_bytes A (unat ?b)) = unat (header_size ?h)"
    using arg_cong [OF bytes, of length] size by (simp add: hashed_bytes_def)
  obtain v mode where v: "?n = unat v" "0 < ?n"
    "decode_compact_int G (segment (?start + 9) (?start + 14) (header_bytes ?h)) = Some (v, mode)"
    "epoch_end_log (header_bytes ?h) ?start mode ?n (new_pubkeys ?r)"
    using acc(2) verify_epoch_end_header_iff [OF ok keys(1,3), unfolded keys(2)] by blast
  have seg: "segment (?start + 9) (?start + 14) (header_bytes ?h)
      = segment (?start + 9) (?start + 14) (block_bytes A (unat ?b))"
    using within len by (subst split, subst segment_append_left) simp_all
  have "length (segment (?start + 9) (?start + 14) (block_bytes A (unat ?b))) = 5" using within len by simp
  then have mode: "mode < 4"
    using decode_compact_int_mode(2) [OF gadgets_okD(1,2) [OF ok]] v(3) unfolding seg by blast
  have "epoch_end_log (block_bytes A (unat ?b)) ?start mode ?n (new_pubkeys ?r)"
    using v(4) epoch_end_log_prefix [OF n [folded keys(2)] mode] within len split by metis
  then have "av_ids A (unat ?b) = av_ids A (unat ?b - 1) + 1
      \<and> take ?n (new_pubkeys ?r) = av_keys A (av_ids A (unat ?b))"
    using finalised_chainD(11) [OF chain] b(1,2) v(1-3) n keys within len
    unfolding announcements_def Let_def seg by metis
  then show ?thesis
    using b acc(3) finalised_chainD(2) [OF chain, of "unat ?b" "av_head A"] by (simp add: true_set_def)
qed

end
