(* ===== verification/Finalised_Contract.thy ===== *)
theory Finalised_Contract
  imports Chain_Safety
begin

text \<open>
  The contract on a finalised chain: a gateway whose proofs are honestly made answers the truth about the
  chain, so the contract, a light client's store over that gateway, holds and reports nothing else.
\<close>

section \<open>The gateway\<close>

definition view_of :: "gadgets \<Rightarrow> avail_model \<Rightarrow> chain_view" where
  "view_of G A = \<lparr>cv_head = av_head A, cv_ids = av_ids A, cv_header = true_header G A, cv_set = true_set G A,
     cv_state_root = true_root ch_state_root G A, cv_data_root = true_root ch_data_root G A\<rparr>"

lemma view_of_simps [simp]:
  "cv_head (view_of G A) = av_head A" "cv_ids (view_of G A) = av_ids A" "cv_header (view_of G A) = true_header G A"
  "cv_set (view_of G A) = true_set G A" "cv_state_root (view_of G A) = true_root ch_state_root G A"
  "cv_data_root (view_of G A) = true_root ch_data_root G A"
  by (simp_all add: view_of_def)

text \<open>As \<open>sound_gateway\<close>, with the values that the circuits leave unchecked honestly chosen.\<close>

definition careful_gateway ::
    "gadgets \<Rightarrow> map_reduce_subchain mapreduce \<Rightarrow> nat \<Rightarrow> nat \<Rightarrow> avail_model \<Rightarrow> gateway \<Rightarrow> vectorx \<Rightarrow> bool" where
  "careful_gateway G mapreduce N S A gw s \<longleftrightarrow>
     (\<forall>input out. vx_ask_range gw s input = Some out \<longrightarrow>
        (\<exists>fetch hint. careful_fetch A S fetch \<and> (\<forall>b i. careful_justification G A N (hint b i))
           \<and> header_range_define G mapreduce fetch hint MAX_NUM_HEADERS input = Some out))
     \<and> (\<forall>input out. vx_ask_rotation gw s input = Some out \<longrightarrow>
        (\<exists>rhint hint. (\<forall>i. careful_rotate A S N (rhint i)) \<and> (\<forall>b i. careful_justification G A N (hint b i))
           \<and> rotate_define G N (N * VALIDATOR_LENGTH + DELAY_LENGTH) rhint hint input = Some out))"

lemma true_lengths:
  assumes "gadgets_ok G" and "finalised_chain G S A"
  shows "length (true_header G A b) = 32" and "i \<le> av_ids A (av_head A) \<Longrightarrow> length (true_set G A i) = 32"
    and "b - a \<le> MAX_NUM_HEADERS \<Longrightarrow> length (true_root f G A a b) = 32"
  using assms length_root [OF gadgets_okD(5) [OF assms(1)]] hash_gadget_simps [OF gadgets_okD(5) [OF assms(1)]]
    length_authority_set_hash [OF gadgets_okD(5) [OF assms(1)]] finalised_chainD(4) [OF assms(2)]
  by (simp_all add: true_header_def true_set_def true_root_def)

lemma careful_range_answers:
  assumes ok: "gadgets_ok G" "mapreduce_gadget mapreduce" and N: "0 < N" "3 * N < 2 ^ 32" and S: "S < 2 ^ 32"
    and chain: "finalised_chain G S A" and gateway: "careful_gateway G mapreduce N S A gw s"
  shows "true_range (view_of G A) (vx_ask_range gw s)"
  unfolding true_range_def view_of_simps
proof (intro allI impI)
  fix a b :: u32 and i :: u64 and p out
  let ?k = "true_set G A (unat i)" and ?sr = "true_root ch_state_root G A (unat a) (unat b)"
    and ?dr = "true_root ch_data_root G A (unat a) (unat b)"
  assume ask: "vx_ask_range gw s (header_range_input a p i ?k b) = Some out"
    and range: "a < b" "unat a + 256 < 2 ^ 32" and p: "length p = 32" and i: "unat i \<le> av_ids A (av_head A)"
  obtain fetch hint where f: "careful_fetch A S fetch" "\<forall>b i. careful_justification G A N (hint b i)"
    and out: "header_range_define G mapreduce fetch hint MAX_NUM_HEADERS (header_range_input a p i ?k b) = Some out"
    using gateway ask unfolding careful_gateway_def by blast
  have fetch8: "\<forall>a b e. length (fetch a b e) = 8" and wf: "\<forall>b i. wf_justification N (hint b i)"
    using f by (simp_all add: careful_fetch_def careful_justification_def)
  note len = true_lengths [OF ok(1) chain]
  have "unat b - unat a \<le> MAX_NUM_HEADERS"
    using header_range_proved [OF ok N fetch8 wf range p len(2) [OF i] out] by (auto simp: proved_range_def)
  moreover have "unat b \<le> av_head A \<and> unat i = av_ids A (unat b - 1) \<and> p = true_header G A (unat a)
      \<and> out = true_header G A (unat b) @ ?sr @ ?dr"
    by (rule careful_header_range [OF ok N S chain f range p i out])
  ultimately show "unat b \<le> av_head A \<and> unat i = av_ids A (unat b - 1) \<and> p = true_header G A (unat a)
      \<and> segment 0 32 out = true_header G A (unat b) \<and> segment 32 64 out = ?sr \<and> segment 64 96 out = ?dr"
    using len by (simp add: segment_def)
qed

lemma careful_rotation_answers:
  assumes ok: "gadgets_ok G" and N: "0 < N" "3 * N < 2 ^ 32" and S: "S < 2 ^ 32"
    and chain: "finalised_chain G S A" and gateway: "careful_gateway G mapreduce N S A gw s"
  shows "true_rotation (view_of G A) (vx_ask_rotation gw s)"
  unfolding true_rotation_def view_of_simps
proof (intro allI impI)
  fix i :: u64 and out
  assume ask: "vx_ask_rotation gw s (rotate_input i (true_set G A (unat i))) = Some out"
    and i: "unat i \<le> av_ids A (av_head A)"
  obtain rhint hint where "\<forall>i. careful_rotate A S N (rhint i)" "\<forall>b i. careful_justification G A N (hint b i)"
    "rotate_define G N (N * VALIDATOR_LENGTH + DELAY_LENGTH) rhint hint (rotate_input i (true_set G A (unat i))) = Some out"
    using gateway ask unfolding careful_gateway_def by blast
  then have "unat i < av_ids A (av_head A) \<and> out = true_set G A (unat i + 1)"
    using careful_rotation [OF ok N S chain _ _ i] by blast
  then show "unat i < av_ids A (av_head A) \<and> segment 0 32 out = true_set G A (unat i + 1)"
    using true_lengths(2) [OF ok chain, of "unat i + 1"] by (simp add: segment_def)
qed

lemma careful_gateway_step:
  "vx_step keccak gw s evs s' \<Longrightarrow> careful_gateway G mr N S A gw s \<Longrightarrow> careful_gateway G mr N S A gw s'"
  using gateway_step by (simp add: careful_gateway_def)

section \<open>A contract on the linked chain\<close>

text \<open>Every argument of a hash function on the linked chain up to its block 4.\<close>

definition linked_bytes :: "byte list list" where
  "linked_bytes = [] # map (\<lambda>i. header_layout toy_encode_log (linked_header i)) [0..<5]
     @ [replicate 32 1, toy_digest (replicate 32 1) @ replicate 32 2,
        toy_digest (toy_digest (replicate 32 1) @ replicate 32 2) @ replicate 32 3]"

definition linked_model :: avail_model where
  "linked_model = \<lparr>av_head = 4, av_ids = (\<lambda>b. 0), av_block = linked_block, av_keys = (\<lambda>i. three_keys),
     av_signed = (\<lambda>k m. m = signed_message \<lparr>target_hash = linked_parent 5, target_number = 4\<rparr> 5 0),
     av_bytes = set linked_bytes\<rparr>"

lemma linked_model_simps [simp]:
  "av_head linked_model = 4" "av_ids linked_model b = 0" "av_block linked_model = linked_block"
  "av_keys linked_model i = three_keys" "av_bytes linked_model = set linked_bytes"
  "av_signed linked_model k m \<longleftrightarrow> m = signed_message \<lparr>target_hash = linked_parent 5, target_number = 4\<rparr> 5 0"
  by (simp_all add: linked_model_def)

lemma toy_hashes [simp]: "blake2b toy_gadgets = toy_digest" "sha256 toy_gadgets = toy_digest"
  by (simp_all add: toy_gadgets_def)

lemma linked_block_bytes: "encode_chain_header i (linked_block i) = header_layout toy_encode_log (linked_header i)"
proof -
  have "c_encode_header linked_client = header_layout toy_encode_log"
    by (simp add: proving_client_def toy_client_def Let_def)
  moreover have "hdr_number (linked_header i) = of_nat i" by (simp add: linked_header_def digest_header_def)
  ultimately show ?thesis using encode_block_of [OF proving_client_simps(5)] by (metis linked_block_def)
qed

lemma linked_true_header: "true_header toy_gadgets linked_model i = linked_parent (Suc i)"
  by (simp add: true_header_def block_bytes_def linked_block_bytes linked_header_def)

lemma linked_inj: "inj_on toy_digest (set linked_bytes)"
proof -
  have "distinct (map toy_digest linked_bytes)" by code_simp
  then show ?thesis by (simp only: distinct_map)
qed

lemma linked_messages: "commit_messages (compute_authority_set_hash toy_digest) three_keys \<subseteq> set linked_bytes"
  by (simp add: commit_messages_def three_keys_def linked_bytes_def compute_authority_set_hash_def lessThan_Suc numeral_eq_Suc
      del: linked_parent.simps upt_Suc replicate.simps)

lemma linked_mem: "i \<le> 4 \<Longrightarrow> encode_chain_header i (linked_block i) \<in> set linked_bytes"
  unfolding linked_block_bytes by (simp add: linked_bytes_def del: upt_Suc)

text \<open>The three authorities signed block 4 only.\<close>

lemma linked_finality: "grandpa_finality toy_gadgets linked_model"
  unfolding grandpa_finality_def
proof (intro allI impI)
  fix i :: u64 and b :: u32 and h :: bytes32 and round :: u64
  let ?m = "signed_message \<lparr>target_hash = h, target_number = b\<rparr> round i"
    and ?m4 = "signed_message \<lparr>target_hash = linked_parent 5, target_number = 4\<rparr> 5 0"
  assume "quorum_on linked_model (unat i) ?m"
  then have m: "?m = ?m4" by (rule contrapos_pp) (simp add: quorum_on_def del: linked_parent.simps)
  have "length ?m4 = 53" by (rule length_signed_message) (simp only: target_precommit.simps length_linked_parent)
  then have "length ?m = 53" unfolding m .
  then have len: "length (target_hash \<lparr>target_hash = h, target_number = b\<rparr>) = 32" by (simp add: signed_message_def)
  note seg = signed_message_segments [OF len, of round i, unfolded m]
    signed_message_segments [of "\<lparr>target_hash = linked_parent 5, target_number = 4\<rparr>" 5 0]
  have "h = linked_parent 5" "u32_to_le b = u32_to_le 4" "u64_to_le i = u64_to_le 0"
    using seg length_linked_parent [of 5] by (simp_all del: linked_parent.simps)
  then have "h = linked_parent 5" "b = 4" "i = 0" by (metis, metis u32_le_roundtrip, metis u64_le_roundtrip)
  then show "0 < unat b \<and> unat b \<le> av_head linked_model \<and> unat i = av_ids linked_model (unat b - 1)
      \<and> h = true_header toy_gadgets linked_model (unat b)"
    by (simp add: linked_true_header del: linked_parent.simps)
qed

lemma linked_announcements: "announcements toy_gadgets linked_model"
proof -
  have "\<forall>i\<in>set [0..<5]. 70 \<notin> set (header_layout toy_encode_log (linked_header i))" by code_simp
  then have no: "70 \<notin> set (block_bytes linked_model i)" if "i \<le> 4" for i
    using that by (auto simp: block_bytes_def linked_block_bytes)
  have "\<not> epoch_end_log bs start mode n ks" if "70 \<notin> set bs" for bs start mode n ks
  proof
    assume "epoch_end_log bs start mode n ks"
    then have "70 \<in> set (segment (start + 2) (start + 6) bs)" by (simp add: epoch_end_log_def)
    then show False using that by (auto simp: segment_def dest!: in_set_takeD in_set_dropD)
  qed
  then show ?thesis using no unfolding announcements_def by (simp add: Let_def)
qed

lemma linked_finalised: "finalised_chain toy_gadgets 160 linked_model"
proof -
  have "avail_chain toy_gadgets 160 linked_block 0 4"
    using linked_client(2) [of 4 0] by (simp add: linked_block_def [abs_def])
  moreover have "three_keys \<noteq> []" "\<forall>k\<in>set three_keys. length k = 32" by (simp_all add: three_keys_def)
  ultimately show ?thesis
    using linked_messages linked_mem linked_inj linked_finality linked_announcements
    by (simp add: finalised_chain_def block_bytes_def)
qed

text \<open>The fetcher's padded headers are careful.\<close>

lemma padded_careful: "length bs \<le> S \<Longrightarrow> S < 2 ^ 32 \<Longrightarrow> bs \<in> av_bytes A \<Longrightarrow> careful_header A S (pad_header S bs)"
proof -
  assume len: "length bs \<le> S" "S < 2 ^ 32" and bs: "bs \<in> av_bytes A"
  have "unat (of_nat (length bs) :: u32) = length bs" using len by (intro unat_of_nat_small) simp
  then show ?thesis using len bs by (simp add: careful_header_def pad_header_def wf_header_def hashed_bytes_def)
qed

lemma linked_careful: "careful_gateway toy_gadgets tree_mapreduce 3 160 linked_model linked_gateway linked_contract"
proof -
  have fit: "length (encode_chain_header i (linked_block i)) \<le> 160" if "i \<le> 4" for i
    using finalised_chainD(1) [OF linked_finalised] that by (simp add: avail_chain_def)
  have "[] \<in> set linked_bytes" by (simp add: linked_bytes_def del: upt_Suc)
  then have "careful_header linked_model 160 (hinted_header 160 linked_block 4 i)" for i
    using fit linked_mem by (simp add: hinted_header_def padded_careful)
  then have fetch: "careful_fetch linked_model 160 linked_fetch"
    by (auto simp: careful_fetch_def linked_fetch_def)
  have hint: "careful_justification toy_gadgets linked_model 3 (linked_hint b i)" for b i
  proof -
    have "wf_justification 3 (linked_hint b i)"
      unfolding linked_hint_def
      by (rule toy_justification_wf) (use length_linked_parent [of 5] in \<open>simp_all add: three_keys_def\<close>)
    moreover have "length three_keys = 3" by (simp add: three_keys_def)
    ultimately show ?thesis
      using linked_messages
      by (simp add: careful_justification_def linked_hint_def toy_justification_def authorities_of_def)
  qed
  show ?thesis
    using fetch hint by (auto simp: careful_gateway_def linked_gateway_def linked_contract_def initialize_vx_def)
qed

end
