(* ===== verification/System.thy ===== *)
theory System
  imports Operator_Progress Finalised_Contract
begin

text \<open>
  The whole system as a state machine: a chain that grows, the operator's iterations, the proving service
  that answers requests late, in any order, more than once or never, and other users of the contract. In
  every interleaving the contract holds only the hashes of the chain, and from every state the operator
  can bring it up to date.
\<close>

section \<open>The state machine\<close>

record deployment =
  dp_config :: vectorx_config
  dp_interval :: u32
  dp_max :: u32
  dp_keccak :: "byte list \<Rightarrow> bytes32"
  dp_node :: "nat \<Rightarrow> client"
  dp_prove :: "nat \<Rightarrow> gateway"
  dp_limit :: nat

text \<open>The node and the provable outputs depend on the head of the chain.\<close>

record system =
  sy_head :: nat
  sy_contract :: vectorx
  sy_pending :: "platform_request list"

inductive sys_step :: "deployment \<Rightarrow> system \<Rightarrow> system \<Rightarrow> bool" for D where
  grow: "sy_head x \<le> h \<Longrightarrow> h \<le> dp_limit D \<Longrightarrow> sys_step D x (x\<lparr>sy_head := h\<rparr>)"
| iterate: "run_once (dp_config D) (dp_node D (sy_head x)) (sy_contract x) (dp_interval D) (dp_max D) = Inr qs \<Longrightarrow>
    sys_step D x (x\<lparr>sy_pending := sy_pending x @ qs\<rparr>)"
| answer: "q \<in> set (sy_pending x) \<Longrightarrow>
    sys_step D x (x\<lparr>sy_contract := fulfil (dp_keccak D) (dp_prove D (sy_head x)) (sy_contract x) q\<rparr>)"
| lose: "set qs \<subseteq> set (sy_pending x) \<Longrightarrow> sys_step D x (x\<lparr>sy_pending := qs\<rparr>)"
| others: "vx_step (dp_keccak D) (dp_prove D (sy_head x)) (sy_contract x) evs s \<Longrightarrow>
    sys_step D x (x\<lparr>sy_contract := s\<rparr>)"

inductive_cases sys_stepE: "sys_step D x y"

text \<open>What the operator relies on: the node serves the chain, the gateway answers the truth about it and
  has an answer for every range within an epoch and every rotation, the interval fits, no hash is zero.\<close>

definition honest_deployment :: "deployment \<Rightarrow> chain_view \<Rightarrow> nat \<Rightarrow> bytes32 \<Rightarrow> bytes32 \<Rightarrow> bool" where
  "honest_deployment D V addr header_id rotate_id \<longleftrightarrow>
     0 < dp_interval D \<and> dp_interval D \<le> dp_max D
     \<and> dp_limit D + 256 < 2 ^ 32 \<and> dp_limit D + unat (dp_max D) < 2 ^ 32 \<and> cv_ids V (dp_limit D) + 1 < 2 ^ 64
     \<and> (\<forall>b\<le>dp_limit D. 0 < b \<longrightarrow> cv_header V b \<noteq> zero_hash \<and> length (cv_header V b) = 32)
     \<and> (\<forall>i\<le>cv_ids V (dp_limit D). cv_set V i \<noteq> zero_hash \<and> length (cv_set V i) = 32)
     \<and> (\<forall>h\<le>dp_limit D. id_chain (dp_node D h) h (cv_ids V) \<and> unit_steps h (cv_ids V)
          \<and> true_range (V\<lparr>cv_head := h\<rparr>) (dp_prove D h addr header_id)
          \<and> true_rotation (V\<lparr>cv_head := h\<rparr>) (dp_prove D h addr rotate_id)
          \<and> proves_chain (dp_prove D h) addr header_id rotate_id h (cv_ids V) (unat (dp_max D)) (cv_header V) (cv_set V))"

lemma honestD:
  assumes "honest_deployment D V addr header_id rotate_id"
  shows "0 < dp_interval D" "dp_interval D \<le> dp_max D"
    and "dp_limit D + 256 < 2 ^ 32" "dp_limit D + unat (dp_max D) < 2 ^ 32" "cv_ids V (dp_limit D) + 1 < 2 ^ 64"
    and "b \<le> dp_limit D \<Longrightarrow> 0 < b \<Longrightarrow> cv_header V b \<noteq> zero_hash" "b \<le> dp_limit D \<Longrightarrow> 0 < b \<Longrightarrow> length (cv_header V b) = 32"
    and "i \<le> cv_ids V (dp_limit D) \<Longrightarrow> cv_set V i \<noteq> zero_hash" "i \<le> cv_ids V (dp_limit D) \<Longrightarrow> length (cv_set V i) = 32"
    and "h \<le> dp_limit D \<Longrightarrow> id_chain (dp_node D h) h (cv_ids V)" "h \<le> dp_limit D \<Longrightarrow> unit_steps h (cv_ids V)"
    and "h \<le> dp_limit D \<Longrightarrow> true_range (V\<lparr>cv_head := h\<rparr>) (dp_prove D h addr header_id)"
    and "h \<le> dp_limit D \<Longrightarrow> true_rotation (V\<lparr>cv_head := h\<rparr>) (dp_prove D h addr rotate_id)"
    and "h \<le> dp_limit D \<Longrightarrow> proves_chain (dp_prove D h) addr header_id rotate_id h (cv_ids V) (unat (dp_max D))
      (cv_header V) (cv_set V)"
  using assms unfolding honest_deployment_def by blast+

text \<open>A gateway that takes honestly made proofs of the circuits only answers the truth about each head of a
  chain that GRANDPA finalises.\<close>

lemma careful_gateway_true:
  assumes "gadgets_ok G" and "mapreduce_gadget mapreduce" and "0 < N" and "3 * N < 2 ^ 32" and "S < 2 ^ 32"
    and "finalised_chain G S (A\<lparr>av_head := h\<rparr>)" and "careful_gateway G mapreduce N S (A\<lparr>av_head := h\<rparr>) (dp_prove D h) s"
    and "vx_gateway s = addr" and "vx_header_range_function_id s = header_id" and "vx_rotate_function_id s = rotate_id"
  shows "true_range ((view_of G A)\<lparr>cv_head := h\<rparr>) (dp_prove D h addr header_id)"
    and "true_rotation ((view_of G A)\<lparr>cv_head := h\<rparr>) (dp_prove D h addr rotate_id)"
proof -
  have "view_of G (A\<lparr>av_head := h\<rparr>) = (view_of G A)\<lparr>cv_head := h\<rparr>"
    by (simp add: view_of_def true_header_def true_set_def true_root_def block_bytes_def fun_eq_iff)
  then show "true_range ((view_of G A)\<lparr>cv_head := h\<rparr>) (dp_prove D h addr header_id)"
    and "true_rotation ((view_of G A)\<lparr>cv_head := h\<rparr>) (dp_prove D h addr rotate_id)"
    using careful_range_answers [OF assms(1-7)] careful_rotation_answers [OF assms(1,3-7)] assms(8-10) by simp_all
qed

lemma honest_mono:
  assumes "honest_deployment D V addr header_id rotate_id" and "i \<le> j" and "j \<le> dp_limit D"
  shows "cv_ids V i \<le> cv_ids V j"
  using honestD(10) [OF assms(1,3)] assms(2) by (simp add: id_chain_def)

section \<open>The invariant\<close>

text \<open>The contract holds hashes of the chain only, that of its head and that of a set at the head among them.\<close>

definition sys_ok :: "deployment \<Rightarrow> chain_view \<Rightarrow> nat \<Rightarrow> bytes32 \<Rightarrow> bytes32 \<Rightarrow> system \<Rightarrow> bool" where
  "sys_ok D V addr header_id rotate_id x \<longleftrightarrow> (let s = sy_contract x; b = vx_latest_block s in
     sy_head x \<le> dp_limit D \<and> wf_storage s \<and> vx_gateway s = addr \<and> vx_header_range_function_id s = header_id
     \<and> vx_rotate_function_id s = rotate_id
     \<and> tracks (V\<lparr>cv_head := sy_head x\<rparr>) (vx_header_hash s) (vx_set_hash s)
     \<and> 0 < unat b \<and> vx_header_hash s b \<noteq> zero_hash
     \<and> (\<exists>n\<in>{unat b - 1, unat b}. vx_set_hash s (of_nat (cv_ids V n)) \<noteq> zero_hash))"

text \<open>A step of the contract keeps it.\<close>

lemma vx_step_ok:
  assumes honest: "honest_deployment D V addr header_id rotate_id" and ok: "sys_ok D V addr header_id rotate_id x"
    and step: "vx_step keccak (dp_prove D (sy_head x)) (sy_contract x) evs s'"
  shows "sys_ok D V addr header_id rotate_id (x\<lparr>sy_contract := s'\<rparr>)"
proof -
  let ?s = "sy_contract x" and ?V = "V\<lparr>cv_head := sy_head x\<rparr>" and ?gw = "dp_prove D (sy_head x)"
  have x: "sy_head x \<le> dp_limit D" "wf_storage ?s" "vx_gateway ?s = addr" "vx_header_range_function_id ?s = header_id"
    "vx_rotate_function_id ?s = rotate_id" "tracks ?V (vx_header_hash ?s) (vx_set_hash ?s)"
    "0 < unat (vx_latest_block ?s)" "vx_header_hash ?s (vx_latest_block ?s) \<noteq> zero_hash"
    "\<exists>n\<in>{unat (vx_latest_block ?s) - 1, unat (vx_latest_block ?s)}. vx_set_hash ?s (of_nat (cv_ids V n)) \<noteq> zero_hash"
    using ok by (simp_all add: sys_ok_def Let_def)
  have asks: "true_range ?V (vx_ask_range ?gw ?s)" "true_rotation ?V (vx_ask_rotation ?gw ?s)"
    using honestD(12,13) [OF honest x(1)] by (simp_all add: x)
  have len: "length (vx_header_hash ?s (vx_latest_block ?s)) = 32" using x(2) by (simp add: wf_storage_def)
  have small: "unat (vx_latest_block ?s) + 256 < 2 ^ 32"
    using tracksD(1) [OF x(6,8)] x(1) honestD(3) [OF honest] by simp
  have kept: "wf_storage s'" "vx_gateway s' = addr" "vx_header_range_function_id s' = header_id"
    "vx_rotate_function_id s' = rotate_id"
    using wf_storage_step [OF step x(2)] gateway_step [OF step] x by simp_all
  from step have "tracks ?V (vx_header_hash s') (vx_set_hash s') \<and> 0 < unat (vx_latest_block s')
      \<and> vx_header_hash s' (vx_latest_block s') \<noteq> zero_hash
      \<and> (\<exists>n\<in>{unat (vx_latest_block s') - 1, unat (vx_latest_block s')}. vx_set_hash s' (of_nat (cv_ids V n)) \<noteq> zero_hash)"
  proof (cases rule: vx_step.cases)
    case (commit i b)
    obtain h d r where "evs = [HeadUpdate b h, HeaderRangeCommitmentStored (vx_latest_block ?s) b d r]"
      using commit by (auto simp: commit_header_range_Inr Let_def)
    then have c: "\<exists>h. commit_header_range keccak ?gw i b ?s
        = Inr (s', [HeadUpdate b h, HeaderRangeCommitmentStored (vx_latest_block ?s) b d r])" using commit by blast
    note true = vx_store.commit_true [OF c x(6) asks(1) small len]
      and law = vx_store.commit_law [OF c]
    have b: "0 < unat b" "unat b \<le> dp_limit D" using law true x(1) by (auto simp: word_less_nat_alt)
    have "cv_ids V (unat b - 1) = unat i" using true by simp
    then have "(of_nat (cv_ids V (unat b - 1)) :: u64) = i" by simp
    then show ?thesis
      using vx_store.commit_tracks [OF c x(6) asks(1) small len] true law b honestD(6) [OF honest b(2,1)] by simp
  next
    case (rotate i)
    then have r: "\<exists>evs. rotate_set ?gw i ?s = Inr (s', evs)" by blast
    note true = vx_store.rotate_true [OF r x(6) asks(2)] and law = vx_store.rotate_law [OF r]
    have "cv_ids V (sy_head x) \<le> cv_ids V (dp_limit D)" by (rule honest_mono [OF honest x(1)]) simp
    then have "cv_set V (unat i + 1) \<noteq> zero_hash" using true honestD(8) [OF honest] by simp
    then show ?thesis
      using vx_store.rotate_tracks [OF r x(6) asks(2)] true law x by simp
  next
    case (freeze f)
    then show ?thesis using x by (auto simp: update_freeze_def)
  qed
  then show ?thesis using kept x(1) by (simp add: sys_ok_def Let_def)
qed

lemma sys_step_ok:
  assumes honest: "honest_deployment D V addr header_id rotate_id" and ok: "sys_ok D V addr header_id rotate_id x"
    and step: "sys_step D x y"
  shows "sys_ok D V addr header_id rotate_id y"
  using step
proof (cases rule: sys_step.cases)
  case (grow h)
  have "cv_ids V (sy_head x) \<le> cv_ids V h" by (rule honest_mono [OF honest grow(2,3)])
  then show ?thesis
    using ok grow tracks_grow [of "V\<lparr>cv_head := sy_head x\<rparr>" _ _ h] by (simp add: sys_ok_def Let_def)
next
  case (answer q)
  then show ?thesis
    using ok fulfil_step [of "dp_keccak D" "dp_prove D (sy_head x)" "sy_contract x" q] vx_step_ok [OF honest ok]
    by auto
next
  case (others evs s)
  then show ?thesis using vx_step_ok [OF honest ok] by blast
qed (use ok in \<open>simp_all add: sys_ok_def\<close>)

lemma sys_steps_ok:
  assumes "honest_deployment D V addr header_id rotate_id" and "(sys_step D)\<^sup>*\<^sup>* x y"
    and "sys_ok D V addr header_id rotate_id x"
  shows "sys_ok D V addr header_id rotate_id y"
  using assms(2,3) by (induction rule: rtranclp_induct) (auto intro: sys_step_ok [OF assms(1)])

lemma sys_ok_follows:
  assumes honest: "honest_deployment D V addr header_id rotate_id" and ok: "sys_ok D V addr header_id rotate_id x"
  shows "unat (vx_latest_block (sy_contract x)) \<le> sy_head x"
    and "\<not> vx_frozen (sy_contract x) \<Longrightarrow>
      follows_chain addr header_id rotate_id (sy_head x) (cv_ids V) (cv_header V) (cv_set V) (sy_contract x)"
proof -
  let ?s = "sy_contract x" and ?a = "unat (vx_latest_block (sy_contract x))"
  have x: "sy_head x \<le> dp_limit D" "vx_gateway ?s = addr" "vx_header_range_function_id ?s = header_id"
    "vx_rotate_function_id ?s = rotate_id" "0 < ?a" "vx_header_hash ?s (vx_latest_block ?s) \<noteq> zero_hash"
    "\<exists>n\<in>{?a - 1, ?a}. vx_set_hash ?s (of_nat (cv_ids V n)) \<noteq> zero_hash"
    and tracks: "tracks (V\<lparr>cv_head := sy_head x\<rparr>) (vx_header_hash ?s) (vx_set_hash ?s)"
    using ok by (simp_all add: sys_ok_def Let_def)
  note t = tracksD [OF tracks, simplified]
  show a: "?a \<le> sy_head x" by (rule t(1) [OF x(6)])
  have small: "unat (of_nat i :: u64) = i" if "i \<le> cv_ids V (sy_head x)" for i
    using that honest_mono [OF honest x(1) order_refl] honestD(5) [OF honest] by (intro unat_of_nat_small) simp
  have known: "vx_set_hash ?s (of_nat i) \<noteq> zero_hash \<Longrightarrow> vx_set_hash ?s (of_nat i) = cv_set V i"
    if "i \<le> cv_ids V (sy_head x)" for i
    using t(4) [of "of_nat i"] small [OF that] by simp
  have "cv_ids V n \<le> cv_ids V (sy_head x)" if "n \<in> {?a - 1, ?a}" for n
    using honest_mono [OF honest _ x(1), of n] a that by auto
  then have "\<exists>n\<in>{?a - 1, ?a}. vx_set_hash ?s (of_nat (cv_ids V n)) = cv_set V (cv_ids V n)" using x(7) known by blast
  then show "follows_chain addr header_id rotate_id (sy_head x) (cv_ids V) (cv_header V) (cv_set V) ?s" if "\<not> vx_frozen ?s"
    using that x a t(2) [OF x(6)] known by (auto simp: follows_chain_def)
qed

text \<open>What it says of the hashes.\<close>

lemma sys_ok_safe:
  assumes "sys_ok D V addr header_id rotate_id x" and "s = sy_contract x"
  shows "unat (vx_latest_block s) \<le> sy_head x
    \<and> vx_header_hash s (vx_latest_block s) = cv_header V (unat (vx_latest_block s))
    \<and> (\<exists>n\<in>{unat (vx_latest_block s) - 1, unat (vx_latest_block s)}. vx_set_hash s (of_nat (cv_ids V n)) \<noteq> zero_hash)
    \<and> (\<forall>b. vx_header_hash s b \<noteq> zero_hash \<longrightarrow> unat b \<le> sy_head x \<and> vx_header_hash s b = cv_header V (unat b))
    \<and> (\<forall>i. vx_set_hash s i \<noteq> zero_hash \<longrightarrow> unat i \<le> cv_ids V (sy_head x) \<and> vx_set_hash s i = cv_set V (unat i))"
proof -
  have "tracks (V\<lparr>cv_head := sy_head x\<rparr>) (vx_header_hash s) (vx_set_hash s)"
    and "vx_header_hash s (vx_latest_block s) \<noteq> zero_hash"
    and "\<exists>n\<in>{unat (vx_latest_block s) - 1, unat (vx_latest_block s)}. vx_set_hash s (of_nat (cv_ids V n)) \<noteq> zero_hash"
    using assms by (simp_all add: sys_ok_def Let_def)
  then show ?thesis by (simp add: tracks_def)
qed

section \<open>Recovery\<close>

abbreviation sys_round :: "deployment \<Rightarrow> nat \<Rightarrow> vectorx \<Rightarrow> vectorx" where
  "sys_round D h \<equiv> operator_round (dp_keccak D) (dp_prove D h) (dp_config D) (dp_node D h) (dp_interval D) (dp_max D)"

text \<open>The steps of the operator, of the service that answers its requests and of a guardian who lifts a
  freeze, with nobody else's help.\<close>

inductive serve_step :: "deployment \<Rightarrow> system \<Rightarrow> system \<Rightarrow> bool" for D where
  iterate: "run_once (dp_config D) (dp_node D (sy_head x)) (sy_contract x) (dp_interval D) (dp_max D) = Inr qs \<Longrightarrow>
    serve_step D x (x\<lparr>sy_pending := sy_pending x @ qs\<rparr>)"
| answer: "q \<in> set (sy_pending x) \<Longrightarrow>
    serve_step D x (x\<lparr>sy_contract := fulfil (dp_keccak D) (dp_prove D (sy_head x)) (sy_contract x) q\<rparr>)"
| unfreeze: "update_freeze True False (sy_contract x) = Inr s \<Longrightarrow> serve_step D x (x\<lparr>sy_contract := s\<rparr>)"

lemma serve_sys_step: "serve_step D x y \<Longrightarrow> sys_step D x y"
proof (induction rule: serve_step.induct)
  case (unfreeze x s)
  have "vx_step (dp_keccak D) (dp_prove D (sy_head x)) (sy_contract x) [] s" by (rule vx_step.freeze [OF unfreeze])
  then show ?case by (rule sys_step.others)
qed (auto intro: sys_step.iterate sys_step.answer)

lemma serve_sys_steps: "(serve_step D)\<^sup>*\<^sup>* x y \<Longrightarrow> (sys_step D)\<^sup>*\<^sup>* x y"
  by (induction rule: rtranclp_induct) (auto dest: serve_sys_step intro: rtranclp.rtrancl_into_rtrancl)

text \<open>A round of the operator is a sequence of steps: an iteration, then the answer to each request.\<close>

lemma answers_reachable:
  assumes "set qs \<subseteq> set (sy_pending x)"
  shows "(serve_step D)\<^sup>*\<^sup>* x
    (x\<lparr>sy_contract := foldl (fulfil (dp_keccak D) (dp_prove D (sy_head x))) (sy_contract x) qs\<rparr>)"
  using assms
proof (induction qs arbitrary: x)
  case (Cons q qs)
  let ?y = "x\<lparr>sy_contract := fulfil (dp_keccak D) (dp_prove D (sy_head x)) (sy_contract x) q\<rparr>"
  have "serve_step D x ?y" using Cons.prems by (intro serve_step.answer) simp
  moreover have "(serve_step D)\<^sup>*\<^sup>* ?y (?y\<lparr>sy_contract := foldl (fulfil (dp_keccak D) (dp_prove D (sy_head ?y))) (sy_contract ?y) qs\<rparr>)"
    by (rule Cons.IH) (use Cons.prems in simp)
  ultimately show ?case by (simp add: converse_rtranclp_into_rtranclp)
qed simp

lemma round_reachable: "\<exists>qs. (serve_step D)\<^sup>*\<^sup>* x (x\<lparr>sy_pending := qs, sy_contract := sys_round D (sy_head x) (sy_contract x)\<rparr>)"
proof (cases "run_once (dp_config D) (dp_node D (sy_head x)) (sy_contract x) (dp_interval D) (dp_max D)")
  case (Inl e)
  then show ?thesis by (intro exI [of _ "sy_pending x"]) (simp add: operator_round_def)
next
  case (Inr qs)
  let ?y = "x\<lparr>sy_pending := sy_pending x @ qs\<rparr>"
  have "(serve_step D)\<^sup>*\<^sup>* ?y (?y\<lparr>sy_contract := foldl (fulfil (dp_keccak D) (dp_prove D (sy_head ?y))) (sy_contract ?y) qs\<rparr>)"
    by (rule answers_reachable) simp
  then have "(serve_step D)\<^sup>*\<^sup>* x (x\<lparr>sy_pending := sy_pending x @ qs, sy_contract := sys_round D (sy_head x) (sy_contract x)\<rparr>)"
    using serve_step.iterate [where D = D, OF Inr] by (simp add: operator_round_def Inr converse_rtranclp_into_rtranclp)
  then show ?thesis by blast
qed

lemma rounds_reachable:
  "\<exists>qs. (serve_step D)\<^sup>*\<^sup>* x (x\<lparr>sy_pending := qs, sy_contract := (sys_round D (sy_head x) ^^ k) (sy_contract x)\<rparr>)"
proof (induction k)
  case 0
  have "x\<lparr>sy_pending := sy_pending x, sy_contract := sy_contract x\<rparr> = x" by simp
  then show ?case by (metis funpow_0 rtranclp.rtrancl_refl)
next
  case (Suc k)
  then obtain qs where "(serve_step D)\<^sup>*\<^sup>* x (x\<lparr>sy_pending := qs, sy_contract := (sys_round D (sy_head x) ^^ k) (sy_contract x)\<rparr>)"
    by blast
  moreover define y where "y = x\<lparr>sy_pending := qs, sy_contract := (sys_round D (sy_head x) ^^ k) (sy_contract x)\<rparr>"
  moreover obtain qs' where "(serve_step D)\<^sup>*\<^sup>* y (y\<lparr>sy_pending := qs', sy_contract := sys_round D (sy_head y) (sy_contract y)\<rparr>)"
    using round_reachable by blast
  ultimately have "(serve_step D)\<^sup>*\<^sup>* x (x\<lparr>sy_pending := qs', sy_contract := (sys_round D (sy_head x) ^^ Suc k) (sy_contract x)\<rparr>)"
    by simp
  then show ?case by blast
qed

lemma unfrozen_rounds_reachable:
  "\<exists>qs. (serve_step D)\<^sup>*\<^sup>* x (x\<lparr>sy_pending := qs,
     sy_contract := (sys_round D (sy_head x) ^^ k) ((sy_contract x)\<lparr>vx_frozen := False\<rparr>)\<rparr>)"
proof -
  let ?z = "x\<lparr>sy_contract := (sy_contract x)\<lparr>vx_frozen := False\<rparr>\<rparr>"
  have "serve_step D x ?z" by (rule serve_step.unfreeze) (simp add: update_freeze_def)
  moreover obtain qs where "(serve_step D)\<^sup>*\<^sup>* ?z (?z\<lparr>sy_pending := qs, sy_contract := (sys_round D (sy_head x) ^^ k) (sy_contract ?z)\<rparr>)"
    using rounds_reachable [of D ?z k] by auto
  ultimately show ?thesis by (intro exI [of _ qs]) (simp add: converse_rtranclp_into_rtranclp)
qed

text \<open>Two rounds for each block that is missing, and one, are enough.\<close>

lemma rounds_recover:
  assumes honest: "honest_deployment D V addr header_id rotate_id" and ok: "sys_ok D V addr header_id rotate_id x"
    and n: "2 * (sy_head x - unat (vx_latest_block (sy_contract x))) + 1 \<le> n"
  shows "sy_head x - sy_head x mod unat (dp_interval D)
    \<le> unat (vx_latest_block ((sys_round D (sy_head x) ^^ n) ((sy_contract x)\<lparr>vx_frozen := False\<rparr>)))"
proof -
  define z where "z = x\<lparr>sy_contract := (sy_contract x)\<lparr>vx_frozen := False\<rparr>\<rparr>"
  have "sys_step D x z"
    unfolding z_def by (rule sys_step.others [OF vx_step.freeze [of False]]) (simp add: update_freeze_def)
  then have zok: "sys_ok D V addr header_id rotate_id z" by (rule sys_step_ok [OF honest ok])
  have h: "sy_head z = sy_head x" "sy_head x \<le> dp_limit D" using ok by (simp_all add: z_def sys_ok_def Let_def)
  have "\<not> vx_frozen (sy_contract z)" by (simp add: z_def)
  note follows = sys_ok_follows(2) [OF honest zok this, unfolded h(1)]
  have top: "cv_ids V (sy_head x) + 1 < 2 ^ 64" "sy_head x + unat (dp_max D) < 2 ^ 32"
    using honest_mono [OF honest h(2) order_refl] honestD(4,5) [OF honest] h(2) by linarith+
  have nonzero: "\<forall>b\<le> sy_head x. 0 < b \<longrightarrow> cv_header V b \<noteq> zero_hash" "\<forall>i\<le>cv_ids V (sy_head x). cv_set V i \<noteq> zero_hash"
    using honestD(6,8) [OF honest] honest_mono [OF honest h(2) order_refl] h(2) by (meson order_trans)+
  obtain k s' where k: "k \<le> rounds_left (sy_head x) (cv_ids V) (sy_contract z)"
    and s': "s' = (sys_round D (sy_head x) ^^ k) (sy_contract z)"
    "follows_chain addr header_id rotate_id (sy_head x) (cv_ids V) (cv_header V) (cv_set V) s'"
    "block_to_request (sy_head x) (unat (vx_latest_block s')) (unat (dp_interval D)) (unat (dp_max D)) \<le> unat (vx_latest_block s')"
    using rounds_catch_up [OF honestD(10,11) [OF honest h(2)] top(1) honestD(1) [OF honest] top(2)
        honestD(14) [OF honest h(2)] nonzero follows] by blast
  have "sy_head x - sy_head x mod unat (dp_interval D) \<le> unat (vx_latest_block s')"
    using block_to_request_done [OF s'(3)] s'(2) honestD(1,2) [OF honest]
    by (simp add: follows_chain_def word_le_nat_alt word_less_nat_alt)
  moreover have "k \<le> n" using k n by (simp add: rounds_left_def z_def split: if_splits)
  then have "vx_latest_block s' \<le> vx_latest_block ((sys_round D (sy_head x) ^^ n) (sy_contract z))"
    unfolding s'(1) by (rule rounds_latest)
  ultimately show ?thesis by (simp add: z_def word_le_nat_alt)
qed

lemma recovers:
  assumes "honest_deployment D V addr header_id rotate_id" and "sys_ok D V addr header_id rotate_id x"
  shows "\<exists>y. (sys_step D)\<^sup>*\<^sup>* x y \<and> sy_head y = sy_head x
    \<and> sy_head x - sy_head x mod unat (dp_interval D) \<le> unat (vx_latest_block (sy_contract y))"
proof -
  define k where "k = 2 * (sy_head x - unat (vx_latest_block (sy_contract x))) + 1"
  define y where "y = (sys_round D (sy_head x) ^^ k) ((sy_contract x)\<lparr>vx_frozen := False\<rparr>)"
  obtain qs where "(serve_step D)\<^sup>*\<^sup>* x (x\<lparr>sy_pending := qs, sy_contract := y\<rparr>)"
    unfolding y_def using unfrozen_rounds_reachable by blast
  moreover have "sy_head x - sy_head x mod unat (dp_interval D) \<le> unat (vx_latest_block y)"
    unfolding y_def by (rule rounds_recover [OF assms]) (simp add: k_def)
  ultimately show ?thesis by (intro exI [of _ "x\<lparr>sy_pending := qs, sy_contract := y\<rparr>"]) (simp add: serve_sys_steps)
qed

text \<open>A system just deployed with the true hashes of a block and of the set of the block's id, which is what
  the genesis script prints.\<close>

definition deployed :: "chain_view \<Rightarrow> nat \<Rightarrow> bytes32 \<Rightarrow> bytes32 \<Rightarrow> u32 \<Rightarrow> nat \<Rightarrow> system" where
  "deployed V addr header_id rotate_id height h = (let i = cv_ids V (unat height) in
     \<lparr>sy_head = h, sy_contract = initialize_vx addr height (cv_header V (unat height)) (of_nat i) (cv_set V i)
        header_id rotate_id, sy_pending = []\<rparr>)"

lemma deployed_ok:
  assumes honest: "honest_deployment D V addr header_id rotate_id"
    and height: "0 < unat height" "unat height \<le> h" "h \<le> dp_limit D"
  shows "sys_ok D V addr header_id rotate_id (deployed V addr header_id rotate_id height h)"
proof -
  let ?i = "cv_ids V (unat height)"
  have i: "?i \<le> cv_ids V h" "cv_ids V h \<le> cv_ids V (dp_limit D)"
    using honest_mono [OF honest _ height(3)] honest_mono [OF honest height(3) order_refl] height(2) by simp_all
  then have "unat (of_nat ?i :: u64) = ?i" using honestD(5) [OF honest] by (intro unat_of_nat_small) simp
  moreover have "cv_header V (unat height) \<noteq> zero_hash" "length (cv_header V (unat height)) = 32"
    "cv_set V ?i \<noteq> zero_hash" "length (cv_set V ?i) = 32"
    using honestD(6-9) [OF honest] height i by auto
  moreover have "length zero_hash = 32" by (simp add: zero_hash_def)
  ultimately show ?thesis
    using height i by (auto simp: sys_ok_def deployed_def initialize_vx_def wf_storage_def tracks_def Let_def)
qed

section \<open>An example\<close>

text \<open>The chain of three epochs, growing up to block 20, and a prover that knows it.\<close>

definition example_view :: chain_view where
  "example_view = \<lparr>cv_head = 0, cv_ids = example_ids, cv_header = header_hash_of, cv_set = set_hash_of,
     cv_state_root = (\<lambda>a b. replicate 32 5), cv_data_root = (\<lambda>a b. replicate 32 6)\<rparr>"

definition honest_prover :: "nat \<Rightarrow> gateway" where
  "honest_prover h addr fid input = (if fid = replicate 32 3
     then let a = unat (u32_from_be (segment 0 4 input)); i = unat (u64_from_be (segment 36 44 input));
              b = unat (u32_from_be (segment 76 80 input))
       in if a < b \<and> b \<le> h \<and> i = example_ids (b - 1)
           \<and> input = header_range_input (of_nat a) (header_hash_of a) (of_nat i) (set_hash_of i) (of_nat b)
         then Some (header_hash_of b @ replicate 32 5 @ replicate 32 6) else None
     else let i = unat (u64_from_be (take 8 input))
       in if i < example_ids h \<and> input = rotate_input (of_nat i) (set_hash_of i) then Some (set_hash_of (i + 1)) else None)"

definition example_deployment :: deployment where
  "example_deployment = \<lparr>dp_config = \<lparr>cfg_address = 7, cfg_chain_id = 1\<rparr>, dp_interval = 5, dp_max = 8,
     dp_keccak = toy_digest, dp_node = (\<lambda>h. toy_client numbered_header h example_ids (\<lambda>i. []) (\<lambda>m. m)),
     dp_prove = honest_prover, dp_limit = 20\<rparr>"

lemma honest_prover_range:
  assumes "length p = 32"
  shows "honest_prover h addr (replicate 32 3) (header_range_input a p i (set_hash_of (unat i)) b) = Some out \<longleftrightarrow>
    unat a < unat b \<and> unat b \<le> h \<and> unat i = example_ids (unat b - 1) \<and> p = header_hash_of (unat a)
    \<and> out = header_hash_of (unat b) @ replicate 32 5 @ replicate 32 6"
proof -
  let ?input = "header_range_input a p i (set_hash_of (unat i)) b"
  have "segment 0 4 ?input = u32_to_be a" "segment 36 44 ?input = u64_to_be i" "segment 76 80 ?input = u32_to_be b"
    using assms by (simp_all add: header_range_input_def segment_def)
  moreover have "?input = header_range_input a (header_hash_of (unat a)) i (set_hash_of (unat i)) b \<longleftrightarrow> p = header_hash_of (unat a)"
    using assms by (simp add: header_range_input_def)
  ultimately show ?thesis by (auto simp: honest_prover_def Let_def)
qed

lemma honest_prover_rotation:
  "honest_prover h addr (replicate 32 4) (rotate_input i (set_hash_of (unat i))) = Some out \<longleftrightarrow>
    unat i < example_ids h \<and> out = set_hash_of (unat i + 1)"
proof -
  have "take 8 (rotate_input i (set_hash_of (unat i))) = u64_to_be i" by (simp add: rotate_input_def)
  moreover have "replicate 32 (4 :: byte) \<noteq> replicate 32 3" by simp
  ultimately show ?thesis by (auto simp: honest_prover_def Let_def)
qed

lemma example_honest: "honest_deployment example_deployment example_view 0 (replicate 32 3) (replicate 32 4)"
proof -
  let ?V = example_view
  have V: "cv_ids ?V = example_ids" "cv_header ?V = header_hash_of" "cv_set ?V = set_hash_of"
    "cv_state_root ?V a b = replicate 32 5" "cv_data_root ?V a b = replicate 32 6" for a b
    by (simp_all add: example_view_def)
  have ids: "example_ids i \<le> 2" "i \<le> j \<Longrightarrow> example_ids i \<le> example_ids j" for i j by (simp_all add: example_ids_def)
  have node: "id_chain (dp_node example_deployment h) h example_ids" "unit_steps h example_ids" if "h \<le> 20" for h
  proof -
    let ?c = "toy_client numbered_header h example_ids (\<lambda>i. []) (\<lambda>m. m)"
    have con: "connected ?c" by (auto simp: connected_iff toy_client_def Let_def intro: exI [of _ 2])
    then have "\<exists>x. get_head ?c = Inr x \<and> unat (hdr_number x) = h"
      using that by (simp add: get_head_def) (simp add: toy_client_def Let_def numbered_header_def unat_of_nat_small)
    moreover have "get_authority_set_id ?c (of_nat i) = Inr (of_nat (example_ids i))" if "i \<le> h" for i
      by (rule toy_client_simps) (use that \<open>h \<le> 20\<close> in simp)
    ultimately show "id_chain (dp_node example_deployment h) h example_ids"
      using con that by (auto simp: id_chain_def example_ids_def example_deployment_def)
    show "unit_steps h example_ids" by (simp add: unit_steps_def example_ids_def)
  qed
  have small: "unat (of_nat n :: u32) = n" if "n \<le> 20" for n using that by (intro unat_of_nat_small) simp
  have small64: "unat (of_nat (example_ids n) :: u64) = example_ids n" for n
    using ids(1) [of n] by (intro unat_of_nat_small) simp
  have range: "true_range (?V\<lparr>cv_head := h\<rparr>) (honest_prover h 0 (replicate 32 3))" for h
    unfolding true_range_def by (auto simp: V honest_prover_range segment_def)
  have rotation: "true_rotation (?V\<lparr>cv_head := h\<rparr>) (honest_prover h 0 (replicate 32 4))" for h
    unfolding true_rotation_def by (auto simp: V honest_prover_rotation segment_def)
  have proves: "proves_chain (honest_prover h) 0 (replicate 32 3) (replicate 32 4) h example_ids 8 header_hash_of set_hash_of"
    if h: "h \<le> 20" for h
    unfolding proves_chain_def
  proof (intro conjI allI impI)
    fix a t assume at: "0 < a \<and> a < t \<and> t \<le> h \<and> t \<le> a + 8 \<and> (\<forall>b. a < b \<and> b \<le> t \<longrightarrow> example_ids (b - 1) = example_ids a)"
    then have "unat (of_nat a :: u32) = a" "unat (of_nat t :: u32) = t" "example_ids (t - 1) = example_ids a"
      using small h by auto
    then show "\<exists>out. honest_prover h 0 (replicate 32 3) (header_range_input (of_nat a) (header_hash_of a)
        (of_nat (example_ids a)) (set_hash_of (example_ids a)) (of_nat t)) = Some out
      \<and> 96 \<le> length out \<and> segment 0 32 out = header_hash_of t"
      using honest_prover_range [of "header_hash_of a" h 0 "of_nat a" "of_nat (example_ids a)" "of_nat t"] at
      by (simp add: small64 segment_def)
  next
    fix i assume i: "i < example_ids h"
    then have "unat (of_nat i :: u64) = i" using ids(1) [of h] by (intro unat_of_nat_small) simp
    then show "\<exists>out. honest_prover h 0 (replicate 32 4) (rotate_input (of_nat i) (set_hash_of i)) = Some out
      \<and> 32 \<le> length out \<and> segment 0 32 out = set_hash_of (i + 1)"
      using honest_prover_rotation [of h 0 "of_nat i"] i by (simp add: segment_def)
  qed
  have dep: "dp_interval example_deployment = 5" "dp_max example_deployment = 8" "dp_limit example_deployment = 20"
    "dp_prove example_deployment = honest_prover" by (simp_all add: example_deployment_def)
  show ?thesis
    using node range rotation proves hash_of_nonzero ids(1) [of 20] by (simp add: honest_deployment_def dep V)
qed

section \<open>Properties\<close>

text \<open>C4. Safety of the whole system in every interleaving: whatever the order in which the chain grows,
  the operator iterates, the prover answers its requests (late, twice or never) and others use the contract,
  the contract's head is a block of the chain with its true hash and a known set, and every hash that it
  holds is the chain's. The deployment is honest: the node serves the chain and the gateway has answers
  that are true of the chain only, which Finalised_Contract proves of a gateway behind the circuits.\<close>

theorem system_safe:
  assumes "honest_deployment D V addr header_id rotate_id"
    and "0 < unat height" and "unat height \<le> h" and "h \<le> dp_limit D"
    and "(sys_step D)\<^sup>*\<^sup>* (deployed V addr header_id rotate_id height h) x" and "s = sy_contract x"
  shows "unat (vx_latest_block s) \<le> sy_head x
    \<and> vx_header_hash s (vx_latest_block s) = cv_header V (unat (vx_latest_block s))
    \<and> (\<exists>n\<in>{unat (vx_latest_block s) - 1, unat (vx_latest_block s)}. vx_set_hash s (of_nat (cv_ids V n)) \<noteq> zero_hash)
    \<and> (\<forall>b. vx_header_hash s b \<noteq> zero_hash \<longrightarrow> unat b \<le> sy_head x \<and> vx_header_hash s b = cv_header V (unat b))
    \<and> (\<forall>i. vx_set_hash s i \<noteq> zero_hash \<longrightarrow> unat i \<le> cv_ids V (sy_head x) \<and> vx_set_hash s i = cv_set V (unat i))"
  using sys_ok_safe [OF sys_steps_ok [OF assms(1,5) deployed_ok [OF assms(1-4)]] assms(6)] .

theorem system_safe_witness:
  "\<exists>x. (sys_step example_deployment)\<^sup>*\<^sup>* (deployed example_view 0 (replicate 32 3) (replicate 32 4) 2 10) x
    \<and> vx_latest_block (sy_contract x) = 10 \<and> vx_header_hash (sy_contract x) 10 = header_hash_of 10"
proof -
  let ?x = "deployed example_view 0 (replicate 32 3) (replicate 32 4) 2 10"
  have limit: "10 \<le> dp_limit example_deployment" "dp_interval example_deployment = 5" "sy_head ?x = 10"
    "cv_header example_view = header_hash_of"
    by (simp_all add: example_deployment_def deployed_def Let_def example_view_def)
  have "sys_ok example_deployment example_view 0 (replicate 32 3) (replicate 32 4) ?x"
    by (rule deployed_ok [OF example_honest]) (use limit in simp_all)
  from recovers [OF example_honest this] obtain y where y: "(sys_step example_deployment)\<^sup>*\<^sup>* ?x y"
    "sy_head y = 10" "10 \<le> unat (vx_latest_block (sy_contract y))" using limit by auto
  have safe: "unat (vx_latest_block (sy_contract y)) \<le> sy_head y
    \<and> vx_header_hash (sy_contract y) (vx_latest_block (sy_contract y)) = header_hash_of (unat (vx_latest_block (sy_contract y)))"
    using system_safe [OF example_honest _ _ limit(1) y(1) refl] limit(4) by simp
  then have "unat (vx_latest_block (sy_contract y)) = 10" using y(2,3) by simp
  moreover from this have "vx_latest_block (sy_contract y) = 10" by (simp add: word_unat_eq_iff)
  ultimately show ?thesis using safe y(1) by auto
qed



text \<open>C11. An answer to a header range request is taken at most once: after the range has been committed,
  whatever is called in between and whatever the gateways hold, every replay of the answer reverts, as long
  as the guardian does not set the head by hand, with \<open>updateGenesisState\<close> or \<open>updateBlockRangeData\<close>.\<close>

theorem stale_answer_ignored:
  assumes "pr_call q = CommitHeaderRange i t" and "fulfil keccak gw s q \<noteq> s"
    and "vx_ops keccak (fulfil keccak gw s q) ops evs s'"
    and "Update_genesis_state \<notin> set ops" and "Update_block_range_data \<notin> set ops"
  shows "fulfil keccak gw' s' q = s'"
proof -
  obtain evs' where commit: "commit_header_range keccak gw i t s = Inr (fulfil keccak gw s q, evs')"
    and asked: "pr_input q = header_range_input (vx_latest_block s) (vx_header_hash s (vx_latest_block s)) i (vx_set_hash s i) t"
    using assms(1,2) by (cases rule: fulfil_cases [of keccak gw s q]) auto
  then have "vx_latest_block s < t" "vx_latest_block (fulfil keccak gw s q) = t"
    by (auto simp: commit_header_range_Inr Let_def)
  then have less: "vx_latest_block s < vx_latest_block s'" using vx_ops_latest [OF assms(3-5)] by simp
  have "pr_input q \<noteq> header_range_input (vx_latest_block s') p j k b" for p j k b
  proof
    assume "pr_input q = header_range_input (vx_latest_block s') p j k b"
    then have "u32_to_be (vx_latest_block s) = u32_to_be (vx_latest_block s')"
      unfolding asked by (simp add: header_range_input_def)
    then show False using less by (metis be_roundtrip(1) less_irrefl)
  qed
  then show ?thesis using assms(1) by (cases rule: fulfil_cases [of keccak gw' s' q]) auto
qed

theorem stale_answer_ignored_witness:
  "\<exists>q s'. pr_call q = CommitHeaderRange 0 4 \<and> fulfil toy_digest (honest_prover 10) following_contract q = s'
    \<and> vx_latest_block s' = 4 \<and> fulfil toy_digest (honest_prover 20) (s'\<lparr>vx_frozen := False\<rparr>) q = s'\<lparr>vx_frozen := False\<rparr>"
proof -
  define q where "q = request_header_range \<lparr>cfg_address = 7, cfg_chain_id = 1\<rparr> following_contract 2 0 4 (replicate 32 3)"
  define s' where "s' = fulfil toy_digest (honest_prover 10) following_contract q"
  let ?s = following_contract
  have s: "vx_latest_block ?s = 2" "vx_header_hash ?s 2 = header_hash_of 2" "vx_set_hash ?s 0 = set_hash_of 0"
    "vx_header_range_function_id ?s = replicate 32 3" "vx_gateway ?s = 0" "\<not> vx_frozen ?s"
    by (simp_all add: following_contract_def initialize_vx_def)
  have q: "pr_call q = CommitHeaderRange 0 4" "pr_function_id q = replicate 32 3"
    "pr_input q = header_range_input 2 (header_hash_of 2) 0 (set_hash_of 0) 4"
    by (simp_all add: q_def request_header_range_def get_header_range_input_data_def s)
  have "honest_prover 10 0 (replicate 32 3) (header_range_input 2 (header_hash_of 2) 0 (set_hash_of (unat (0 :: u64))) 4)
      = Some (header_hash_of 4 @ replicate 32 5 @ replicate 32 6)"
    unfolding honest_prover_range [OF length_hash_of(1)] by (simp add: example_ids_def)
  then have "\<exists>s1 evs. commit_header_range toy_digest (answering (honest_prover 10) q) 0 4 ?s = Inr (s1, evs) \<and> vx_latest_block s1 = 4"
    using q s hash_of_nonzero unfolding commit_header_range_Inr Let_def answering_Some by simp
  then have latest: "vx_latest_block s' = 4" by (auto simp: s'_def fulfil_def q(1))
  then have "s' \<noteq> ?s" using s(1) by auto
  moreover have "vx_step toy_digest (honest_prover 10) s' [] (s'\<lparr>vx_frozen := False\<rparr>)"
    by (rule vx_step.freeze [of False]) (simp add: update_freeze_def)
  then have "vx_ops toy_digest s' ([] @ [Public_call]) ([] @ []) (s'\<lparr>vx_frozen := False\<rparr>)"
    by (rule vx_ops.step [OF vx_ops.start vx_op_step.public])
  ultimately have "fulfil toy_digest (honest_prover 20) (s'\<lparr>vx_frozen := False\<rparr>) q = s'\<lparr>vx_frozen := False\<rparr>"
    using stale_answer_ignored [OF q(1), of toy_digest "honest_prover 10" ?s "[Public_call]" "[]" "s'\<lparr>vx_frozen := False\<rparr>"]
    unfolding s'_def [symmetric] by simp
  then show ?thesis using q(1) latest s'_def by blast
qed

end
