(* ===== verification/Configuration.thy ===== *)
theory Configuration
  imports Client
begin

text \<open>
  What the programs read from their environment and connect to: the numbers they parse, \<open>RedisClient::new\<close>
  and \<open>RpcDataFetcher::new\<close> of \<open>circuits/input/mod.rs\<close>. The environment is the one after \<open>dotenv\<close>; the
  services behind the URLs are fields of the record \<open>services\<close>.
\<close>

section \<open>Decimal numbers\<close>

text \<open>\<open>str::parse\<close> for an unsigned type, of which \<open>limit\<close> is the first number that does not fit: an optional
  plus sign, then digits, with a checked multiplication and addition for each.\<close>

definition digit_value :: "char \<Rightarrow> nat option" where
  "digit_value ch = (let n = of_char ch in if 48 \<le> n \<and> n \<le> 57 then Some (n - 48) else None)"

fun parse_digits :: "nat \<Rightarrow> nat \<Rightarrow> string \<Rightarrow> nat option" where
  "parse_digits limit acc [] = Some acc"
| "parse_digits limit acc (ch # s) = do {
     d \<leftarrow> digit_value ch;
     if acc * 10 + d < limit then parse_digits limit (acc * 10 + d) s else None }"

definition strip_plus :: "string \<Rightarrow> string" where
  "strip_plus s = (case s of [] \<Rightarrow> [] | ch # rest \<Rightarrow> if ch = CHR ''+'' then rest else s)"

definition parse_word :: "string \<Rightarrow> 'w::len word option" where
  "parse_word s = (if strip_plus s = [] then None
     else map_option of_nat (parse_digits (2 ^ LENGTH('w)) 0 (strip_plus s)))"

text \<open>The decimal digits of a number, as \<open>Display\<close> prints them.\<close>

definition digit_char :: "nat \<Rightarrow> char" where
  "digit_char d = char_of (48 + d)"

fun show_nat :: "nat \<Rightarrow> string" where
  "show_nat n = (if n < 10 then [] else show_nat (n div 10)) @ [digit_char (n mod 10)]"

declare show_nat.simps [simp del]

lemma of_digit_char: "d < 10 \<Longrightarrow> of_char (digit_char d) = 48 + d"
  by (simp add: digit_char_def of_char_of)

lemma digit_value_char [simp]: "d < 10 \<Longrightarrow> digit_value (digit_char d) = Some d"
  by (simp add: digit_value_def of_digit_char)

lemma parse_digits_append:
  "parse_digits limit acc (xs @ ys) = parse_digits limit acc xs \<bind> (\<lambda>n. parse_digits limit n ys)"
proof (induction xs arbitrary: acc)
  case (Cons ch xs)
  then show ?case by (cases "digit_value ch") simp_all
qed simp

lemma parse_digits_show:
  "parse_digits limit 0 (show_nat n) = (if n < limit then Some n else None)" if "0 < limit"
proof (induction n rule: show_nat.induct)
  case (1 n)
  have last: "parse_digits limit (n div 10) [digit_char (n mod 10)] = (if n < limit then Some n else None)"
    by simp
  show ?case
  proof (cases "n < 10")
    case True
    then show ?thesis using last by (subst show_nat.simps) simp
  next
    case False
    note IH = "1.IH" [OF False]
    have "\<not> n div 10 < limit \<Longrightarrow> \<not> n < limit" by (meson div_le_dividend le_trans not_le)
    then show ?thesis
      using last False by (subst show_nat.simps) (simp add: parse_digits_append IH del: parse_digits.simps)
  qed
qed

lemma show_nat_hd: "\<exists>d ds. show_nat n = digit_char d # ds \<and> d < 10"
proof (induction n rule: show_nat.induct)
  case (1 n)
  show ?case
  proof (cases "n < 10")
    case True
    then show ?thesis by (subst show_nat.simps) (auto intro: exI [of _ n])
  next
    case False
    from "1.IH" [OF this] obtain d ds where "show_nat (n div 10) = digit_char d # ds" "d < 10" by blast
    then show ?thesis using False by (subst show_nat.simps) auto
  qed
qed

lemma strip_plus_show [simp]: "strip_plus (show_nat n) = show_nat n"
proof -
  obtain d ds where d: "show_nat n = digit_char d # ds" "d < 10" using show_nat_hd by blast
  have "digit_char d \<noteq> CHR ''+''"
  proof
    assume "digit_char d = CHR ''+''"
    then have "of_char (digit_char d) = (43 :: nat)" by simp
    then show False using of_digit_char [OF d(2)] by simp
  qed
  then show ?thesis by (simp add: strip_plus_def d(1))
qed

text \<open>A printed number is read back exactly when it fits.\<close>

lemma parse_show: "parse_word (show_nat n) = (if n < 2 ^ LENGTH('w) then Some (of_nat n :: 'w::len word) else None)"
  using show_nat_hd [of n] by (auto simp: parse_word_def parse_digits_show)

lemma parse_plus: "parse_word (CHR ''+'' # s) = (if s = [] then None else parse_word s :: 'w::len word option)"
  if "strip_plus s = s"
  using that by (simp add: parse_word_def strip_plus_def)

lemma parse_digits_bound: "acc < limit \<Longrightarrow> parse_digits limit acc s = Some n \<Longrightarrow> n < limit"
  by (induction s arbitrary: acc) (auto simp: Option.bind_eq_Some_conv split: if_splits)

section \<open>The environment\<close>

type_synonym environment = "string \<Rightarrow> string option"

text \<open>\<open>expect\<close>, with its message.\<close>

definition expect_msg :: "string \<Rightarrow> 'a option \<Rightarrow> 'a host" where
  "expect_msg msg x = (case x of None \<Rightarrow> Inl (Panic msg) | Some y \<Rightarrow> Inr y)"

lemma expect_msg_simps [simp]: "expect_msg msg None = Inl (Panic msg)" "expect_msg msg (Some x) = Inr x"
  "expect_msg msg y = Inr x \<longleftrightarrow> y = Some x"
  by (cases y; simp add: expect_msg_def)+

text \<open>A number that has a default: the default if the variable is not set, an error if it does not parse.\<close>

definition number_or :: "environment \<Rightarrow> string \<Rightarrow> string \<Rightarrow> 'w::len word \<Rightarrow> 'w word host" where
  "number_or env name msg dflt = (case env name of None \<Rightarrow> Inr dflt
     | Some s \<Rightarrow> expect_msg msg (parse_word s))"

lemma number_or_simps [simp]:
  "env name = None \<Longrightarrow> number_or env name msg dflt = Inr dflt"
  "env name = Some s \<Longrightarrow> number_or env name msg dflt = expect_msg msg (parse_word s)"
  by (simp_all add: number_or_def)

section \<open>The services\<close>

text \<open>A Redis server: whether an attempt to connect succeeds, and the justifications and the block numbers
  stored under the keys of an Avail chain.\<close>

record redis_server =
  rdb_connects :: "nat \<Rightarrow> bool"
  rdb_stored :: "string \<Rightarrow> u32 \<Rightarrow> stored_justification list option option"
  rdb_blocks :: "string \<Rightarrow> u32 \<Rightarrow> u32 \<Rightarrow> u32 list option"

text \<open>A subscription endpoint of an Ethereum node: its chain id, and the data of the logs of the event that
  an address emits; None is an error of the node.\<close>

record log_source =
  ws_chain_id :: "u64 option"
  ws_logs :: "nat \<Rightarrow> byte list list option"

text \<open>What is behind the URLs, and the parsers of third parties: \<open>redis::Client::open\<close>, \<open>build_client\<close> (the
  Redis part of the client it returns is not used), \<open>parse::<Address>\<close>, \<open>Provider::try_from\<close>,
  \<open>Provider::connect\<close>, and the address of the signer that \<open>LocalWallet::from_str\<close> makes of a key.\<close>

record services =
  sv_redis :: "string \<Rightarrow> redis_server option"
  sv_node :: "string \<Rightarrow> client option"
  sv_address :: "string \<Rightarrow> nat option"
  sv_http :: "string \<Rightarrow> bool"
  sv_ws :: "string \<Rightarrow> log_source option"
  sv_wallet :: "string \<Rightarrow> nat option"

definition redis_client_new :: "services \<Rightarrow> environment \<Rightarrow> redis_server host" where
  "redis_client_new W env =
     bind_h (expect_msg ''REDIS_URL must be set'' (env ''REDIS_URL'')) (\<lambda>redis_url.
     expect_msg ''Redis client not created'' (sv_redis W redis_url))"

text \<open>The fetcher over a node and a Redis server, which reads the keys of one chain.\<close>

definition fetcher_over :: "client \<Rightarrow> redis_server \<Rightarrow> string \<Rightarrow> client" where
  "fetcher_over node redis avail_chain_id = node\<lparr>c_redis := rdb_connects redis,
     c_stored := rdb_stored redis avail_chain_id, c_stored_blocks := rdb_blocks redis avail_chain_id\<rparr>"

definition rpc_data_fetcher_new :: "services \<Rightarrow> environment \<Rightarrow> client host" where
  "rpc_data_fetcher_new W env =
     bind_h (expect_msg ''AVAIL_URL must be set'' (env ''AVAIL_URL'')) (\<lambda>url.
     bind_h (unwrap (sv_node W url)) (\<lambda>node.
     bind_h (redis_client_new W env) (\<lambda>redis.
     bind_h (expect_msg ''AVAIL_CHAIN_ID must be set'' (env ''AVAIL_CHAIN_ID'')) (\<lambda>avail_chain_id.
     Inr (fetcher_over node redis avail_chain_id)))))"

text \<open>The variables that the fetcher needs, and the fetcher made of them.\<close>

definition fetcher_env :: "services \<Rightarrow> environment \<Rightarrow> client \<Rightarrow> bool" where
  "fetcher_env W env c \<longleftrightarrow> (\<exists>url redis_url avail_chain_id node redis.
     env ''AVAIL_URL'' = Some url \<and> sv_node W url = Some node
     \<and> env ''REDIS_URL'' = Some redis_url \<and> sv_redis W redis_url = Some redis
     \<and> env ''AVAIL_CHAIN_ID'' = Some avail_chain_id \<and> c = fetcher_over node redis avail_chain_id)"

lemma rpc_data_fetcher_new_iff: "rpc_data_fetcher_new W env = Inr c \<longleftrightarrow> fetcher_env W env c"
  by (auto simp: rpc_data_fetcher_new_def redis_client_new_def fetcher_env_def bind_h_Inr_iff)

end
