(* ===== verification/Indexer.thy ===== *)
theory Indexer
  imports Hints
begin

text \<open>
  The indexer (\<open>bin/indexer.rs\<close>), which verifies the justifications it hears of and stores them in
  Redis, and the writing operations of \<open>RedisClient\<close> (\<open>circuits/input/mod.rs\<close>). The Redis commands
  are parameters; the fetcher reads what the indexer stored.
\<close>

section \<open>The store\<close>

text \<open>The commands the code uses, over an unknown state of the server; None is an error.\<close>

record 'r redis =
  rs_json_set :: "u32 \<Rightarrow> stored_justification \<Rightarrow> 'r \<Rightarrow> 'r option"   \<comment> \<open>\<open>JSON.SET\<close> under the key of a block\<close>
  rs_zadd_block :: "u32 \<Rightarrow> u32 \<Rightarrow> 'r \<Rightarrow> 'r option"             \<comment> \<open>\<open>ZADD\<close> of a block with a score\<close>
  rs_zadd_range :: "u64 \<Rightarrow> byte list \<Rightarrow> byte list \<Rightarrow> u32 \<Rightarrow> 'r \<Rightarrow> 'r option"
    \<comment> \<open>\<open>ZADD\<close> of the encoded range under the key of a chain and an address\<close>
  rs_justification :: "'r \<Rightarrow> u32 \<Rightarrow> stored_justification list option option"   \<comment> \<open>\<open>JSON.GET\<close>\<close>
  rs_blocks :: "'r \<Rightarrow> u32 \<Rightarrow> u32 \<Rightarrow> u32 list option"        \<comment> \<open>\<open>ZRANGEBYSCORE\<close>\<close>

definition add_justification :: "'r redis \<Rightarrow> client \<Rightarrow> stored_justification \<Rightarrow> 'r \<Rightarrow> 'r host" where
  "add_justification R c j r =
     (case get_connection c of Inl e \<Rightarrow> Inl (Panic ''redis'')
      | Inr _ \<Rightarrow> bind_h (unwrap (rs_json_set R (st_block_number j) j r)) (\<lambda>r'.
          unwrap (rs_zadd_block R (st_block_number j) (st_block_number j) r')))"

record data_commitment_range =
  dc_start :: u32
  dc_end :: u32
  dc_data_commitment :: "byte list"

definition add_data_commitment_range ::
    "'r redis \<Rightarrow> client \<Rightarrow> u64 \<Rightarrow> byte list \<Rightarrow> data_commitment_range \<Rightarrow> 'r \<Rightarrow> 'r host" where
  "add_data_commitment_range R c chain_id address rng r =
     (case get_connection c of Inl e \<Rightarrow> Inl (Panic ''redis'')
      | Inr _ \<Rightarrow> bind_h (assert_h Unwrap_none (length (dc_data_commitment rng) = 32)) (\<lambda>_.
          let range_data = u32_to_be (dc_start rng) @ u32_to_be (dc_end rng) @ dc_data_commitment rng
          in unwrap (rs_zadd_range R chain_id address range_data (dc_end rng) r)))"

section \<open>The indexer\<close>

text \<open>One justification of the subscription: what is stored for it, None if too few have signed.
  \<open>blake2\<close> is the hash and \<open>sp_verify\<close> the signature check of \<open>sp_core\<close>.\<close>

definition index_justification ::
    "(byte list \<Rightarrow> bytes32) \<Rightarrow> (byte list \<Rightarrow> byte list \<Rightarrow> bytes32 \<Rightarrow> bool) \<Rightarrow> client \<Rightarrow> grandpa_justification
      \<Rightarrow> stored_justification option host" where
  "index_justification blake2 sp_verify c gj =
     (let block_hash = cm_target_hash (gj_commit gj); precommits = cm_precommits (gj_commit gj) in
     bind_h (unwrap (c_header c block_hash)) (\<lambda>header.
     let header_hash = c_header_hash c header; calculated_hash = blake2 (c_encode_header c header) in
     bind_h (assert_h (Panic ''Header hash does not match block hash'')
       (\<not> (header_hash \<noteq> calculated_hash \<or> block_hash \<noteq> calculated_hash))) (\<lambda>_.
     bind_h (unwrap (c_set_id c block_hash)) (\<lambda>authority_set_id.
     bind_h (nth_h precommits 0) (\<lambda>first.
     let message = signed_message (sp_precommit first) (gj_round gj) authority_set_id;
         validators = filter (\<lambda>p. sp_verify (sp_signature p) message (sp_id p)) precommits;
         pubkey_to_signature = signature_map (map (\<lambda>p. (sp_id p, sp_signature p)) validators)
     in
     bind_h (sub_ck (hdr_number header) 1) (\<lambda>before.
     bind_h (get_authorities c before) (\<lambda>authorities.
     bind_h (usize_ck (length authorities * 2)) (\<lambda>twice.
     if length validators \<le> twice div 3 then Inr None
     else Inr (Some \<lparr>st_block_number = hdr_number header, st_signed_message = message, st_pubkeys = authorities,
       st_signatures = slot_signatures (c_dummy_signature c) pubkey_to_signature authorities,
       st_validator_signed = slot_signed pubkey_to_signature authorities,
       st_num_authorities = length authorities\<rparr>)))))))))"

text \<open>The loop over the subscription, which ends with it or at its first error.\<close>

fun listen_for_justifications ::
    "'r redis \<Rightarrow> (byte list \<Rightarrow> bytes32) \<Rightarrow> (byte list \<Rightarrow> byte list \<Rightarrow> bytes32 \<Rightarrow> bool) \<Rightarrow> client
      \<Rightarrow> grandpa_justification option list \<Rightarrow> 'r \<Rightarrow> 'r host" where
  "listen_for_justifications R blake2 sp_verify c (Some gj # sub) r =
     bind_h (index_justification blake2 sp_verify c gj) (\<lambda>stored.
     case stored of None \<Rightarrow> listen_for_justifications R blake2 sp_verify c sub r
     | Some j \<Rightarrow> bind_h (add_justification R c j r) (listen_for_justifications R blake2 sp_verify c sub))"
| "listen_for_justifications R blake2 sp_verify c _ r = Inr r"

section \<open>What is stored\<close>

text \<open>The documented behaviour of the commands: a value that was set is read back, a member that was added
  with its own number as score is among the members of the ranges that contain it.\<close>

definition redis_laws :: "'r redis \<Rightarrow> bool" where
  "redis_laws R \<longleftrightarrow>
     (\<forall>n j r r'. rs_json_set R n j r = Some r' \<longrightarrow>
        rs_justification R r' = (rs_justification R r)(n := Some (Some [j])) \<and> rs_blocks R r' = rs_blocks R r)
     \<and> (\<forall>n r r'. rs_zadd_block R n n r = Some r' \<longrightarrow> rs_justification R r' = rs_justification R r
        \<and> (\<forall>a b bs'. rs_blocks R r' a b = Some bs' \<longrightarrow>
             (\<exists>bs. rs_blocks R r a b = Some bs \<and> set bs' = set bs \<union> (if a \<le> n \<and> n \<le> b then {n} else {}))))"

text \<open>The node as the fetcher sees it, reading from the store.\<close>

definition reading :: "'r redis \<Rightarrow> 'r \<Rightarrow> client \<Rightarrow> client" where
  "reading R r c = c\<lparr>c_stored := rs_justification R r, c_stored_blocks := rs_blocks R r\<rparr>"

text \<open>A stored justification has one slot per authority of the block before, and a valid signature of its
  message in each marked slot.\<close>

definition sound_stored :: "client \<Rightarrow> (byte list \<Rightarrow> byte list \<Rightarrow> bytes32 \<Rightarrow> bool) \<Rightarrow> stored_justification \<Rightarrow> bool" where
  "sound_stored c sp_verify j \<longleftrightarrow>
     0 < st_block_number j \<and> get_authorities c (st_block_number j - 1) = Inr (st_pubkeys j)
     \<and> st_num_authorities j = length (st_pubkeys j) \<and> length (st_signatures j) = length (st_pubkeys j)
     \<and> length (st_validator_signed j) = length (st_pubkeys j)
     \<and> (\<exists>p round i. st_signed_message j = signed_message p round i)
     \<and> (\<forall>i<length (st_pubkeys j). if st_validator_signed j ! i
          then sp_verify (st_signatures j ! i) (st_signed_message j) (st_pubkeys j ! i)
          else st_signatures j ! i = c_dummy_signature c)"

definition store_ok :: "'r redis \<Rightarrow> client \<Rightarrow> (byte list \<Rightarrow> byte list \<Rightarrow> bytes32 \<Rightarrow> bool) \<Rightarrow> 'r \<Rightarrow> bool" where
  "store_ok R c sp_verify r \<longleftrightarrow> (\<forall>a b bs n. rs_blocks R r a b = Some bs \<longrightarrow> n \<in> set bs \<longrightarrow>
     (\<exists>j. rs_justification R r n = Some (Some [j]) \<and> st_block_number j = n \<and> sound_stored c sp_verify j))"

lemma index_justification_Some:
  assumes "index_justification blake2 sp_verify c gj = Inr (Some j)"
  obtains h set_id ps vs where "ps = cm_precommits (gj_commit gj)" and "ps \<noteq> []"
    and "vs = filter (\<lambda>p. sp_verify (sp_signature p) (st_signed_message j) (sp_id p)) ps"
    and "c_header c (cm_target_hash (gj_commit gj)) = Some h" and "hdr_number h = st_block_number j"
    and "1 \<le> st_block_number j" and "get_authorities c (st_block_number j - 1) = Inr (st_pubkeys j)"
    and "c_set_id c (cm_target_hash (gj_commit gj)) = Some set_id"
    and "st_signed_message j = signed_message (sp_precommit (ps ! 0)) (gj_round gj) set_id"
    and "st_signatures j = slot_signatures (c_dummy_signature c)
      (signature_map (map (\<lambda>p. (sp_id p, sp_signature p)) vs)) (st_pubkeys j)"
    and "st_validator_signed j = slot_signed (signature_map (map (\<lambda>p. (sp_id p, sp_signature p)) vs)) (st_pubkeys j)"
    and "st_num_authorities j = length (st_pubkeys j)" and "2 * length (st_pubkeys j) < 3 * length vs"
  using assms
  by (auto simp: index_justification_def Let_def bind_h_Inr_iff sub_ck_def split: if_splits intro!: that)

lemma indexed_sound:
  assumes "index_justification blake2 sp_verify c gj = Inr (Some j)"
  shows "sound_stored c sp_verify j"
proof -
  obtain vs where vs: "vs = filter (\<lambda>p. sp_verify (sp_signature p) (st_signed_message j) (sp_id p))
      (cm_precommits (gj_commit gj))"
    and j: "1 \<le> st_block_number j" "get_authorities c (st_block_number j - 1) = Inr (st_pubkeys j)"
      "\<exists>p round i. st_signed_message j = signed_message p round i" "st_num_authorities j = length (st_pubkeys j)"
    and sigs: "st_signatures j = slot_signatures (c_dummy_signature c)
      (signature_map (map (\<lambda>p. (sp_id p, sp_signature p)) vs)) (st_pubkeys j)"
    "st_validator_signed j = slot_signed (signature_map (map (\<lambda>p. (sp_id p, sp_signature p)) vs)) (st_pubkeys j)"
    by (rule index_justification_Some [OF assms]) blast
  have "sp_verify x (st_signed_message j) k"
    if "signature_map (map (\<lambda>p. (sp_id p, sp_signature p)) vs) k = Some x" for k x
    using signature_map_Some [OF that] by (auto simp: vs)
  then show ?thesis
    using j by (auto simp: sound_stored_def sigs word_le_nat_alt word_less_nat_alt)
qed

lemma add_justification_Inr:
  assumes "add_justification R c j r = Inr r'"
  obtains r1 where "rs_json_set R (st_block_number j) j r = Some r1"
    and "rs_zadd_block R (st_block_number j) (st_block_number j) r1 = Some r'"
  using assms by (auto simp: add_justification_def bind_h_Inr_iff split: sum.splits)

lemma add_justification_store:
  assumes laws: "redis_laws R" and add: "add_justification R c j r = Inr r'"
  shows "rs_justification R r' = (rs_justification R r)(st_block_number j := Some (Some [j]))"
    and "rs_blocks R r' a b = Some bs' \<Longrightarrow> \<exists>bs. rs_blocks R r a b = Some bs
      \<and> set bs' = set bs \<union> (if a \<le> st_block_number j \<and> st_block_number j \<le> b then {st_block_number j} else {})"
proof -
  obtain r1 where "rs_json_set R (st_block_number j) j r = Some r1"
    "rs_zadd_block R (st_block_number j) (st_block_number j) r1 = Some r'" by (rule add_justification_Inr [OF add])
  then have "rs_justification R r1 = (rs_justification R r)(st_block_number j := Some (Some [j]))"
    "rs_blocks R r1 = rs_blocks R r" "rs_justification R r' = rs_justification R r1"
    "\<And>a b bs'. rs_blocks R r' a b = Some bs' \<Longrightarrow> \<exists>bs. rs_blocks R r1 a b = Some bs
      \<and> set bs' = set bs \<union> (if a \<le> st_block_number j \<and> st_block_number j \<le> b then {st_block_number j} else {})"
    using laws unfolding redis_laws_def by blast+
  then show "rs_justification R r' = (rs_justification R r)(st_block_number j := Some (Some [j]))"
    and "rs_blocks R r' a b = Some bs' \<Longrightarrow> \<exists>bs. rs_blocks R r a b = Some bs
      \<and> set bs' = set bs \<union> (if a \<le> st_block_number j \<and> st_block_number j \<le> b then {st_block_number j} else {})"
    by simp_all
qed

lemma add_store_ok:
  assumes "redis_laws R" and "add_justification R c j r = Inr r'" and "store_ok R c sp_verify r"
    and "sound_stored c sp_verify j"
  shows "store_ok R c sp_verify r'"
  unfolding store_ok_def
proof (intro allI impI)
  fix a b bs' n
  assume "rs_blocks R r' a b = Some bs'" "n \<in> set bs'"
  then obtain bs where "rs_blocks R r a b = Some bs" "n \<in> set bs \<or> n = st_block_number j"
  proof -
    obtain bs where "rs_blocks R r a b = Some bs"
      "set bs' = set bs \<union> (if a \<le> st_block_number j \<and> st_block_number j \<le> b then {st_block_number j} else {})"
      using add_justification_store(2) [OF assms(1,2) \<open>rs_blocks R r' a b = Some bs'\<close>] by blast
    with \<open>n \<in> set bs'\<close> show thesis by (intro that) (auto split: if_splits)
  qed
  note bs = this
  note stored = add_justification_store(1) [OF assms(1,2)]
  show "\<exists>j. rs_justification R r' n = Some (Some [j]) \<and> st_block_number j = n \<and> sound_stored c sp_verify j"
  proof (cases "n = st_block_number j")
    case True
    then show ?thesis using assms(4) stored by simp
  next
    case False
    then have "n \<in> set bs" using bs(2) by blast
    with bs(1) obtain j' where "rs_justification R r n = Some (Some [j'])" "st_block_number j' = n" "sound_stored c sp_verify j'"
      using assms(3) unfolding store_ok_def by blast
    then show ?thesis using False stored by simp
  qed
qed

text \<open>C14. Whatever justifications the indexer hears, in any order and with repetitions, every block it
  lists in Redis has a stored justification of that block: one slot per authority of the block before,
  and in each marked slot a signature of the stored message by that authority that verifies.\<close>

theorem indexed_blocks_sound:
  assumes "redis_laws R" and "store_ok R c sp_verify r"
    and "listen_for_justifications R blake2 sp_verify c sub r = Inr r'"
  shows "store_ok R c sp_verify r'"
  using assms(2,3)
proof (induction sub arbitrary: r)
  case (Cons ogj sub)
  show ?case
  proof (cases ogj)
    case None
    with Cons.prems show ?thesis by simp
  next
    case (Some gj)
    then obtain oj where oj: "index_justification blake2 sp_verify c gj = Inr oj"
      "(case oj of None \<Rightarrow> listen_for_justifications R blake2 sp_verify c sub r
        | Some j \<Rightarrow> bind_h (add_justification R c j r) (listen_for_justifications R blake2 sp_verify c sub)) = Inr r'"
      using Cons.prems(2) by (auto simp: bind_h_Inr_iff)
    show ?thesis
    proof (cases oj)
      case None
      then show ?thesis using Cons oj(2) by simp
    next
      case (Some j)
      then obtain r1 where "add_justification R c j r = Inr r1"
        "listen_for_justifications R blake2 sp_verify c sub r1 = Inr r'"
        using oj(2) by (auto simp: bind_h_Inr_iff)
      moreover have "sound_stored c sp_verify j" using indexed_sound oj(1) Some by metis
      ultimately show ?thesis using Cons.IH add_store_ok [OF assms(1)] Cons.prems(1) by blast
    qed
  qed
qed simp

section \<open>From the indexer to the circuit\<close>

lemma reading_loops: "refresh_loop (reading R r c) is = refresh_loop c is" "redis_loop (reading R r c) is = redis_loop c is"
  by (induction "is") (simp_all add: reading_def)

lemma reading_simps:
  "connected (reading R r c) = connected c" "get_connection (reading R r c) = get_connection c"
  "get_authority_set_id (reading R r c) n = get_authority_set_id c n"
  "c_stored (reading R r c) = rs_justification R r" "c_dummy_signature (reading R r c) = c_dummy_signature c"
  "c_sha256 (reading R r c) = c_sha256 c" "c_dummy_key (reading R r c) = c_dummy_key c"
  "c_verify (reading R r c) = c_verify c" "same_crypto (reading R r c) G = same_crypto c G"
  "signed_data (reading R r c) ks signers m d = signed_data c ks signers m d"
  by (simp_all add: connected_def get_connection_def get_authority_set_id_def refresh_ws_connection_def reading_loops
      get_block_hash_def same_crypto_def signed_data_def) (simp_all add: reading_def)

text \<open>The data that the fetcher reads back.\<close>

lemma stored_data:
  assumes index: "index_justification blake2 sp_verify c gj = Inr (Some j)"
    and stored: "rs_justification R r (st_block_number j) = Some (Some [j])"
    and con: "connected c" "get_connection c = Inr ()"
    and ids: "get_authority_set_id c (st_block_number j - 1) = Inr set_id"
      "get_authority_set_id c (st_block_number j) = Inr set_id" "unat set_id + 1 < 2 ^ 64"
    and verify: "\<forall>s m k. sp_verify s m k \<longrightarrow> length s = 64 \<and> c_verify c k m s"
  shows "\<exists>d. get_justification_data (reading R r c) N (st_block_number j) = Inr d
    \<and> signed_data c (st_pubkeys j) (sp_id ` {p \<in> set (cm_precommits (gj_commit gj)).
         sp_verify (sp_signature p) (st_signed_message j) (sp_id p)}) (st_signed_message j) d"
proof -
  obtain vs where vs: "vs = filter (\<lambda>p. sp_verify (sp_signature p) (st_signed_message j) (sp_id p))
      (cm_precommits (gj_commit gj))"
    and j: "1 \<le> st_block_number j" "get_authorities c (st_block_number j - 1) = Inr (st_pubkeys j)"
      "st_num_authorities j = length (st_pubkeys j)"
    and slots: "st_signatures j = slot_signatures (c_dummy_signature c)
      (signature_map (map (\<lambda>p. (sp_id p, sp_signature p)) vs)) (st_pubkeys j)"
    "st_validator_signed j = slot_signed (signature_map (map (\<lambda>p. (sp_id p, sp_signature p)) vs)) (st_pubkeys j)"
    by (rule index_justification_Some [OF index]) blast
  have "get_justification_data (reading R r c) N (st_block_number j)
    = Inr \<lparr>sj_pubkeys = st_pubkeys j, sj_signatures = st_signatures j, sj_validator_signed = st_validator_signed j,
        sj_signed_message = st_signed_message j, sj_voting_weight = length (filter id (st_validator_signed j)),
        sj_num_authorities = st_num_authorities j\<rparr>"
    by (rule stored_branch [where js = "[]" and set_id = set_id])
      (use con ids j(1) stored get_authorities_keys [OF j(2)] in \<open>simp_all add: reading_simps\<close>)
  moreover have "signed_data c (st_pubkeys j) (sp_id ` set vs) (st_signed_message j)
      \<lparr>sj_pubkeys = st_pubkeys j, sj_signatures = st_signatures j, sj_validator_signed = st_validator_signed j,
        sj_signed_message = st_signed_message j, sj_voting_weight = length (filter id (st_validator_signed j)),
        sj_num_authorities = st_num_authorities j\<rparr>"
    unfolding slots j(3) by (rule signature_map_data) (use verify vs in auto)
  ultimately show ?thesis using vs by auto
qed

text \<open>Distinct signers that are authorities fill as many slots.\<close>

lemma card_slots_distinct:
  assumes "distinct (map sp_id vs)" and "sp_id ` set vs \<subseteq> set ks"
  shows "length vs \<le> card (signer_slots ks (sp_id ` set vs))"
proof -
  have "sp_id ` set vs \<subseteq> (!) ks ` signer_slots ks (sp_id ` set vs)"
  proof
    fix x assume x: "x \<in> sp_id ` set vs"
    then obtain i where "i < length ks" "x = ks ! i" using assms(2) by (metis in_set_conv_nth subsetD)
    then show "x \<in> (!) ks ` signer_slots ks (sp_id ` set vs)" using x by (auto simp: signer_slots_def)
  qed
  moreover have "finite (signer_slots ks (sp_id ` set vs))" by (simp add: signer_slots_def)
  ultimately have "card (sp_id ` set vs) \<le> card (signer_slots ks (sp_id ` set vs))"
    by (meson card_image_le card_mono finite_imageI le_trans)
  moreover have "card (sp_id ` set vs) = length vs" using distinct_card [OF assms(1)] by simp
  ultimately show ?thesis by simp
qed

text \<open>C13. What the indexer stores can be proved: for a block that is not an epoch end, once a justification
  heard for it has been stored, the hint reads it back from Redis and the circuit accepts the result,
  provided the precommits that verify are of distinct authorities and the first one is for the block.\<close>

theorem indexed_justification_accepted:
  assumes "gadgets_ok G" and "same_crypto c G" and "length (c_dummy_signature c) = 64" and "redis_laws R"
    and "connected c" and "get_connection c = Inr ()"
    and "\<forall>s m k. sp_verify s m k \<longrightarrow> length s = 64 \<and> c_verify c k m s"
    and "index_justification blake2 sp_verify c gj = Inr (Some j)"
    and "listen_for_justifications R blake2 sp_verify c [Some gj] r = Inr r'"
    and "c_set_id c (cm_target_hash (gj_commit gj)) = Some set_id" and "unat set_id + 1 < 2 ^ 64"
    and "get_authority_set_id c (st_block_number j) = Inr set_id"
    and "get_authority_set_id c (st_block_number j - 1) = Inr set_id"
    and "sp_precommit (cm_precommits (gj_commit gj) ! 0)
      = \<lparr>target_hash = cm_target_hash (gj_commit gj), target_number = st_block_number j\<rparr>"
    and "length (cm_target_hash (gj_commit gj)) = 32"
    and "vs = filter (\<lambda>p. sp_verify (sp_signature p) (st_signed_message j) (sp_id p)) (cm_precommits (gj_commit gj))"
    and "distinct (map sp_id vs)" and "sp_id ` set vs \<subseteq> set (st_pubkeys j)"
    and "length (st_pubkeys j) \<le> N" and "3 * N < 2 ^ 32"
  shows "\<exists>jj. hint_simple_justification (reading R r' c) N (st_block_number j) set_id = Inr jj \<and> wf_justification N jj
    \<and> verify_simple_justification G (st_block_number j) (cm_target_hash (gj_commit gj)) set_id
        (compute_authority_set_hash (c_sha256 c) (st_pubkeys j)) jj = Some ()"
proof -
  have "add_justification R c j r = Inr r'" using assms(8,9) by (auto simp: bind_h_Inr_iff)
  then have "rs_justification R r' (st_block_number j) = Some (Some [j])"
    using add_justification_store(1) [OF assms(4)] by simp
  from stored_data [OF assms(8) this assms(5,6,13,12,11,7), of N]
  obtain d where d: "get_justification_data (reading R r' c) N (st_block_number j) = Inr d"
    "signed_data (reading R r' c) (st_pubkeys j) (sp_id ` set vs) (st_signed_message j) d"
    unfolding reading_simps assms(16) set_filter by blast
  have "1 \<le> st_block_number j \<and> 2 * length (st_pubkeys j) < 3 * length vs
    \<and> st_signed_message j = signed_message \<lparr>target_hash = cm_target_hash (gj_commit gj),
       target_number = st_block_number j\<rparr> (gj_round gj) set_id"
    by (rule index_justification_Some [OF assms(8)]) (use assms(10,14,16) in simp)
  then have j: "1 \<le> st_block_number j" "2 * length (st_pubkeys j) < 3 * length vs"
    "st_signed_message j = signed_message \<lparr>target_hash = cm_target_hash (gj_commit gj),
       target_number = st_block_number j\<rparr> (gj_round gj) set_id" by blast+
  have "2 * length (st_pubkeys j) < 3 * card (signer_slots (st_pubkeys j) (sp_id ` set vs))"
    using card_slots_distinct [OF assms(17,18)] j(2) by linarith
  from data_accepted [OF assms(1) _ _ d(1) d(2) [unfolded j(3)] j(1) _ assms(15,19,20) this]
  show ?thesis using assms(2,3,13) by (simp add: reading_simps)
qed

section \<open>A concrete store\<close>

definition map_redis :: "((u32 \<Rightarrow> stored_justification option) \<times> u32 list) redis" where
  "map_redis = \<lparr>rs_json_set = (\<lambda>n j (m, bs). Some (m(n \<mapsto> j), bs)),
     rs_zadd_block = (\<lambda>n score (m, bs). Some (m, n # bs)), rs_zadd_range = (\<lambda>chain address data score r. Some r),
     rs_justification = (\<lambda>(m, bs) n. Some (map_option (\<lambda>j. [j]) (m n))),
     rs_blocks = (\<lambda>(m, bs) a b. Some (filter (\<lambda>n. a \<le> n \<and> n \<le> b) bs))\<rparr>"

lemma map_redis_laws: "redis_laws map_redis"
  by (auto simp: redis_laws_def map_redis_def fun_eq_iff)

text \<open>Block 2 of the node, justified by its three authorities.\<close>

definition hash_two :: bytes32 where "hash_two = u32_to_le 2 @ replicate 28 0"

definition hashed_client :: client where
  "hashed_client = (finality_client three_keys)\<lparr>c_header_hash := \<lambda>h. hash_two\<rparr>"

definition toy_verify :: "byte list \<Rightarrow> byte list \<Rightarrow> bytes32 \<Rightarrow> bool" where
  "toy_verify s m k \<longleftrightarrow> length s = 64 \<and> toy_sig_valid k m (signature_of_bytes s)"

definition heard :: grandpa_justification where
  "heard = \<lparr>gj_round = 5, gj_commit = \<lparr>cm_target_hash = hash_two, cm_target_number = 2,
     cm_precommits = map (\<lambda>k. \<lparr>sp_precommit = \<lparr>target_hash = hash_two, target_number = 2\<rparr>,
       sp_signature = toy_sign k hash_two, sp_id = k\<rparr>) three_keys\<rparr>\<rparr>"

lemma length_hash_two [simp]: "length hash_two = 32"
  by (simp add: hash_two_def)

lemma hashed_client_simps:
  "connected hashed_client" "get_connection hashed_client = Inr ()" "same_crypto hashed_client toy_gadgets"
  "length (c_dummy_signature hashed_client) = 64" "c_sha256 hashed_client = toy_digest"
  "c_verify hashed_client = (\<lambda>pk m s. toy_sig_valid pk m (signature_of_bytes s))"
  "c_header hashed_client hash_two = Some (numbered_header 2)" "c_header_hash hashed_client h = hash_two"
  "c_set_id hashed_client hash_two = Some 0"
  "get_authority_set_id hashed_client 1 = Inr 0" "get_authority_set_id hashed_client 2 = Inr 0"
  "get_authorities hashed_client 1 = Inr three_keys"
proof -
  let ?c = "finality_client three_keys"
  have same: "refresh_loop hashed_client is = refresh_loop ?c is" for "is"
    by (induction "is") (simp_all add: hashed_client_def)
  note eqs = get_authority_set_id_def get_authorities_def refresh_ws_connection_def same get_block_hash_def
  have "le_nat (replicate n 0) = 0" for n by (induction n) simp_all
  then have two: "u32_from_le hash_two = 2"
    by (simp add: hash_two_def u32_from_le_def u32_to_le_def le_nat_append le_nat_nat_le)
  have redis: "redis_loop hashed_client is = redis_loop ?c is" for "is"
    by (induction "is") (simp_all add: hashed_client_def)
  show "get_connection hashed_client = Inr ()"
    by (simp add: get_connection_def MAX_RECONNECT_ATTEMPTS_def redis upt_rec)
      (simp add: hashed_client_def proving_client_def toy_client_def Let_def)
  show "same_crypto hashed_client toy_gadgets" "length (c_dummy_signature hashed_client) = 64"
    "c_sha256 hashed_client = toy_digest"
    using proving_client_simps(2-4) [of numbered_header "\<lambda>i. three_keys" proving_hash three_keys]
    by (simp_all add: hashed_client_def same_crypto_def)
  show "c_header hashed_client hash_two = Some (numbered_header 2)" "c_set_id hashed_client hash_two = Some 0"
    using two by (simp_all add: hashed_client_def proving_client_def toy_client_def Let_def example_ids_def)
  show "connected hashed_client"
    using proving_client_simps(1) [of numbered_header "\<lambda>i. three_keys" proving_hash three_keys]
    by (simp add: connected_def refresh_ws_connection_def same)
  have "get_authority_set_id hashed_client n = get_authority_set_id ?c n"
    "get_authorities hashed_client n = get_authorities ?c n" for n
    by (simp_all add: eqs) (simp_all add: hashed_client_def)
  then show "get_authority_set_id hashed_client 1 = Inr 0" "get_authority_set_id hashed_client 2 = Inr 0"
    "get_authorities hashed_client 1 = Inr three_keys"
    using proving_client_simps(6) [of 1] proving_client_simps(6) [of 2] proving_client_simps(8) [of 1 "\<lambda>i. three_keys"]
    by (simp_all add: example_ids_def three_keys_def)
qed (simp_all add: hashed_client_def proving_client_def toy_client_def Let_def)

text \<open>What the indexer stores for it.\<close>

lemma three_heard:
  "filter (\<lambda>p. toy_verify (sp_signature p)
      (signed_message \<lparr>target_hash = hash_two, target_number = 2\<rparr> 5 0) (sp_id p))
    (cm_precommits (gj_commit heard)) = cm_precommits (gj_commit heard)"
  by (simp add: heard_def filter_id_conv toy_verify_def toy_sign_valid)

lemma heard_indexed:
  "\<exists>j. index_justification (\<lambda>m. hash_two) toy_verify hashed_client heard = Inr (Some j) \<and> st_block_number j = 2
    \<and> st_pubkeys j = three_keys
    \<and> st_signed_message j = signed_message \<lparr>target_hash = hash_two, target_number = 2\<rparr> 5 0"
proof -
  have first: "nth_h (cm_precommits (gj_commit heard)) 0
      = Inr \<lparr>sp_precommit = \<lparr>target_hash = hash_two, target_number = 2\<rparr>,
          sp_signature = toy_sign (replicate 32 1) hash_two, sp_id = replicate 32 1\<rparr>"
    by (simp add: heard_def three_keys_def nth_h_def)
  have target: "cm_target_hash (gj_commit heard) = hash_two" "gj_round heard = 5" by (simp_all add: heard_def)
  have len: "length (cm_precommits (gj_commit heard)) = 3" "length three_keys = 3"
    by (simp_all add: heard_def three_keys_def)
  have number: "hdr_number (numbered_header 2) = 2" "sub_ck (2 :: u32) 1 = Inr 1"
    by (simp_all add: numbered_header_def sub_ck_def)
  show ?thesis
    using first three_heard
    by (simp add: index_justification_def Let_def hashed_client_simps target number len usize_ck_def)
qed

lemma add_to_map:
  "add_justification map_redis hashed_client j (m, bs) = Inr (m(st_block_number j \<mapsto> j), st_block_number j # bs)"
  by (simp add: add_justification_def hashed_client_simps) (simp add: map_redis_def)

theorem indexed_blocks_sound_witness:
  "\<exists>r. listen_for_justifications map_redis (\<lambda>m. hash_two) toy_verify hashed_client [Some heard, Some heard]
      (Map.empty, []) = Inr r
    \<and> rs_blocks map_redis r 0 9 = Some [2, 2] \<and> store_ok map_redis hashed_client toy_verify r"
proof -
  obtain j where j: "index_justification (\<lambda>m. hash_two) toy_verify hashed_client heard = Inr (Some j)" "st_block_number j = 2"
    using heard_indexed by blast
  have run: "listen_for_justifications map_redis (\<lambda>m. hash_two) toy_verify hashed_client [Some heard, Some heard]
      (Map.empty, []) = Inr (Map.empty(2 \<mapsto> j), [2, 2])"
    by (simp add: j add_to_map)
  have "store_ok map_redis hashed_client toy_verify (Map.empty, [])"
    by (simp add: store_ok_def map_redis_def)
  from indexed_blocks_sound [OF map_redis_laws this run] run show ?thesis
    by (intro exI [of _ "(Map.empty(2 \<mapsto> j), [2, 2])"]) (simp add: map_redis_def)
qed

theorem indexed_justification_accepted_witness:
  "\<exists>r jj. listen_for_justifications map_redis (\<lambda>m. hash_two) toy_verify hashed_client [Some heard] (Map.empty, []) = Inr r
    \<and> hint_simple_justification (reading map_redis r hashed_client) 4 2 0 = Inr jj
    \<and> verify_simple_justification toy_gadgets 2 hash_two 0 (compute_authority_set_hash toy_digest three_keys) jj = Some ()"
proof -
  obtain j where j: "index_justification (\<lambda>m. hash_two) toy_verify hashed_client heard = Inr (Some j)"
    "st_block_number j = 2" "st_pubkeys j = three_keys"
    "st_signed_message j = signed_message \<lparr>target_hash = hash_two, target_number = 2\<rparr> 5 0"
    using heard_indexed by blast
  have run: "listen_for_justifications map_redis (\<lambda>m. hash_two) toy_verify hashed_client [Some heard] (Map.empty, [])
      = Inr (Map.empty(2 \<mapsto> j), [2])"
    by (simp add: j add_to_map)
  have verify: "\<forall>s m k. toy_verify s m k \<longrightarrow> length s = 64 \<and> c_verify hashed_client k m s"
    by (simp add: toy_verify_def hashed_client_simps)
  have heard: "cm_target_hash (gj_commit heard) = hash_two" "map sp_id (cm_precommits (gj_commit heard)) = three_keys"
    "sp_precommit (cm_precommits (gj_commit heard) ! 0) = \<lparr>target_hash = hash_two, target_number = 2\<rparr>"
    by (simp_all add: heard_def comp_def, simp add: three_keys_def)
  have "distinct three_keys" "length three_keys \<le> 4"
    "sp_id ` set (cm_precommits (gj_commit heard)) \<subseteq> set three_keys"
    using heard(2) [THEN arg_cong [of _ _ set]] by (simp_all add: three_keys_def)
  then have "\<exists>jj. hint_simple_justification (reading map_redis (Map.empty(2 \<mapsto> j), [2]) hashed_client) 4 (st_block_number j) 0
        = Inr jj \<and> wf_justification 4 jj
      \<and> verify_simple_justification toy_gadgets (st_block_number j) (cm_target_hash (gj_commit heard)) 0
          (compute_authority_set_hash (c_sha256 hashed_client) (st_pubkeys j)) jj = Some ()"
    by (intro indexed_justification_accepted [OF toy_gadgets_ok hashed_client_simps(3,4) map_redis_laws
        hashed_client_simps(1,2) verify j(1) run _ _ _ _ _ _ refl])
      (use three_heard in
        \<open>simp_all add: j heard hashed_client_simps\<close>)
  then show ?thesis using run by (auto simp: j heard hashed_client_simps)
qed

section \<open>Repeated signers\<close>

text \<open>What the indexer makes of \<open>m\<close> copies of one precommit of an authority \<open>k\<close>.\<close>

definition repeated_vote :: "bytes32 \<Rightarrow> u64 \<Rightarrow> nat \<Rightarrow> target_precommit \<Rightarrow> byte list \<Rightarrow> bytes32 \<Rightarrow> grandpa_justification" where
  "repeated_vote hash round m pc s k = \<lparr>gj_round = round, gj_commit = \<lparr>cm_target_hash = hash,
     cm_target_number = target_number pc, cm_precommits = replicate m \<lparr>sp_precommit = pc, sp_signature = s, sp_id = k\<rparr>\<rparr>\<rparr>"

lemma signature_map_replicate: "0 < m \<Longrightarrow> signature_map (replicate m (k, s)) = [k \<mapsto> s]"
proof -
  have "foldl (\<lambda>f p. f(fst p \<mapsto> snd p)) [k \<mapsto> s] (replicate i (k, s)) = [k \<mapsto> s]" for i
    by (induction i) (simp_all del: fun_upd_apply)
  then show "0 < m \<Longrightarrow> signature_map (replicate m (k, s)) = [k \<mapsto> s]" by (cases m) (simp_all add: signature_map_def)
qed

lemma repeated_indexed:
  assumes header: "c_header c hash = Some h" "c_header_hash c h = hash" "blake2 (c_encode_header c h) = hash" "1 \<le> hdr_number h"
    and ids: "c_set_id c hash = Some set_id" and ks: "get_authorities c (hdr_number h - 1) = Inr ks" "2 * length ks < 2 ^ 64"
    and vote: "sp_verify s (signed_message pc round set_id) k" and m: "2 * length ks < 3 * m"
  shows "\<exists>j. index_justification blake2 sp_verify c (repeated_vote hash round m pc s k) = Inr (Some j)
    \<and> st_block_number j = hdr_number h \<and> st_pubkeys j = ks \<and> st_num_authorities j = length ks
    \<and> st_validator_signed j = map (\<lambda>x. x = k) ks"
proof -
  have first: "nth_h (replicate m \<lparr>sp_precommit = pc, sp_signature = s, sp_id = k\<rparr>) 0
      = Inr \<lparr>sp_precommit = pc, sp_signature = s, sp_id = k\<rparr>" and "0 < m" using m by (cases m; simp add: nth_h_def)+
  moreover have "slot_signed [k \<mapsto> s] ks = map (\<lambda>x. x = k) ks" by (simp add: slot_signed_def)
  moreover have "sub_ck (hdr_number h) 1 = Inr (hdr_number h - 1)" using header(4) by (simp add: sub_ck_def)
  moreover have "usize_ck (length ks * 2) = Inr (length ks * 2)" using ks(2) by (simp add: usize_ck_def)
  moreover have "\<not> m \<le> length ks * 2 div 3" using m by linarith
  ultimately show ?thesis
    using header(1-3) ids ks(1) vote
    by (simp add: index_justification_def repeated_vote_def Let_def signature_map_replicate)
qed

text \<open>A justification with less than two thirds of its slots marked makes the fetcher panic.\<close>

lemma few_slots_panic:
  assumes "get_justification_data c N n = Inr d" and "3 * sj_voting_weight d < 2 * sj_num_authorities d"
  shows "\<exists>e. hint_simple_justification c N n set_id = Inl e"
proof -
  have "get_justification_from_block c N n \<noteq> Inr x" for x
    using assms by (auto simp: get_justification_from_block_def Let_def bind_h_Inr_iff usize_ck_def split: if_splits)
  then have "hint_simple_justification c N n set_id \<noteq> Inr j" for j
    by (simp add: hint_simple_justification_def bind_h_Inr_iff)
  then show ?thesis by (cases "hint_simple_justification c N n set_id") auto
qed

text \<open>C35. The threshold of the indexer counts precommits, not authorities: enough copies of one precommit that one
  authority has signed are stored as the justification of the block, in place of what was stored there, although
  only that authority's slot is marked; and the hint then panics on the block instead of finding a quorum. The
  block is a served one that does not end an epoch, with at least two distinct authorities.\<close>

theorem indexer_counts_precommits:
  assumes "redis_laws R" and "connected c" and "get_connection c = Inr ()"
    and "c_header c hash = Some h" and "c_header_hash c h = hash" and "blake2 (c_encode_header c h) = hash" and "1 \<le> hdr_number h"
    and "c_set_id c hash = Some set_id" and "unat set_id + 1 < 2 ^ 64"
    and "get_authority_set_id c (hdr_number h - 1) = Inr set_id" and "get_authority_set_id c (hdr_number h) = Inr set_id"
    and "get_authorities c (hdr_number h - 1) = Inr ks" and "distinct ks" and "2 \<le> length ks" and "2 * length ks < 2 ^ 64"
    and "k \<in> set ks" and "sp_verify s (signed_message pc round set_id) k" and "2 * length ks < 3 * m"
    and "listen_for_justifications R blake2 sp_verify c [Some (repeated_vote hash round m pc s k)] r = Inr r'"
  shows "(\<exists>j. rs_justification R r' (hdr_number h) = Some (Some [j]) \<and> st_validator_signed j = map (\<lambda>x. x = k) ks)
    \<and> (\<exists>e. hint_simple_justification (reading R r' c) N (hdr_number h) set_id = Inl e)"
proof -
  have "\<exists>j. index_justification blake2 sp_verify c (repeated_vote hash round m pc s k) = Inr (Some j)
      \<and> st_block_number j = hdr_number h \<and> st_pubkeys j = ks \<and> st_num_authorities j = length ks
      \<and> st_validator_signed j = map (\<lambda>x. x = k) ks"
    by (rule repeated_indexed [where set_id = set_id]) (use assms(4-8,12,15,17,18) in simp_all)
  then obtain j where j: "index_justification blake2 sp_verify c (repeated_vote hash round m pc s k) = Inr (Some j)"
    "st_block_number j = hdr_number h" "st_pubkeys j = ks" "st_num_authorities j = length ks"
    "st_validator_signed j = map (\<lambda>x. x = k) ks" by blast
  have "add_justification R c j r = Inr r'" using assms(19) j(1) by (auto simp: bind_h_Inr_iff)
  then have stored: "rs_justification R r' (hdr_number h) = Some (Some [j])"
    using add_justification_store(1) [OF assms(1)] j(2) by simp
  have "filter (\<lambda>x. x = k) ks = [k]"
    using assms(13,16) by (induction ks) (auto simp: filter_empty_conv)
  then have one: "length (filter id (map (\<lambda>x. x = k) ks)) = 1" by (simp add: filter_map comp_def)
  have "get_justification_data (reading R r' c) N (hdr_number h) = Inr \<lparr>sj_pubkeys = st_pubkeys j, sj_signatures = st_signatures j,
      sj_validator_signed = st_validator_signed j, sj_signed_message = st_signed_message j,
      sj_voting_weight = length (filter id (st_validator_signed j)), sj_num_authorities = st_num_authorities j\<rparr>"
    by (rule stored_branch [where js = "[]" and set_id = set_id])
      (use assms(2,3,7,9-11) stored get_authorities_keys [OF assms(12)] in \<open>simp_all add: reading_simps j(3)\<close>)
  from few_slots_panic [OF this] show ?thesis using stored j(4,5) one assms(14) by simp
qed

theorem indexer_counts_precommits_witness:
  "\<exists>r gj. listen_for_justifications map_redis (\<lambda>m. hash_two) toy_verify hashed_client [Some gj] (Map.empty, []) = Inr r
    \<and> sp_id ` set (cm_precommits (gj_commit gj)) = {replicate 32 1} \<and> fst r 2 \<noteq> None
    \<and> (\<exists>e. hint_simple_justification (reading map_redis r hashed_client) 4 2 0 = Inl e)"
proof -
  let ?k = "replicate 32 1 :: bytes32" and ?pc = "\<lparr>target_hash = hash_two, target_number = 2\<rparr>"
  let ?gj = "repeated_vote hash_two 5 3 ?pc (toy_sign ?k hash_two) ?k"
  have number: "hdr_number (numbered_header 2) = 2" by (simp add: numbered_header_def)
  have keys: "distinct three_keys" "length three_keys = 3" "?k \<in> set three_keys" by (simp_all add: three_keys_def)
  have vote: "toy_verify (toy_sign ?k hash_two) (signed_message ?pc 5 0) ?k" by (simp add: toy_verify_def toy_sign_valid)
  have "\<exists>j. index_justification (\<lambda>m. hash_two) toy_verify hashed_client ?gj = Inr (Some j)
      \<and> st_block_number j = hdr_number (numbered_header 2) \<and> st_pubkeys j = three_keys \<and> st_num_authorities j = length three_keys
      \<and> st_validator_signed j = map (\<lambda>x. x = ?k) three_keys"
    by (rule repeated_indexed [where set_id = 0 and sp_verify = toy_verify and c = hashed_client])
      (use vote keys in \<open>simp_all add: number hashed_client_simps\<close>)
  then obtain j where j: "index_justification (\<lambda>m. hash_two) toy_verify hashed_client ?gj = Inr (Some j)" "st_block_number j = 2"
    using number by auto
  have run: "listen_for_justifications map_redis (\<lambda>m. hash_two) toy_verify hashed_client [Some ?gj] (Map.empty, [])
      = Inr (Map.empty(2 \<mapsto> j), [2])" by (simp add: j add_to_map)
  have "\<exists>e. hint_simple_justification (reading map_redis (Map.empty(2 \<mapsto> j), [2]) hashed_client) 4 (hdr_number (numbered_header 2)) 0 = Inl e"
    by (rule indexer_counts_precommits [where set_id = 0 and sp_verify = toy_verify and c = hashed_client
          and ks = three_keys, OF map_redis_laws _ _ _ _ _ _ _ _ _ _ _ _ _ _ _ vote _ run, THEN conjunct2])
      (use keys in \<open>simp_all add: number hashed_client_simps\<close>)
  then show ?thesis using run
    by (intro exI [of _ "(Map.empty(2 \<mapsto> j), [2])"] exI [of _ ?gj]) (simp add: number, simp add: repeated_vote_def)
qed

end
