(* ===== verification/Event_Listener.thy ===== *)
theory Event_Listener
  imports Contract Indexer
begin

text \<open>
  The event listener (\<open>bin/events.rs\<close>), which records the ranges the contract has stored in Redis. The
  decoder of the ABI and the Redis command are parameters; the logs are those the filter lets through.
\<close>

text \<open>The loop over the logs of one contract; the decoder's error is unwrapped.\<close>

fun listen_for_events ::
    "'r redis \<Rightarrow> client \<Rightarrow> (byte list \<Rightarrow> (u32 \<times> u32 \<times> bytes32 \<times> bytes32) option) \<Rightarrow> u64 \<Rightarrow> byte list
      \<Rightarrow> byte list list \<Rightarrow> 'r \<Rightarrow> 'r host" where
  "listen_for_events R c abi_decode chain_id address [] r = Inr r"
| "listen_for_events R c abi_decode chain_id address (log_bytes # logs) r =
     bind_h (unwrap (abi_decode log_bytes)) (\<lambda>(trusted_block, last_block, expected_data_commitment, _).
     let data_commitment_range = \<lparr>dc_start = trusted_block, dc_end = last_block,
           dc_data_commitment = expected_data_commitment\<rparr>
     in bind_h (add_data_commitment_range R c chain_id address data_commitment_range r)
          (listen_for_events R c abi_decode chain_id address logs))"

text \<open>The data of the contract's \<open>HeaderRangeCommitmentStored\<close> logs, as the EVM encodes them.\<close>

fun stored_logs :: "vx_event list \<Rightarrow> byte list list" where
  "stored_logs (HeaderRangeCommitmentStored a b d sr # evs) = (abi_range a b @ d @ sr) # stored_logs evs"
| "stored_logs (_ # evs) = stored_logs evs"
| "stored_logs [] = []"

fun wf_event :: "vx_event \<Rightarrow> bool" where
  "wf_event (HeaderRangeCommitmentStored a b d sr) \<longleftrightarrow> length d = 32 \<and> length sr = 32"
| "wf_event _ \<longleftrightarrow> True"

definition decodes_ranges :: "(byte list \<Rightarrow> (u32 \<times> u32 \<times> bytes32 \<times> bytes32) option) \<Rightarrow> bool" where
  "decodes_ranges abi_decode \<longleftrightarrow> (\<forall>a b d sr. length d = 32 \<longrightarrow> length sr = 32 \<longrightarrow>
     abi_decode (abi_range a b @ d @ sr) = Some (a, b, d, sr))"

text \<open>The members of the sorted set, as a list of what was added under a key.\<close>

fun recorded :: "vx_event list \<Rightarrow> (byte list \<times> u32) list" where
  "recorded (HeaderRangeCommitmentStored a b d sr # evs) = (u32_to_be a @ u32_to_be b @ d, b) # recorded evs"
| "recorded (_ # evs) = recorded evs"
| "recorded [] = []"

fun add_ranges :: "'r redis \<Rightarrow> u64 \<Rightarrow> byte list \<Rightarrow> (byte list \<times> u32) list \<Rightarrow> 'r \<Rightarrow> 'r host" where
  "add_ranges R chain_id address [] r = Inr r"
| "add_ranges R chain_id address ((m, score) # rs) r =
     bind_h (unwrap (rs_zadd_range R chain_id address m score r)) (add_ranges R chain_id address rs)"

text \<open>On the logs of the contract the listener adds every stored range with its data commitment, in order.\<close>

lemma listener_records_ranges:
  assumes "decodes_ranges abi_decode" and "get_connection c = Inr ()" and "list_all wf_event evs"
  shows "listen_for_events R c abi_decode chain_id address (stored_logs evs) r
    = add_ranges R chain_id address (recorded evs) r"
  using assms(3)
proof (induction evs arbitrary: r rule: stored_logs.induct)
  case (1 a b d sr evs)
  then have "listen_for_events R c abi_decode chain_id address (stored_logs evs)
      = add_ranges R chain_id address (recorded evs)" by (simp add: fun_eq_iff)
  with 1 show ?case
    using assms(1,2) by (simp add: decodes_ranges_def add_data_commitment_range_def)
qed simp_all

text \<open>The contract emits only such events: a gateway's output is cut into words.\<close>

lemma committed_events_wf:
  "commit_header_range keccak gw i b s = Inr (s', evs) \<Longrightarrow> list_all wf_event evs"
  by (auto simp: commit_header_range_Inr Let_def segment_def)

end
