(* ===== verification/Block_Filler.thy ===== *)
theory Block_Filler
  imports Contract
begin

text \<open>
  The scripts around the contract: \<open>bin/fill_block_range.rs\<close>, which computes the arguments of
  \<open>updateBlockRangeData\<close> from the chain, and \<open>bin/genesis.rs\<close>, which computes those of \<open>initialize\<close>.
  Their \<open>main\<close> functions are in theory \<open>Programs\<close>.
\<close>

record block_range_data =
  bd_start_blocks :: "u32 list"
  bd_end_blocks :: "u32 list"
  bd_header_hashes :: "bytes32 list"
  bd_data_root_commitments :: "bytes32 list"
  bd_state_root_commitments :: "bytes32 list"
  bd_end_authority_set_id :: u64
  bd_end_authority_set_hash :: bytes32

text \<open>One pass of the loop pushes one element to each of the five vectors: a row.\<close>

definition fill_row :: "client \<Rightarrow> u32 \<Rightarrow> u32 \<Rightarrow> block_range host" where
  "fill_row c i block_range_end =
     bind_h (get_header c block_range_end) (\<lambda>header.
     bind_h (get_merkle_root_commitments c i block_range_end) (\<lambda>(state_root_commitment, data_root_commitment).
     bind_h (assert_h Unwrap_none (length data_root_commitment = 32)) (\<lambda>_.
     bind_h (assert_h Unwrap_none (length state_root_commitment = 32)) (\<lambda>_.
     Inr \<lparr>br_start = i, br_end = block_range_end, br_header_hash = c_header_hash c header,
       br_data = data_root_commitment, br_state = state_root_commitment\<rparr>))))"

function fill_loop :: "client \<Rightarrow> u32 \<Rightarrow> u32 \<Rightarrow> block_range list host" where
  "fill_loop c i last_block =
     (if i < last_block
      then bind_h (add_ck i 256) (\<lambda>limit.
        bind_h (fill_row c i (min limit last_block)) (\<lambda>row.
        bind_h (fill_loop c limit last_block) (\<lambda>rows. Inr (row # rows))))
      else Inr [])"
  by pat_completeness auto

termination fill_loop
  by (relation "measure (\<lambda>(c, i, last_block). unat last_block - unat i)")
    (auto dest!: add_ck_InrD simp: word_less_nat_alt)

declare fill_loop.simps [simp del]

definition get_block_range_data :: "client \<Rightarrow> u32 \<Rightarrow> u32 \<Rightarrow> block_range_data host" where
  "get_block_range_data c first_block last_block =
     bind_h (fill_loop c first_block last_block) (\<lambda>rows.
     bind_h (get_authority_set_id c last_block) (\<lambda>end_authority_set_id.
     bind_h (authority_set_hash_at c last_block) (\<lambda>end_authority_set_hash.
     Inr \<lparr>bd_start_blocks = map br_start rows, bd_end_blocks = map br_end rows,
       bd_header_hashes = map br_header_hash rows, bd_data_root_commitments = map br_data rows,
       bd_state_root_commitments = map br_state rows, bd_end_authority_set_id = end_authority_set_id,
       bd_end_authority_set_hash = end_authority_set_hash\<rparr>)))"

text \<open>The call the script posts or prints.\<close>

definition post_block_range ::
    "(byte list \<Rightarrow> bytes32) \<Rightarrow> client \<Rightarrow> u32 \<Rightarrow> vectorx \<Rightarrow> ((vectorx \<times> vx_event list) vx) host" where
  "post_block_range keccak c last_block s =
     bind_h (get_block_range_data c (vx_latest_block s) last_block) (\<lambda>d.
     Inr (update_block_range_data keccak True (bd_start_blocks d) (bd_end_blocks d) (bd_header_hashes d)
       (bd_data_root_commitments d) (bd_state_root_commitments d) (bd_end_authority_set_id d)
       (bd_end_authority_set_hash d) s))"

definition genesis_parameters :: "client \<Rightarrow> u32 \<Rightarrow> (bytes32 \<times> u64 \<times> bytes32) host" where
  "genesis_parameters c genesis_block =
     bind_h (get_header c genesis_block) (\<lambda>header.
     bind_h (get_authority_set_id c genesis_block) (\<lambda>authority_set_id.
     bind_h (authority_set_hash_at c genesis_block) (\<lambda>authority_set_hash.
     Inr (c_header_hash c header, authority_set_id, authority_set_hash))))"

section \<open>The rows\<close>

text \<open>Rows that follow each other from \<open>a\<close> to \<open>b\<close>, at most 256 blocks each, with the header hashes of a
  chain at their ends.\<close>

fun linked_rows :: "(u32 \<Rightarrow> bytes32) \<Rightarrow> u32 \<Rightarrow> block_range list \<Rightarrow> u32 \<Rightarrow> bool" where
  "linked_rows H a [] b \<longleftrightarrow> a = b"
| "linked_rows H a (r # rs) b \<longleftrightarrow> br_start r = a \<and> a < br_end r \<and> unat (br_end r) \<le> unat a + 256
     \<and> br_header_hash r = H (br_end r) \<and> linked_rows H (br_end r) rs b"

lemma length_list_root:
  assumes "\<forall>m. length (h m) = 32" and "length xs = 256"
  shows "length (list_root (\<lambda>l r. h (l @ r)) xs) = 32"
proof -
  have "length xs = 2 ^ Suc 7" using assms(2) by simp
  from ref_root.root_halves [OF this, of "\<lambda>l r. h (l @ r)"] show ?thesis using assms(1) by simp
qed

lemma fill_row_eq:
  assumes "connected c" and "unat stop + 200 < 2 ^ 32" and "start < stop" and "unat stop \<le> unat start + 256"
    and "\<forall>i. unat start < i \<and> i \<le> unat stop \<longrightarrow> get_header c (of_nat i) = Inr (hdr i)"
    and "\<forall>m. length (c_sha256 c m) = 32"
  shows "\<exists>r. fill_row c start stop = Inr r \<and> br_start r = start \<and> br_end r = stop
    \<and> br_header_hash r = c_header_hash c (hdr (unat stop))"
proof -
  have le: "start \<le> stop" "unat start < unat stop" "unat stop - unat start \<le> 256"
    using assms(3,4) by (simp_all add: word_less_nat_alt word_le_nat_alt)
  have "get_header c stop = Inr (hdr (unat stop))" using assms(5) [rule_format, of "unat stop"] le by simp
  moreover have "length (map f [unat start + 1..<unat stop + 1] @ replicate (256 - (unat stop - unat start)) x) = 256"
    for f :: "nat \<Rightarrow> bytes32" and x using le by simp
  ultimately show ?thesis
    using get_merkle_root_commitments_eq [OF assms(1,2) le(1,3) assms(5)] length_list_root [OF assms(6)]
    by (simp add: fill_row_def Let_def)
qed

lemma fill_loop_rows:
  assumes con: "connected c" and small: "unat stop + 200 < 2 ^ 32" "unat stop + 256 < 2 ^ 32"
    and served: "\<forall>i. unat start < i \<and> i \<le> unat stop \<longrightarrow> get_header c (of_nat i) = Inr (hdr i)"
    and sha: "\<forall>m. length (c_sha256 c m) = 32" and range: "start < stop"
  shows "\<exists>rows. fill_loop c start stop = Inr rows \<and> rows \<noteq> []
    \<and> linked_rows (\<lambda>b. c_header_hash c (hdr (unat b))) start rows stop"
  using served range
proof (induction "unat stop - unat start" arbitrary: start rule: less_induct)
  case less
  let ?H = "\<lambda>b. c_header_hash c (hdr (unat b))" and ?next = "start + 256"
  have lt: "unat start < unat stop" using less.prems(2) by (simp add: word_less_nat_alt)
  then have limit: "add_ck start 256 = Inr ?next" "unat ?next = unat start + 256"
    using small(2) by (simp_all add: add_ck_def unat_word_ariths)
  let ?e = "min ?next stop"
  have e: "start < ?e" "unat ?e \<le> unat start + 256" "unat ?e \<le> unat stop"
    using lt limit(2) by (auto simp: min_def word_less_nat_alt word_le_nat_alt)
  obtain r where r: "fill_row c start ?e = Inr r" "br_start r = start" "br_end r = ?e" "br_header_hash r = ?H ?e"
    using fill_row_eq [OF con _ e(1,2), of hdr] small e(3) less.prems(1) sha by auto
  show ?case
  proof (cases "?next < stop")
    case True
    then have "unat stop - unat ?next < unat stop - unat start"
      using limit(2) lt by (simp add: word_less_nat_alt)
    from less.hyps [OF this] obtain rows where "fill_loop c ?next stop = Inr rows" "linked_rows ?H ?next rows stop"
      using less.prems(1) limit(2) True by auto
    moreover have "?e = ?next" using True by (intro min_absorb1) simp
    ultimately show ?thesis
      using r e less.prems(2) limit(1) by (subst fill_loop.simps) auto
  next
    case False
    then have "fill_loop c ?next stop = Inr []" "?e = stop"
      by (subst fill_loop.simps, simp) (use False in \<open>intro min_absorb2, simp\<close>)
    then show ?thesis
      using r e less.prems(2) limit(1) by (subst fill_loop.simps) auto
  qed
qed

lemma linked_rows_ends:
  assumes "linked_rows H a rows b" and "rows \<noteq> []"
  shows "br_start (rows ! 0) = a" and "br_end (rows ! (length rows - 1)) = b"
proof -
  have "br_end (last rows) = b" using assms
  proof (induction rows arbitrary: a)
    case (Cons r rows)
    then show ?case by (cases "rows = []") auto
  qed simp
  then show "br_end (rows ! (length rows - 1)) = b" using assms(2) by (simp add: last_conv_nth)
  show "br_start (rows ! 0) = a" using assms by (cases rows) simp_all
qed

text \<open>The contract takes such rows.\<close>

lemma store_linked_rows:
  assumes "linked_rows H a rows b"
  shows "\<exists>s' evs. store_ranges keccak rows s = Inr (s', evs) \<and> contiguous a (stored_ranges evs) b
    \<and> vx_set_hash s' = vx_set_hash s \<and> (rows \<noteq> [] \<longrightarrow> vx_header_hash s' b = H b)
    \<and> (\<forall>n h. HeadUpdate n h \<in> set evs \<longrightarrow> h = H n)"
  using assms
proof (induction rows arbitrary: a s)
  case (Cons r rows)
  define s1 where "s1 = s\<lparr>vx_data_commitments := (vx_data_commitments s)(keccak (abi_range (br_start r) (br_end r)) := br_data r),
    vx_state_commitments := (vx_state_commitments s)(keccak (abi_range (br_start r) (br_end r)) := br_state r),
    vx_range_start := (vx_range_start s)(keccak (abi_range (br_start r) (br_end r)) := br_start r),
    vx_header_hash := (vx_header_hash s)(br_end r := br_header_hash r)\<rparr>"
  obtain s' evs where rest: "store_ranges keccak rows s1 = Inr (s', evs)" "contiguous (br_end r) (stored_ranges evs) b"
    "vx_set_hash s' = vx_set_hash s1" "rows \<noteq> [] \<longrightarrow> vx_header_hash s' b = H b"
    "\<forall>n h. HeadUpdate n h \<in> set evs \<longrightarrow> h = H n"
    using Cons.IH [of "br_end r" s1] Cons.prems by auto
  have link: "rows = [] \<or> br_end r = br_start (hd rows)" using Cons.prems by (cases rows) simp_all
  have "store_ranges keccak (r # rows) s = Inr (s', HeadUpdate (br_end r) (br_header_hash r)
      # HeaderRangeCommitmentStored (br_start r) (br_end r) (br_data r) (br_state r) # evs)"
    using link rest(1) by (simp add: Let_def s1_def)
  moreover have "vx_header_hash s' b = H b"
    using rest(1,4) Cons.prems by (cases "rows = []") (auto simp: s1_def)
  ultimately show ?case using rest Cons.prems by (auto simp: s1_def)
qed simp

section \<open>Filling a contract\<close>

text \<open>On a node that serves the blocks up to \<open>stop\<close>, the script computes data that the contract takes.\<close>

lemma filled_ranges:
  assumes "connected c" and "unat stop + 256 < 2 ^ 32" and "vx_latest_block s < stop"
    and "\<forall>i. unat (vx_latest_block s) < i \<and> i \<le> unat stop \<longrightarrow> get_header c (of_nat i) = Inr (hdr i)"
    and "\<forall>m. length (c_sha256 c m) = 32"
    and "get_authority_set_id c stop = Inr set_id" and "authority_set_hash_at c stop = Inr set_hash"
  obtains d s' evs where "get_block_range_data c (vx_latest_block s) stop = Inr d"
    and "update_block_range_data keccak True (bd_start_blocks d) (bd_end_blocks d) (bd_header_hashes d)
      (bd_data_root_commitments d) (bd_state_root_commitments d) (bd_end_authority_set_id d)
      (bd_end_authority_set_hash d) s = Inr (s', evs)"
    and "vx_latest_block s' = stop" and "contiguous (vx_latest_block s) (stored_ranges evs) stop"
    and "vx_set_hash s' set_id = set_hash" and "vx_header_hash s' stop = c_header_hash c (hdr (unat stop))"
    and "\<forall>n h. HeadUpdate n h \<in> set evs \<longrightarrow> h = c_header_hash c (hdr (unat n))"
proof -
  let ?H = "\<lambda>b. c_header_hash c (hdr (unat b))"
  obtain rows where rows: "fill_loop c (vx_latest_block s) stop = Inr rows" "rows \<noteq> []"
    "linked_rows ?H (vx_latest_block s) rows stop"
    using fill_loop_rows [OF assms(1) _ assms(2,4,5,3)] assms(2) by auto
  obtain s' evs where store: "store_ranges keccak rows s = Inr (s', evs)" "contiguous (vx_latest_block s) (stored_ranges evs) stop"
    "vx_header_hash s' stop = ?H stop" "\<forall>n h. HeadUpdate n h \<in> set evs \<longrightarrow> h = ?H n"
    using store_linked_rows [OF rows(3), of keccak s] rows(2) by blast
  have zip: "zip_ranges (map br_start rows) (map br_end rows) (map br_header_hash rows) (map br_data rows)
      (map br_state rows) = rows"
    by (auto simp: zip_ranges_def intro: nth_equalityI)
  note ends = linked_rows_ends [OF rows(3,2)]
  define d where "d = \<lparr>bd_start_blocks = map br_start rows, bd_end_blocks = map br_end rows,
    bd_header_hashes = map br_header_hash rows, bd_data_root_commitments = map br_data rows,
    bd_state_root_commitments = map br_state rows, bd_end_authority_set_id = set_id,
    bd_end_authority_set_hash = set_hash\<rparr>"
  show ?thesis
    by (rule that [of d "s'\<lparr>vx_set_hash := (vx_set_hash s')(set_id := set_hash), vx_latest_block := stop\<rparr>" evs])
      (use rows(1,2) assms(6,7) store ends
        in \<open>simp_all add: get_block_range_data_def update_block_range_data_def zip d_def\<close>)
qed

text \<open>The script and the contract fit: on a node that serves the blocks after the contract's latest one
  up to the given block, the guardian's transaction succeeds, moves the head to that block, stores
  commitments of consecutive ranges without a gap, the header hash of the chain at each of their ends, and
  the authority set of the last block.\<close>

theorem filled_ranges_accepted:
  assumes "connected c" and "unat stop + 256 < 2 ^ 32" and "vx_latest_block s < stop"
    and "\<forall>i. unat (vx_latest_block s) < i \<and> i \<le> unat stop \<longrightarrow> get_header c (of_nat i) = Inr (hdr i)"
    and "\<forall>m. length (c_sha256 c m) = 32"
    and "get_authority_set_id c stop = Inr set_id" and "authority_set_hash_at c stop = Inr set_hash"
  shows "\<exists>s' evs. post_block_range keccak c stop s = Inr (Inr (s', evs)) \<and> vx_latest_block s' = stop
    \<and> contiguous (vx_latest_block s) (stored_ranges evs) stop \<and> vx_set_hash s' set_id = set_hash
    \<and> vx_header_hash s' stop = c_header_hash c (hdr (unat stop))
    \<and> (\<forall>n h. HeadUpdate n h \<in> set evs \<longrightarrow> h = c_header_hash c (hdr (unat n)))"
  by (rule filled_ranges [OF assms, of keccak]) (auto simp: post_block_range_def)

text \<open>A node that serves 500 blocks after a contract at block 1.\<close>

lemma fill_example:
  fixes c defines "c \<equiv> finality_client three_keys"
  shows "connected c" "vx_latest_block linked_contract = 1"
    and "\<forall>i. unat (vx_latest_block linked_contract) < i \<and> i \<le> unat (500 :: u32)
      \<longrightarrow> get_header c (of_nat i) = Inr (numbered_header i)"
    and "\<forall>m. length (c_sha256 c m) = 32" "get_authority_set_id c 500 = Inr 2"
    and "authority_set_hash_at c 500 = Inr (compute_authority_set_hash toy_digest three_keys)"
proof -
  show "connected c" "vx_latest_block linked_contract = 1"
    by (simp_all add: c_def proving_client_simps(1) linked_contract_def initialize_vx_def)
  then show "\<forall>i. unat (vx_latest_block linked_contract) < i \<and> i \<le> unat (500 :: u32)
      \<longrightarrow> get_header c (of_nat i) = Inr (numbered_header i)"
    unfolding c_def using proving_client_simps(7) by simp
  show "get_authority_set_id c 500 = Inr 2"
    unfolding c_def using proving_client_simps(6) [of 500] by (simp add: example_ids_def)
  have "get_authorities c 500 = Inr three_keys"
    unfolding c_def using proving_client_simps(8) [of 500 "\<lambda>i. three_keys"] by (simp add: three_keys_def)
  then show "authority_set_hash_at c 500 = Inr (compute_authority_set_hash toy_digest three_keys)"
    by (simp add: authority_set_hash_at_def c_def proving_client_simps(4) three_keys_hash)
  show "\<forall>m. length (c_sha256 c m) = 32" by (simp add: c_def proving_client_simps(4)) (simp add: toy_digest_def)
qed

theorem filled_ranges_accepted_witness:
  "\<exists>s' evs. post_block_range toy_digest (finality_client three_keys) 500 linked_contract = Inr (Inr (s', evs))
    \<and> vx_latest_block s' = 500 \<and> contiguous 1 (stored_ranges evs) 500"
  using filled_ranges_accepted [OF fill_example(1) _ _ fill_example(3-6), of toy_digest]
  by (auto simp: fill_example(2) word_less_nat_alt)

end
