(* ===== verification/Programs.thy ===== *)
theory Programs
  imports Configuration Operator Event_Listener Block_Filler
begin

text \<open>
  The programs from their \<open>main\<close> functions on: the operator (\<open>bin/vectorx.rs\<close>), the event listener
  (\<open>bin/events.rs\<close>), the block range script (\<open>bin/fill_block_range.rs\<close>), the genesis script
  (\<open>bin/genesis.rs\<close>) and the indexer (\<open>bin/indexer.rs\<close>), over the environment and the services of theory
  \<open>Configuration\<close>. Every variable that is missing or does not parse is a branch. The log lines and the
  sleep between two iterations of the operator are left out.
\<close>

section \<open>The operator\<close>

record vectorx_operator =
  vo_config :: vectorx_config
  vo_contract :: "string \<times> nat"    \<comment> \<open>the provider's URL and the address\<close>
  vo_client :: "string \<times> string"   \<comment> \<open>URL and key of the proving service\<close>
  vo_data_fetcher :: client

definition vectorx_operator_new :: "services \<Rightarrow> environment \<Rightarrow> client \<Rightarrow> vectorx_operator host" where
  "vectorx_operator_new W env data_fetcher =
     bind_h (expect_msg ''CONTRACT_ADDRESS must be set'' (env ''CONTRACT_ADDRESS'')) (\<lambda>contract_address.
     bind_h (expect_msg ''CHAIN_ID must be set'' (env ''CHAIN_ID'')) (\<lambda>chain_id.
     bind_h (expect_msg ''invalid address'' (sv_address W contract_address)) (\<lambda>address.
     bind_h (expect_msg ''ETHEREUM_RPC_URL must be set'' (env ''ETHEREUM_RPC_URL'')) (\<lambda>ethereum_rpc_url.
     bind_h (assert_h (Panic ''could not connect to client'') (sv_http W ethereum_rpc_url)) (\<lambda>_.
     bind_h (expect_msg ''invalid chain id'' (parse_word chain_id)) (\<lambda>chain_number.
     bind_h (expect_msg ''SUCCINCT_RPC_URL must be set'' (env ''SUCCINCT_RPC_URL'')) (\<lambda>succinct_rpc_url.
     bind_h (expect_msg ''SUCCINCT_API_KEY must be set'' (env ''SUCCINCT_API_KEY'')) (\<lambda>succinct_api_key.
     Inr \<lparr>vo_config = \<lparr>cfg_address = address, cfg_chain_id = chain_number\<rparr>,
       vo_contract = (ethereum_rpc_url, address), vo_client = (succinct_rpc_url, succinct_api_key),
       vo_data_fetcher = data_fetcher\<rparr>))))))))"

definition default_loop_delay_mins :: u64 where "default_loop_delay_mins = 5"

text \<open>\<open>snapshots\<close> are the states of the chain and of the contract that the iterations of the operator meet.\<close>

definition vectorx_main ::
    "services \<Rightarrow> environment \<Rightarrow> (vectorx_operator \<Rightarrow> (client \<times> vectorx) list) \<Rightarrow> platform_request list list host" where
  "vectorx_main W env snapshots =
     bind_h (rpc_data_fetcher_new W env) (\<lambda>data_fetcher.
     bind_h (number_or env ''LOOP_DELAY_MINS'' ''invalid LOOP_DELAY_MINS'' default_loop_delay_mins) (\<lambda>loop_delay_mins.
     bind_h (number_or env ''UPDATE_DELAY_BLOCKS'' ''invalid UPDATE_DELAY_BLOCKS'' default_update_delay_blocks)
       (\<lambda>update_delay_blocks.
     bind_h (vectorx_operator_new W env data_fetcher) (\<lambda>operator.
     run (vo_config operator) update_delay_blocks DATA_COMMITMENT_MAX (snapshots operator)))))"

section \<open>The event listener\<close>

definition address_bytes :: "nat \<Rightarrow> byte list" where "address_bytes a = rev (nat_le 20 a)"

definition listen_for_events_at ::
    "services \<Rightarrow> environment \<Rightarrow> 'r redis \<Rightarrow> (byte list \<Rightarrow> (u32 \<times> u32 \<times> bytes32 \<times> bytes32) option)
      \<Rightarrow> string \<Rightarrow> string \<Rightarrow> 'r \<Rightarrow> 'r host" where
  "listen_for_events_at W env R abi_decode ethereum_ws contract_address r =
     bind_h (expect_msg ''invalid address'' (sv_address W contract_address)) (\<lambda>address.
     bind_h (expect_msg ''could not connect to client'' (sv_ws W ethereum_ws)) (\<lambda>client.
     bind_h (unwrap (ws_chain_id client)) (\<lambda>chain_id.
     bind_h (rpc_data_fetcher_new W env) (\<lambda>data_fetcher.
     bind_h (unwrap (ws_logs client address)) (\<lambda>logs.
     listen_for_events R data_fetcher abi_decode chain_id (address_bytes address) logs r)))))"

text \<open>\<open>str::to_uppercase\<close> on the names of the chains, which are ASCII.\<close>

definition upper :: "char \<Rightarrow> char" where
  "upper ch = (let n = of_char ch :: nat in if 97 \<le> n \<and> n \<le> 122 then char_of (n - 32) else ch)"

definition indexed_chain_names :: "string list" where "indexed_chain_names = [''Couscous'', ''Goldberg'']"

text \<open>The loop over the chains fills two vectors in step.\<close>

fun chains_to_index :: "environment \<Rightarrow> string list \<Rightarrow> string list \<times> string list" where
  "chains_to_index env [] = ([], [])"
| "chains_to_index env (chain # rest) =
     (let ethereum_ws = env (map upper chain @ ''_ETHEREUM_WS'');
          contract_address = env (map upper chain @ ''_CONTRACT_ADDRESS'');
          (ethereum_ws_vec, contract_addresses) = chains_to_index env rest
      in case (ethereum_ws, contract_address) of
           (Some ws, Some address) \<Rightarrow> (ws # ethereum_ws_vec, address # contract_addresses)
         | _ \<Rightarrow> (ethereum_ws_vec, contract_addresses))"

declare chains_to_index.simps(2) [simp del]

text \<open>The spawned tasks, one after the other; a panic of any of them is one of \<open>main\<close> when it is joined.\<close>

fun join_tasks :: "('r \<Rightarrow> 'r host) list \<Rightarrow> 'r \<Rightarrow> 'r host" where
  "join_tasks [] r = Inr r"
| "join_tasks (task # tasks) r =
     (case task r of Inl e \<Rightarrow> Inl (Panic ''Task panicked or failed'') | Inr r' \<Rightarrow> join_tasks tasks r')"

definition events_main ::
    "services \<Rightarrow> environment \<Rightarrow> 'r redis \<Rightarrow> (byte list \<Rightarrow> (u32 \<times> u32 \<times> bytes32 \<times> bytes32) option) \<Rightarrow> 'r \<Rightarrow> 'r host" where
  "events_main W env R abi_decode r =
     (let (ethereum_ws_vec, contract_addresses) = chains_to_index env indexed_chain_names
      in join_tasks (map (\<lambda>(ethereum_ws, contract_address).
           listen_for_events_at W env R abi_decode ethereum_ws contract_address)
           (zip ethereum_ws_vec contract_addresses)) r)"

section \<open>The block range script\<close>

record fill_block_range_args =
  fa_end_block :: u32
  fa_post :: bool

datatype fill_outcome = Posted vectorx "vx_event list" | Printed block_range_data

definition default_private_key :: string where
  "default_private_key = ''0x00000000000000000000000000000000''"

text \<open>\<open>contract\<close> is the contract behind a provider and an address, \<open>guardian\<close> says which signers have the role.
  A call that reverts is an error that \<open>main\<close> unwraps.\<close>

definition fill_block_range_main ::
    "(byte list \<Rightarrow> bytes32) \<Rightarrow> services \<Rightarrow> (string \<Rightarrow> nat \<Rightarrow> vectorx option) \<Rightarrow> (nat \<Rightarrow> bool) \<Rightarrow> environment
      \<Rightarrow> fill_block_range_args \<Rightarrow> fill_outcome host" where
  "fill_block_range_main keccak W contract guardian env args =
     bind_h (expect_msg ''CONTRACT_ADDRESS must be set'' (env ''CONTRACT_ADDRESS'')) (\<lambda>contract_address.
     bind_h (expect_msg ''invalid address'' (sv_address W contract_address)) (\<lambda>address.
     bind_h (expect_msg ''ETHEREUM_RPC_URL must be set'' (env ''ETHEREUM_RPC_URL'')) (\<lambda>ethereum_rpc_url.
     let private_key = (case env ''PRIVATE_KEY'' of None \<Rightarrow> default_private_key | Some key \<Rightarrow> key) in
     bind_h (expect_msg ''CHAIN_ID must be set'' (env ''CHAIN_ID'')) (\<lambda>chain_id.
     bind_h (expect_msg ''invalid private key'' (sv_wallet W private_key)) (\<lambda>signer.
     bind_h (unwrap (parse_word chain_id :: u64 option)) (\<lambda>_.
     bind_h (assert_h (Panic ''could not connect to client'') (sv_http W ethereum_rpc_url)) (\<lambda>_.
     bind_h (unwrap (contract ethereum_rpc_url address)) (\<lambda>s.
     bind_h (rpc_data_fetcher_new W env) (\<lambda>c.
     bind_h (get_block_range_data c (vx_latest_block s) (fa_end_block args)) (\<lambda>d.
     if fa_post args then
       (case update_block_range_data keccak (guardian signer) (bd_start_blocks d) (bd_end_blocks d)
           (bd_header_hashes d) (bd_data_root_commitments d) (bd_state_root_commitments d)
           (bd_end_authority_set_id d) (bd_end_authority_set_hash d) s of
          Inl e \<Rightarrow> Inl Unwrap_none
        | Inr (s', evs) \<Rightarrow> Inr (Posted s' evs))
     else Inr (Printed d)))))))))))"

section \<open>The genesis script and the indexer\<close>

definition genesis_main :: "services \<Rightarrow> environment \<Rightarrow> u32 option \<Rightarrow> (bytes32 \<times> u64 \<times> bytes32) host" where
  "genesis_main W env block_arg =
     bind_h (rpc_data_fetcher_new W env) (\<lambda>fetcher.
     let genesis_block = (case block_arg of None \<Rightarrow> 1 | Some b \<Rightarrow> b) in
     genesis_parameters fetcher genesis_block)"

text \<open>The indexer builds the fetcher from its fields; the Redis commands are those under the chain's keys.\<close>

definition indexer_main ::
    "services \<Rightarrow> environment \<Rightarrow> (string \<Rightarrow> 'r redis) \<Rightarrow> (byte list \<Rightarrow> bytes32)
      \<Rightarrow> (byte list \<Rightarrow> byte list \<Rightarrow> bytes32 \<Rightarrow> bool) \<Rightarrow> grandpa_justification option list \<Rightarrow> 'r \<Rightarrow> 'r host" where
  "indexer_main W env R blake2 sp_verify sub r =
     bind_h (unwrap (env ''AVAIL_URL'')) (\<lambda>avail_url.
     bind_h (unwrap (env ''AVAIL_CHAIN_ID'')) (\<lambda>avail_chain_id.
     bind_h (unwrap (sv_node W avail_url)) (\<lambda>node.
     bind_h (redis_client_new W env) (\<lambda>redis.
     listen_for_justifications (R avail_chain_id) blake2 sp_verify (fetcher_over node redis avail_chain_id) sub r))))"

text \<open>The test of the fetcher that only prints two answers of the node.\<close>

definition test_system_chain :: "services \<Rightarrow> environment \<Rightarrow> unit host" where
  "test_system_chain W env = bind_h (rpc_data_fetcher_new W env) (\<lambda>data_fetcher. Inr ())"

lemma test_system_chain_iff: "test_system_chain W env = Inr () \<longleftrightarrow> (\<exists>c. fetcher_env W env c)"
  by (auto simp: test_system_chain_def bind_h_Inr_iff rpc_data_fetcher_new_iff)

section \<open>A started operator\<close>

text \<open>The variables that the operator needs, and the operator made of them.\<close>

definition operator_env :: "services \<Rightarrow> environment \<Rightarrow> vectorx_operator \<Rightarrow> bool" where
  "operator_env W env op \<longleftrightarrow> fetcher_env W env (vo_data_fetcher op)
     \<and> (\<exists>contract_address chain_id url succinct_url key address chain_number.
          env ''CONTRACT_ADDRESS'' = Some contract_address \<and> sv_address W contract_address = Some address
          \<and> env ''CHAIN_ID'' = Some chain_id \<and> parse_word chain_id = Some chain_number
          \<and> env ''ETHEREUM_RPC_URL'' = Some url \<and> sv_http W url
          \<and> env ''SUCCINCT_RPC_URL'' = Some succinct_url \<and> env ''SUCCINCT_API_KEY'' = Some key
          \<and> op = \<lparr>vo_config = \<lparr>cfg_address = address, cfg_chain_id = chain_number\<rparr>, vo_contract = (url, address),
              vo_client = (succinct_url, key), vo_data_fetcher = vo_data_fetcher op\<rparr>)"

lemma vectorx_operator_new_iff:
  "fetcher_env W env c \<Longrightarrow> vectorx_operator_new W env c = Inr op \<longleftrightarrow> operator_env W env op \<and> vo_data_fetcher op = c"
  by (auto simp: vectorx_operator_new_def operator_env_def bind_h_Inr_iff)

text \<open>A delay of \<open>k\<close> blocks: the default, or printed in the variable. The sleep only has to parse.\<close>

definition delay_setting :: "environment \<Rightarrow> nat \<Rightarrow> bool" where
  "delay_setting env k \<longleftrightarrow> env ''UPDATE_DELAY_BLOCKS'' = None \<and> k = 200
     \<or> env ''UPDATE_DELAY_BLOCKS'' = Some (show_nat k) \<and> k < 2 ^ 32"

definition loop_setting :: "environment \<Rightarrow> bool" where
  "loop_setting env \<longleftrightarrow> env ''LOOP_DELAY_MINS'' = None
     \<or> (\<exists>m. env ''LOOP_DELAY_MINS'' = Some (show_nat m) \<and> m < 2 ^ 64)"

lemma vectorx_main_eq:
  assumes "operator_env W env op" and "loop_setting env" and "delay_setting env k"
  shows "vectorx_main W env snapshots = run (vo_config op) (of_nat k) DATA_COMMITMENT_MAX (snapshots op)"
proof -
  have c: "fetcher_env W env (vo_data_fetcher op)" using assms(1) by (simp add: operator_env_def)
  then have "rpc_data_fetcher_new W env = Inr (vo_data_fetcher op)" by (simp add: rpc_data_fetcher_new_iff)
  moreover have "vectorx_operator_new W env (vo_data_fetcher op) = Inr op"
    using assms(1) vectorx_operator_new_iff [OF c] by blast
  moreover have "\<exists>m. number_or env ''LOOP_DELAY_MINS'' ''invalid LOOP_DELAY_MINS'' default_loop_delay_mins = Inr m"
    using assms(2) by (auto simp: loop_setting_def parse_show)
  moreover have "number_or env ''UPDATE_DELAY_BLOCKS'' ''invalid UPDATE_DELAY_BLOCKS'' default_update_delay_blocks
      = Inr (of_nat k)"
    using assms(3) by (auto simp: delay_setting_def parse_show default_update_delay_blocks_def)
  ultimately show ?thesis by (auto simp: vectorx_main_def)
qed

text \<open>What an iteration relies on: a chain that is served and whose sets change one at a time, and a contract
  whose head is one of its blocks.\<close>

definition operating :: "client \<Rightarrow> vectorx \<Rightarrow> nat \<Rightarrow> (nat \<Rightarrow> nat) \<Rightarrow> bool" where
  "operating c s head ids \<longleftrightarrow> id_chain c head ids \<and> unit_steps head ids \<and> ids head + 1 < 2 ^ 64
     \<and> 0 < unat (vx_latest_block s) \<and> unat (vx_latest_block s) \<le> head \<and> unat (vx_latest_block s) + 256 < 2 ^ 32"

text \<open>What it then submits.\<close>

definition submits :: "vectorx_config \<Rightarrow> nat \<Rightarrow> client \<times> vectorx \<Rightarrow> platform_request list \<Rightarrow> bool" where
  "submits cfg k = (\<lambda>(c, s) qs. \<exists>head ids hqs. operating c s head ids \<and> qs = rotate_requests cfg ids head s @ hqs
     \<and> header_requests cfg ids s (block_to_request head (unat (vx_latest_block s)) k 256) hqs)"

lemma operating_submits:
  assumes "operating c s head ids" and "0 < k" and "k < 2 ^ 32"
  shows "\<exists>qs. run_once cfg c s (of_nat k) DATA_COMMITMENT_MAX = Inr qs \<and> submits cfg k (c, s) qs"
proof -
  have k: "unat (of_nat k :: u32) = k" by (rule unat_of_nat_small) (use assms(3) in simp)
  then have "0 < (of_nat k :: u32)" using assms(2) by (simp add: word_less_nat_alt)
  moreover have "unat DATA_COMMITMENT_MAX = 256" by (simp add: DATA_COMMITMENT_MAX_def)
  ultimately obtain qs where "run_once cfg c s (of_nat k) DATA_COMMITMENT_MAX = Inr (rotate_requests cfg ids head s @ qs)"
    "header_requests cfg ids s (block_to_request head (unat (vx_latest_block s)) k 256) qs"
    using run_once_eq [of c head ids s "of_nat k" DATA_COMMITMENT_MAX cfg] assms(1) k
    by (auto simp: operating_def add.commute)
  then show ?thesis using assms(1) by (auto simp: submits_def)
qed

text \<open>C12. A started operator works: if the environment has every variable it needs, \<open>main\<close> runs with the
  configured address and chain, the delay of \<open>UPDATE_DELAY_BLOCKS\<close> in decimal digits (200 if it is not set)
  and ranges of at most 256 blocks; on a served chain it never panics, whatever states of chain and contract
  its iterations meet, and each of them submits exactly the requests that are due.\<close>

theorem operator_started:
  assumes "operator_env W env op" and "loop_setting env" and "delay_setting env k" and "0 < k"
    and "\<forall>(c, s)\<in>set (snapshots op). \<exists>head ids. operating c s head ids"
  shows "\<exists>qss. vectorx_main W env snapshots = Inr qss \<and> list_all2 (submits (vo_config op) k) (snapshots op) qss"
proof -
  have k: "k < 2 ^ 32" using assms(3) by (auto simp: delay_setting_def)
  have "\<exists>qss. run cfg (of_nat k) DATA_COMMITMENT_MAX xs = Inr qss \<and> list_all2 (submits cfg k) xs qss"
    if "\<forall>(c, s)\<in>set xs. \<exists>head ids. operating c s head ids" for cfg xs
    using that
  proof (induction xs)
    case (Cons x xs)
    obtain c s where x: "x = (c, s)" by (cases x)
    then obtain qs where "run_once cfg c s (of_nat k) DATA_COMMITMENT_MAX = Inr qs" "submits cfg k x qs"
      using operating_submits [OF _ assms(4) k] Cons.prems by fastforce
    with Cons show ?case by (auto simp: run_def x)
  qed (simp add: run_def)
  then show ?thesis using vectorx_main_eq [OF assms(1-3)] assms(5) by simp
qed

text \<open>C36. A delay of zero blocks is accepted by \<open>main\<close> and panics in the first iteration, in the remainder by
  the interval, after the rotation has been requested.\<close>

theorem zero_delay_panics:
  assumes "operator_env W env op" and "loop_setting env" and "env ''UPDATE_DELAY_BLOCKS'' = Some ''0''"
    and "snapshots op = (c, s) # rest" and "operating c s head ids"
  shows "vectorx_main W env snapshots = Inl (Panic ''remainder with a divisor of zero'')
    \<and> find_and_request_rotate (vo_config op) c s = Inr (rotate_requests (vo_config op) ids head s)"
proof
  have "show_nat 0 = ''0''" by code_simp
  then have main: "vectorx_main W env snapshots = run (vo_config op) 0 DATA_COMMITMENT_MAX ((c, s) # rest)"
    using vectorx_main_eq [OF assms(1,2), of 0 snapshots] assms(3,4) by (simp add: delay_setting_def)
  show rotate: "find_and_request_rotate (vo_config op) c s = Inr (rotate_requests (vo_config op) ids head s)"
    by (rule find_rotate) (use assms(5) in \<open>auto simp: operating_def\<close>)
  obtain h where "get_head c = Inr h" using assms(5) by (auto simp: operating_def id_chain_def)
  moreover have "\<exists>l. add_ck DATA_COMMITMENT_MAX (vx_latest_block s) = Inr l"
    using assms(5) by (simp add: operating_def add_ck_def DATA_COMMITMENT_MAX_def)
  ultimately show "vectorx_main W env snapshots = Inl (Panic ''remainder with a divisor of zero'')"
    using rotate by (auto simp: main run_def run_once_def Let_def)
qed

section \<open>The configured listeners\<close>

text \<open>A chain whose two variables are not both set, or one whose contract emits the events of \<open>evs\<close> on the
  Ethereum chain \<open>chain_id\<close>; the name is in upper case.\<close>

definition chain_setting ::
    "services \<Rightarrow> environment \<Rightarrow> string \<Rightarrow> (u64 \<times> nat \<times> vx_event list) option \<Rightarrow> bool" where
  "chain_setting W env name x \<longleftrightarrow>
     (case x of None \<Rightarrow> env (name @ ''_ETHEREUM_WS'') = None \<or> env (name @ ''_CONTRACT_ADDRESS'') = None
      | Some (chain_id, address, evs) \<Rightarrow> \<exists>ws contract_address client.
          env (name @ ''_ETHEREUM_WS'') = Some ws \<and> env (name @ ''_CONTRACT_ADDRESS'') = Some contract_address
          \<and> sv_address W contract_address = Some address \<and> sv_ws W ws = Some client
          \<and> ws_chain_id client = Some chain_id \<and> ws_logs client address = Some (stored_logs evs)
          \<and> list_all wf_event evs)"

fun record_chain :: "'r redis \<Rightarrow> (u64 \<times> nat \<times> vx_event list) option \<Rightarrow> 'r \<Rightarrow> 'r host" where
  "record_chain R None r = Inr r"
| "record_chain R (Some (chain_id, address, evs)) r = add_ranges R chain_id (address_bytes address) (recorded evs) r"

lemma listens_at:
  assumes "decodes_ranges abi_decode" and "fetcher_env W env c" and "get_connection c = Inr ()"
    and "sv_address W contract_address = Some address" and "sv_ws W ws = Some client"
    and "ws_chain_id client = Some chain_id" and "ws_logs client address = Some (stored_logs evs)"
    and "list_all wf_event evs"
  shows "listen_for_events_at W env R abi_decode ws contract_address
    = record_chain R (Some (chain_id, address, evs))"
proof
  fix r
  have "rpc_data_fetcher_new W env = Inr c" using assms(2) by (simp add: rpc_data_fetcher_new_iff)
  then show "listen_for_events_at W env R abi_decode ws contract_address r
      = record_chain R (Some (chain_id, address, evs)) r"
    using assms(4-7) listener_records_ranges [OF assms(1,3,8), of R chain_id "address_bytes address" r]
    by (simp add: listen_for_events_at_def)
qed

text \<open>One chain of the list.\<close>

lemma chains_to_index_step:
  assumes "decodes_ranges abi_decode" and "fetcher_env W env c" and "get_connection c = Inr ()"
    and "chain_setting W env (map upper chain) x"
    and "task = (\<lambda>(ws, address). listen_for_events_at W env R abi_decode ws address)"
  shows "\<exists>ts. map task (case_prod zip (chains_to_index env (chain # rest)))
      = ts @ map task (case_prod zip (chains_to_index env rest))
    \<and> (\<forall>us r r'. join_tasks (ts @ us) r = Inr r' \<longleftrightarrow> (\<exists>r1. record_chain R x r = Inr r1 \<and> join_tasks us r1 = Inr r'))"
proof (cases x)
  case None
  then show ?thesis
    using assms(4) by (intro exI [of _ "[]"]) (auto simp: chains_to_index.simps(2) chain_setting_def Let_def split: option.splits prod.splits)
next
  case (Some y)
  obtain chain_id address evs where y: "y = (chain_id, address, evs)" by (cases y)
  obtain ws contract_address client where vars: "env (map upper chain @ ''_ETHEREUM_WS'') = Some ws"
    "env (map upper chain @ ''_CONTRACT_ADDRESS'') = Some contract_address"
    and served: "sv_address W contract_address = Some address" "sv_ws W ws = Some client"
    "ws_chain_id client = Some chain_id" "ws_logs client address = Some (stored_logs evs)" "list_all wf_event evs"
    using assms(4) by (auto simp: chain_setting_def Some y)
  note listens = listens_at [OF assms(1-3) served, of R]
  have "map task (case_prod zip (chains_to_index env (chain # rest)))
      = record_chain R x # map task (case_prod zip (chains_to_index env rest))"
    using vars listens by (simp add: chains_to_index.simps(2) assms(5) Some y Let_def split: prod.splits)
  moreover have "join_tasks (record_chain R x # us) r = Inr r'
      \<longleftrightarrow> (\<exists>r1. record_chain R x r = Inr r1 \<and> join_tasks us r1 = Inr r')" for us r r'
    by (cases "record_chain R x r") simp_all
  ultimately show ?thesis by (intro exI [of _ "[record_chain R x]"]) simp
qed

lemma upper_names: "map upper ''Couscous'' = ''COUSCOUS''" "map upper ''Goldberg'' = ''GOLDBERG''"
  by code_simp+

text \<open>C16. The event listener records exactly the configured chains: of Couscous and Goldberg, a chain whose
  two variables are set has every range that its contract stored added under its chain id and address, in
  the order of the logs; a chain with a variable missing is skipped; and no other variable matters.\<close>

theorem events_main_records:
  assumes "decodes_ranges abi_decode" and "fetcher_env W env c" and "get_connection c = Inr ()"
    and "chain_setting W env ''COUSCOUS'' x" and "chain_setting W env ''GOLDBERG'' y"
  shows "events_main W env R abi_decode r = Inr r'
    \<longleftrightarrow> (\<exists>r1. record_chain R x r = Inr r1 \<and> record_chain R y r1 = Inr r')"
proof -
  define task where "task = (\<lambda>(ws, address). listen_for_events_at W env R abi_decode ws address)"
  note step = chains_to_index_step [OF assms(1-3) _ task_def]
  obtain ts where ts: "map task (case_prod zip (chains_to_index env [''Goldberg'']))
      = ts @ map task (case_prod zip (chains_to_index env []))"
    "\<forall>us r r'. join_tasks (ts @ us) r = Inr r' \<longleftrightarrow> (\<exists>r1. record_chain R y r = Inr r1 \<and> join_tasks us r1 = Inr r')"
    using step [of "''Goldberg''" y "[]"] assms(5) unfolding upper_names by blast
  obtain us where us: "map task (case_prod zip (chains_to_index env [''Couscous'', ''Goldberg'']))
      = us @ map task (case_prod zip (chains_to_index env [''Goldberg'']))"
    "\<forall>vs r r'. join_tasks (us @ vs) r = Inr r' \<longleftrightarrow> (\<exists>r1. record_chain R x r = Inr r1 \<and> join_tasks vs r1 = Inr r')"
    using step [of "''Couscous''" x "[''Goldberg'']"] assms(4) unfolding upper_names by blast
  have "events_main W env R abi_decode r
      = join_tasks (map task (case_prod zip (chains_to_index env [''Couscous'', ''Goldberg'']))) r"
    unfolding events_main_def indexed_chain_names_def task_def Let_def by (simp only: split_beta)
  then show ?thesis using us(2) ts(2) [rule_format, of "[]"] by (simp add: us(1) ts(1))
qed

section \<open>The block range script\<close>

text \<open>The variables of the script: the contract \<open>s\<close>, and the signer that the private key makes.\<close>

definition fill_env :: "services \<Rightarrow> environment \<Rightarrow> (string \<Rightarrow> nat \<Rightarrow> vectorx option) \<Rightarrow> vectorx \<Rightarrow> bool" where
  "fill_env W env contract s \<longleftrightarrow> (\<exists>contract_address address url chain_id.
     env ''CONTRACT_ADDRESS'' = Some contract_address \<and> sv_address W contract_address = Some address
     \<and> env ''ETHEREUM_RPC_URL'' = Some url \<and> sv_http W url \<and> contract url address = Some s
     \<and> env ''CHAIN_ID'' = Some (show_nat chain_id) \<and> chain_id < 2 ^ 64)"

lemma fill_block_range_main_eq:
  assumes "fill_env W env contract s" and "env ''PRIVATE_KEY'' = Some key" and "sv_wallet W key = Some signer"
    and "fetcher_env W env c" and "get_block_range_data c (vx_latest_block s) (fa_end_block args) = Inr d"
  shows "fill_block_range_main keccak W contract guardian env args =
    (if fa_post args then
       (case update_block_range_data keccak (guardian signer) (bd_start_blocks d) (bd_end_blocks d)
           (bd_header_hashes d) (bd_data_root_commitments d) (bd_state_root_commitments d)
           (bd_end_authority_set_id d) (bd_end_authority_set_hash d) s of
          Inl e \<Rightarrow> Inl Unwrap_none
        | Inr (s', evs) \<Rightarrow> Inr (Posted s' evs))
     else Inr (Printed d))"
proof -
  have "rpc_data_fetcher_new W env = Inr c" using assms(4) by (simp add: rpc_data_fetcher_new_iff)
  then show ?thesis
    using assms(1-3,5) by (auto simp: fill_block_range_main_def fill_env_def parse_show Let_def)
qed

text \<open>C15. From the command line to the storage: with the guardian's key, on a node that serves the blocks after
  the contract's latest one up to the given block, posting moves the contract's head to that block, stores
  commitments of consecutive ranges without a gap, the header hash of the chain at each of their ends, and
  the authority set of the last block; without \<open>--post\<close> the script prints the call that does just this.\<close>

theorem fill_block_range_fills:
  assumes "fill_env W env contract s" and "env ''PRIVATE_KEY'' = Some key" and "sv_wallet W key = Some signer"
    and "guardian signer" and "fetcher_env W env c"
    and "connected c" and "unat stop + 256 < 2 ^ 32" and "vx_latest_block s < stop"
    and "\<forall>i. unat (vx_latest_block s) < i \<and> i \<le> unat stop \<longrightarrow> get_header c (of_nat i) = Inr (hdr i)"
    and "\<forall>m. length (c_sha256 c m) = 32"
    and "get_authority_set_id c stop = Inr set_id" and "authority_set_hash_at c stop = Inr set_hash"
  shows "\<exists>d s' evs. fill_block_range_main keccak W contract guardian env \<lparr>fa_end_block = stop, fa_post = True\<rparr>
      = Inr (Posted s' evs)
    \<and> vx_latest_block s' = stop \<and> contiguous (vx_latest_block s) (stored_ranges evs) stop
    \<and> vx_set_hash s' set_id = set_hash \<and> vx_header_hash s' stop = c_header_hash c (hdr (unat stop))
    \<and> (\<forall>n h. HeadUpdate n h \<in> set evs \<longrightarrow> h = c_header_hash c (hdr (unat n)))
    \<and> fill_block_range_main keccak W contract guardian env \<lparr>fa_end_block = stop, fa_post = False\<rparr> = Inr (Printed d)
    \<and> update_block_range_data keccak True (bd_start_blocks d) (bd_end_blocks d) (bd_header_hashes d)
        (bd_data_root_commitments d) (bd_state_root_commitments d) (bd_end_authority_set_id d)
        (bd_end_authority_set_hash d) s = Inr (s', evs)"
  by (rule filled_ranges [OF assms(6-12), of keccak])
    (use assms(4) in \<open>simp add: fill_block_range_main_eq [OF assms(1-3,5)]\<close>)

text \<open>C37. The private key that the script takes when none is set has 16 bytes, and is no key: without
  \<open>PRIVATE_KEY\<close> the script panics also when it is only to print the call, which needs no signature.\<close>

theorem fill_block_range_needs_key:
  assumes "\<forall>key signer. sv_wallet W key = Some signer \<longrightarrow> 64 \<le> length key"
    and "env ''PRIVATE_KEY'' = None" and "fill_env W env contract s"
  shows "fill_block_range_main keccak W contract guardian env args = Inl (Panic ''invalid private key'')"
proof -
  have "\<not> 64 \<le> length default_private_key" by (simp add: default_private_key_def)
  then have "sv_wallet W default_private_key = None" using assms(1) by (cases "sv_wallet W default_private_key") auto
  then show ?thesis using assms(2,3) by (auto simp: fill_block_range_main_def fill_env_def Let_def)
qed

section \<open>An example environment\<close>

text \<open>A node and the Redis server that it reads from, behind whatever URL; keys of 66 characters are valid.\<close>

definition own_redis :: "client \<Rightarrow> redis_server" where
  "own_redis c = \<lparr>rdb_connects = c_redis c, rdb_stored = (\<lambda>chain. c_stored c), rdb_blocks = (\<lambda>chain. c_stored_blocks c)\<rparr>"

definition toy_services :: "client \<Rightarrow> byte list list \<Rightarrow> services" where
  "toy_services c logs = \<lparr>sv_redis = (\<lambda>url. Some (own_redis c)), sv_node = (\<lambda>url. Some c), sv_address = (\<lambda>a. Some 7),
     sv_http = (\<lambda>url. True), sv_ws = (\<lambda>url. Some \<lparr>ws_chain_id = Some 5, ws_logs = (\<lambda>a. Some logs)\<rparr>),
     sv_wallet = (\<lambda>key. if length key = 66 then Some 9 else None)\<rparr>"

definition base_vars :: "(string \<times> string) list" where
  "base_vars = [(''AVAIL_URL'', ''ws''), (''REDIS_URL'', ''redis''), (''AVAIL_CHAIN_ID'', ''goldberg''),
     (''CONTRACT_ADDRESS'', ''0x07''), (''CHAIN_ID'', show_nat 5), (''ETHEREUM_RPC_URL'', ''http''),
     (''SUCCINCT_RPC_URL'', ''platform''), (''SUCCINCT_API_KEY'', ''key'')]"

definition toy_env :: "(string \<times> string) list \<Rightarrow> environment" where
  "toy_env vars = map_of (vars @ base_vars)"

definition toy_operator :: "client \<Rightarrow> vectorx_operator" where
  "toy_operator c = \<lparr>vo_config = \<lparr>cfg_address = 7, cfg_chain_id = 5\<rparr>, vo_contract = (''http'', 7),
     vo_client = (''platform'', ''key''), vo_data_fetcher = c\<rparr>"

lemma fetcher_over_own: "fetcher_over c (own_redis c) chain = c"
  by (simp add: fetcher_over_def own_redis_def)

lemma toy_envs:
  assumes "fst ` set vars \<inter> fst ` set base_vars = {}"
  shows "fetcher_env (toy_services c logs) (toy_env vars) c"
    and "operator_env (toy_services c logs) (toy_env vars) (toy_operator c)"
    and "fill_env (toy_services c logs) (toy_env vars) (\<lambda>url a. Some s) s"
proof -
  have "toy_env vars x = map_of base_vars x" if "x \<in> fst ` set base_vars" for x
  proof -
    have "map_of vars x = None" using assms that by (auto simp: map_of_eq_None_iff)
    then show ?thesis by (simp add: toy_env_def map_add_def)
  qed
  note env = this [unfolded base_vars_def, simplified]
  note vars = env [of "''AVAIL_URL''"] env [of "''REDIS_URL''"] env [of "''AVAIL_CHAIN_ID''"] env [of "''CONTRACT_ADDRESS''"]
    env [of "''CHAIN_ID''"] env [of "''ETHEREUM_RPC_URL''"] env [of "''SUCCINCT_RPC_URL''"] env [of "''SUCCINCT_API_KEY''"]
  show f: "fetcher_env (toy_services c logs) (toy_env vars) c"
    using vars by (simp add: fetcher_env_def toy_services_def fetcher_over_own)
  show "operator_env (toy_services c logs) (toy_env vars) (toy_operator c)"
    using vars f by (simp add: operator_env_def toy_operator_def parse_show) (simp add: toy_services_def)
  show "fill_env (toy_services c logs) (toy_env vars) (\<lambda>url a. Some s) s"
    using vars by (auto simp: fill_env_def toy_services_def intro: exI [of _ 5])
qed

lemma example_operating: "operating example_client example_contract 10 example_ids"
  using example_id_chain by (simp add: operating_def) (simp add: example_ids_def)

theorem operator_started_witness:
  "\<exists>qss. vectorx_main (toy_services example_client []) (toy_env [(''UPDATE_DELAY_BLOCKS'', show_nat 5)])
      (\<lambda>op. [(vo_data_fetcher op, example_contract)]) = Inr qss
    \<and> list_all2 (submits \<lparr>cfg_address = 7, cfg_chain_id = 5\<rparr> 5) [(example_client, example_contract)] qss"
proof -
  let ?env = "toy_env [(''UPDATE_DELAY_BLOCKS'', show_nat 5)]"
  have "operator_env (toy_services example_client []) ?env (toy_operator example_client)"
    by (rule toy_envs(2)) (simp add: base_vars_def)
  moreover have "loop_setting ?env" "delay_setting ?env 5"
    by (simp_all add: loop_setting_def delay_setting_def toy_env_def base_vars_def)
  ultimately show ?thesis
    using operator_started [of _ ?env "toy_operator example_client" 5 "\<lambda>op. [(vo_data_fetcher op, example_contract)]"]
      example_operating
    by (auto simp: toy_operator_def)
qed

theorem zero_delay_panics_witness:
  "vectorx_main (toy_services example_client []) (toy_env [(''UPDATE_DELAY_BLOCKS'', ''0'')])
    (\<lambda>op. [(vo_data_fetcher op, example_contract)]) = Inl (Panic ''remainder with a divisor of zero'')"
proof -
  let ?env = "toy_env [(''UPDATE_DELAY_BLOCKS'', ''0'')]"
  have "operator_env (toy_services example_client []) ?env (toy_operator example_client)"
    by (rule toy_envs(2)) (simp add: base_vars_def)
  moreover have "loop_setting ?env" "?env ''UPDATE_DELAY_BLOCKS'' = Some ''0''"
    by (simp_all add: loop_setting_def toy_env_def base_vars_def)
  ultimately show ?thesis
    using zero_delay_panics [OF _ _ _ _ example_operating, of _ ?env "toy_operator example_client"
        "\<lambda>op. [(vo_data_fetcher op, example_contract)]"]
    by (simp add: toy_operator_def)
qed

text \<open>Goldberg is configured, and its contract has stored one range; Couscous has no address. The store keeps
  what is added.\<close>

definition toy_abi_decode :: "byte list \<Rightarrow> (u32 \<times> u32 \<times> bytes32 \<times> bytes32) option" where
  "toy_abi_decode bs = Some (u32_from_be (segment 28 32 bs), u32_from_be (segment 60 64 bs),
     segment 64 96 bs, segment 96 128 bs)"

definition log_redis :: "(u64 \<times> byte list \<times> byte list \<times> u32) list redis" where
  "log_redis = \<lparr>rs_json_set = (\<lambda>n j r. Some r), rs_zadd_block = (\<lambda>n score r. Some r),
     rs_zadd_range = (\<lambda>chain_id address m score r. Some (r @ [(chain_id, address, m, score)])),
     rs_justification = (\<lambda>r n. None), rs_blocks = (\<lambda>r a b. None)\<rparr>"

lemma toy_abi_decodes: "decodes_ranges toy_abi_decode"
  by (simp add: decodes_ranges_def toy_abi_decode_def abi_range_def bytes_simps u32_from_be_def u32_to_be_def)

theorem events_main_records_witness:
  "\<exists>env. env ''COUSCOUS_ETHEREUM_WS'' = Some ''ws''
    \<and> events_main (toy_services hashed_client (stored_logs [HeaderRangeCommitmentStored 1 4 (replicate 32 8) (replicate 32 9)]))
        env log_redis toy_abi_decode []
      = Inr [(5, address_bytes 7, u32_to_be 1 @ u32_to_be 4 @ replicate 32 8, 4)]"
proof -
  let ?env = "toy_env [(''COUSCOUS_ETHEREUM_WS'', ''ws''), (''GOLDBERG_ETHEREUM_WS'', ''ws''),
    (''GOLDBERG_CONTRACT_ADDRESS'', ''0x07'')]"
  let ?evs = "[HeaderRangeCommitmentStored 1 4 (replicate 32 8) (replicate 32 9)]"
  let ?W = "toy_services hashed_client (stored_logs ?evs)"
  have "fetcher_env ?W ?env hashed_client" by (rule toy_envs(1)) (simp add: base_vars_def)
  moreover have "chain_setting ?W ?env ''COUSCOUS'' None" "chain_setting ?W ?env ''GOLDBERG'' (Some (5, 7, ?evs))"
    by (simp_all add: chain_setting_def toy_env_def base_vars_def toy_services_def)
  moreover have "record_chain log_redis (Some (5, 7, ?evs)) []
      = Inr [(5, address_bytes 7, u32_to_be 1 @ u32_to_be 4 @ replicate 32 8, 4)]"
    by (simp add: log_redis_def)
  ultimately have "events_main ?W ?env log_redis toy_abi_decode []
      = Inr [(5, address_bytes 7, u32_to_be 1 @ u32_to_be 4 @ replicate 32 8, 4)]"
    by (intro events_main_records [OF toy_abi_decodes _ hashed_client_simps(2), THEN iffD2]) auto
  then show ?thesis by (intro exI [of _ ?env]) (simp add: toy_env_def base_vars_def)
qed

theorem fill_block_range_fills_witness:
  "\<exists>W env c d s' evs. fill_block_range_main toy_digest W (\<lambda>url a. Some linked_contract) (\<lambda>a. a = 9) env
      \<lparr>fa_end_block = 500, fa_post = True\<rparr> = Inr (Posted s' evs)
    \<and> vx_latest_block s' = 500 \<and> contiguous 1 (stored_ranges evs) 500
    \<and> fill_block_range_main toy_digest W (\<lambda>url a. Some linked_contract) (\<lambda>a. a = 9) env
      \<lparr>fa_end_block = 500, fa_post = False\<rparr> = Inr (Printed d)"
proof -
  let ?c = "finality_client three_keys" and ?key = "replicate 66 CHR ''1''"
  let ?W = "toy_services ?c []" and ?env = "toy_env [(''PRIVATE_KEY'', ?key)]"
  have env: "fill_env ?W ?env (\<lambda>url a. Some linked_contract) linked_contract" "fetcher_env ?W ?env ?c"
    by (rule toy_envs; simp add: base_vars_def)+
  have key: "?env ''PRIVATE_KEY'' = Some ?key" "sv_wallet ?W ?key = Some 9"
    by (simp_all add: toy_env_def toy_services_def)
  obtain d s' evs where "fill_block_range_main toy_digest ?W (\<lambda>url a. Some linked_contract) (\<lambda>a. a = 9) ?env
      \<lparr>fa_end_block = 500, fa_post = True\<rparr> = Inr (Posted s' evs)"
    "vx_latest_block s' = 500" "contiguous 1 (stored_ranges evs) 500"
    "fill_block_range_main toy_digest ?W (\<lambda>url a. Some linked_contract) (\<lambda>a. a = 9) ?env
      \<lparr>fa_end_block = 500, fa_post = False\<rparr> = Inr (Printed d)"
    using fill_block_range_fills [OF env(1) key _ env(2) fill_example(1) _ _ fill_example(3-6),
        of "\<lambda>a. a = 9" toy_digest]
    by (auto simp: fill_example(2) word_less_nat_alt simp del: replicate.simps)
  then show ?thesis by blast
qed

theorem fill_block_range_needs_key_witness:
  "\<exists>W env s. sv_wallet W (replicate 66 CHR ''1'') = Some 9
    \<and> fill_block_range_main toy_digest W (\<lambda>url a. Some s) (\<lambda>a. True) env \<lparr>fa_end_block = 500, fa_post = False\<rparr>
      = Inl (Panic ''invalid private key'')"
proof -
  let ?W = "toy_services (finality_client three_keys) []" and ?env = "toy_env []"
  have "fill_env ?W ?env (\<lambda>url a. Some linked_contract) linked_contract" by (rule toy_envs(3)) simp
  moreover have "\<forall>key signer. sv_wallet ?W key = Some signer \<longrightarrow> 64 \<le> length key" by (simp add: toy_services_def)
  moreover have "?env ''PRIVATE_KEY'' = None" by (simp add: toy_env_def base_vars_def)
  ultimately have "fill_block_range_main toy_digest ?W (\<lambda>url a. Some linked_contract) (\<lambda>a. True) ?env
      \<lparr>fa_end_block = 500, fa_post = False\<rparr> = Inl (Panic ''invalid private key'')"
    by (intro fill_block_range_needs_key)
  moreover have "sv_wallet ?W (replicate 66 CHR ''1'') = Some 9" by (simp add: toy_services_def)
  ultimately show ?thesis by blast
qed

end
