(* ===== verification/Deploy_Script.thy ===== *)
theory Deploy_Script
  imports System Programs
begin

text \<open>
  The deployment script (\<open>contracts/script/Deploy.s.sol\<close>) as a function on the contracts of a chain. Foundry's
  typed reads of the environment, the addresses of \<open>CREATE2\<close>, the compiled contracts and the roles of
  \<open>TimelockedUpgradeable\<close> are parameters. Foundry simulates the whole script before it broadcasts a
  transaction, so that a run either fails and changes nothing or takes effect as a whole. The lemmas connect
  the values that the genesis script prints with the state machine of theory \<open>System\<close>.
\<close>

section \<open>What the script works on\<close>

text \<open>The base contract: the roles that \<open>initialize\<close> sets, who is a guardian, and \<open>upgradeTo\<close>, from the roles, the
  sender and an implementation to the implementation that the proxy runs afterwards (None if it reverts).\<close>

record 'r timelocked =
  tl_init :: "nat \<Rightarrow> nat \<Rightarrow> 'r"           \<comment> \<open>from the timelock and the guardian\<close>
  tl_is_guardian :: "'r \<Rightarrow> nat \<Rightarrow> bool"
  tl_upgrade_to :: "'r \<Rightarrow> nat \<Rightarrow> nat \<Rightarrow> nat option"

definition timelocked_laws :: "'r timelocked \<Rightarrow> bool" where
  "timelocked_laws T \<longleftrightarrow> (\<forall>timelock guardian who impl.
     (tl_is_guardian T (tl_init T timelock guardian) who \<longleftrightarrow> who = guardian)
     \<and> tl_upgrade_to T (tl_init T timelock guardian) who impl = (if who = timelock then Some impl else None))"

text \<open>A proxy: the implementation, the storage, and the roles, None before it is initialized.\<close>

record 'r proxy =
  px_implementation :: nat
  px_storage :: vectorx
  px_roles :: "'r option"

record 'r evm =
  evm_code :: "nat \<Rightarrow> bool"
  evm_proxy :: "nat \<Rightarrow> 'r proxy option"

text \<open>\<open>vm.envBool\<close> and its relatives: None if the variable is not set or does not parse.\<close>

record cheats =
  vm_bool :: "string \<Rightarrow> bool option"
  vm_uint :: "string \<Rightarrow> nat option"
  vm_address :: "string \<Rightarrow> nat option"
  vm_bytes32 :: "string \<Rightarrow> bytes32 option"
  vm_bytes :: "string \<Rightarrow> byte list option"

text \<open>The address at which a salt and an init code are deployed, and the init codes.\<close>

record 'r foundry =
  fd_create2 :: "bytes32 \<Rightarrow> byte list \<Rightarrow> nat"
  fd_vectorx :: "byte list"
  fd_proxy :: "nat \<Rightarrow> byte list"
  fd_roles :: "'r timelocked"
  fd_sender :: nat
  fd_vm :: cheats

datatype script_error = Env_failed string | Create_failed | No_contract | Already_initialized | Upgrade_reverted
  | Call_reverted vx_error

type_synonym 'a script = "script_error + 'a"

definition bind_s :: "'a script \<Rightarrow> ('a \<Rightarrow> 'b script) \<Rightarrow> 'b script" where
  "bind_s m f = (case m of Inl e \<Rightarrow> Inl e | Inr x \<Rightarrow> f x)"

definition env_s :: "(string \<Rightarrow> 'a option) \<Rightarrow> string \<Rightarrow> 'a script" where
  "env_s read name = (case read name of None \<Rightarrow> Inl (Env_failed name) | Some x \<Rightarrow> Inr x)"

definition require_s :: "script_error \<Rightarrow> bool \<Rightarrow> unit script" where
  "require_s e b = (if b then Inr () else Inl e)"

lemma bind_s_Inr_iff: "bind_s m f = Inr y \<longleftrightarrow> (\<exists>x. m = Inr x \<and> f x = Inr y)"
  by (cases m) (simp_all add: bind_s_def)

lemma script_simps [simp]:
  "bind_s (Inl e) f = Inl e" "bind_s (Inr x) f = f x"
  "read name = Some v \<Longrightarrow> env_s read name = Inr v" "read name = None \<Longrightarrow> env_s read name = Inl (Env_failed name)"
  "env_s read name = Inr w \<longleftrightarrow> read name = Some w"
  "require_s e b = Inr u \<longleftrightarrow> b" "require_s e True = Inr ()" "require_s e False = Inl e"
  by (cases "read name"; simp add: bind_s_def env_s_def require_s_def)+

section \<open>The calls\<close>

definition create :: "nat \<Rightarrow> 'r evm \<Rightarrow> 'r evm script" where
  "create a E = bind_s (require_s Create_failed (\<not> evm_code E a)) (\<lambda>_. Inr (E\<lparr>evm_code := (evm_code E)(a := True)\<rparr>))"

text \<open>The storage before \<open>initialize\<close>.\<close>

definition zero_storage :: vectorx where
  "zero_storage = \<lparr>vx_frozen = False, vx_gateway = 0, vx_latest_block = 0, vx_header_range_function_id = zero_hash,
     vx_rotate_function_id = zero_hash, vx_header_hash = (\<lambda>b. zero_hash), vx_set_hash = (\<lambda>i. zero_hash),
     vx_data_commitments = (\<lambda>k. zero_hash), vx_state_commitments = (\<lambda>k. zero_hash), vx_range_start = (\<lambda>k. 0)\<rparr>"

definition call_proxy :: "nat \<Rightarrow> ('r proxy \<Rightarrow> 'r proxy script) \<Rightarrow> 'r evm \<Rightarrow> 'r evm script" where
  "call_proxy a f E = (case evm_proxy E a of None \<Rightarrow> Inl No_contract
     | Some p \<Rightarrow> bind_s (f p) (\<lambda>p'. Inr (E\<lparr>evm_proxy := (evm_proxy E)(a \<mapsto> p')\<rparr>)))"

record init_parameters =
  ip_guardian :: nat
  ip_gateway :: nat
  ip_height :: u32
  ip_header :: bytes32
  ip_authority_set_id :: u64
  ip_authority_set_hash :: bytes32
  ip_header_range_function_id :: bytes32
  ip_rotate_function_id :: bytes32

definition initialize_proxy :: "'r timelocked \<Rightarrow> init_parameters \<Rightarrow> 'r proxy \<Rightarrow> 'r proxy script" where
  "initialize_proxy T params p =
     bind_s (require_s Already_initialized (px_roles p = None)) (\<lambda>_.
     Inr (p\<lparr>px_storage := initialize_vx (ip_gateway params) (ip_height params) (ip_header params)
         (ip_authority_set_id params) (ip_authority_set_hash params) (ip_header_range_function_id params)
         (ip_rotate_function_id params),
       px_roles := Some (tl_init T (ip_guardian params) (ip_guardian params))\<rparr>))"

definition upgrade_call :: "'r timelocked \<Rightarrow> nat \<Rightarrow> nat \<Rightarrow> 'r proxy \<Rightarrow> 'r proxy script" where
  "upgrade_call T sender impl p =
     (case Option.bind (px_roles p) (\<lambda>r. tl_upgrade_to T r sender impl) of None \<Rightarrow> Inl Upgrade_reverted
      | Some i \<Rightarrow> Inr (p\<lparr>px_implementation := i\<rparr>))"

text \<open>A function of the guardian, which takes whether the caller has the role.\<close>

definition as_sender :: "'r timelocked \<Rightarrow> nat \<Rightarrow> (bool \<Rightarrow> vectorx \<Rightarrow> vectorx vx) \<Rightarrow> 'r proxy \<Rightarrow> 'r proxy script" where
  "as_sender T sender f p =
     (case f (case px_roles p of None \<Rightarrow> False | Some r \<Rightarrow> tl_is_guardian T r sender) (px_storage p) of
        Inl e \<Rightarrow> Inl (Call_reverted e) | Inr s \<Rightarrow> Inr (p\<lparr>px_storage := s\<rparr>))"

section \<open>The script\<close>

text \<open>\<open>bytes32(...)\<close> of bytes cuts or pads on the right; \<open>uint32(...)\<close> and \<open>uint64(...)\<close> of a word keep the
  low bits.\<close>

definition bytes32_of :: "byte list \<Rightarrow> bytes32" where
  "bytes32_of bs = take 32 (bs @ replicate 32 0)"

definition read_init_parameters :: "cheats \<Rightarrow> init_parameters script" where
  "read_init_parameters vm =
     bind_s (env_s (vm_address vm) ''GUARDIAN_ADDRESS'') (\<lambda>guardian.
     bind_s (env_s (vm_address vm) ''GATEWAY_ADDRESS'') (\<lambda>gateway.
     bind_s (env_s (vm_uint vm) ''GENESIS_HEIGHT'') (\<lambda>height.
     bind_s (env_s (vm_bytes32 vm) ''GENESIS_HEADER'') (\<lambda>header.
     bind_s (env_s (vm_uint vm) ''AUTHORITY_SET_ID'') (\<lambda>set_id.
     bind_s (env_s (vm_bytes32 vm) ''AUTHORITY_SET_HASH'') (\<lambda>set_hash.
     bind_s (env_s (vm_bytes32 vm) ''HEADER_RANGE_FUNCTION_ID'') (\<lambda>header_range_id.
     bind_s (env_s (vm_bytes32 vm) ''ROTATE_FUNCTION_ID'') (\<lambda>rotate_id.
     Inr \<lparr>ip_guardian = guardian, ip_gateway = gateway, ip_height = of_nat height, ip_header = header,
       ip_authority_set_id = of_nat set_id, ip_authority_set_hash = set_hash,
       ip_header_range_function_id = header_range_id, ip_rotate_function_id = rotate_id\<rparr>))))))))"

text \<open>The light client that the script works on: a new one, or the existing one with the new implementation.\<close>

definition script_client :: "'r foundry \<Rightarrow> bytes32 \<Rightarrow> bool \<Rightarrow> nat \<Rightarrow> 'r evm \<Rightarrow> (nat \<times> 'r evm) script" where
  "script_client F salt upgrade impl E =
     (if \<not> upgrade then
        let a = fd_create2 F salt (fd_proxy F impl) in
        bind_s (create a E) (\<lambda>E.
        let E = E\<lparr>evm_proxy := (evm_proxy E)(a \<mapsto> \<lparr>px_implementation = impl, px_storage = zero_storage, px_roles = None\<rparr>)\<rparr> in
        bind_s (read_init_parameters (fd_vm F)) (\<lambda>params.
        bind_s (call_proxy a (initialize_proxy (fd_roles F) params) E) (\<lambda>E. Inr (a, E))))
      else
        bind_s (env_s (vm_address (fd_vm F)) ''CONTRACT_ADDRESS'') (\<lambda>a.
        bind_s (call_proxy a (upgrade_call (fd_roles F) (fd_sender F) impl) E) (\<lambda>E. Inr (a, E))))"

text \<open>A call of a function of the guardian, and the three calls that the flags ask for.\<close>

definition call_as_sender :: "'r foundry \<Rightarrow> nat \<Rightarrow> (bool \<Rightarrow> vectorx \<Rightarrow> vectorx vx) \<Rightarrow> 'r evm \<Rightarrow> 'r evm script" where
  "call_as_sender F a f = call_proxy a (as_sender (fd_roles F) (fd_sender F) f)"

definition script_update_gateway :: "'r foundry \<Rightarrow> nat \<Rightarrow> 'r evm \<Rightarrow> 'r evm script" where
  "script_update_gateway F a E =
     bind_s (env_s (vm_bool (fd_vm F)) ''UPDATE_GATEWAY'') (\<lambda>update.
     if update then
       bind_s (env_s (vm_address (fd_vm F)) ''GATEWAY_ADDRESS'') (\<lambda>gateway.
       call_as_sender F a (\<lambda>g. update_gateway g gateway) E)
     else Inr E)"

definition script_update_genesis_state :: "'r foundry \<Rightarrow> nat \<Rightarrow> 'r evm \<Rightarrow> 'r evm script" where
  "script_update_genesis_state F a E =
     bind_s (env_s (vm_bool (fd_vm F)) ''UPDATE_GENESIS_STATE'') (\<lambda>update.
     if update then
       bind_s (env_s (vm_uint (fd_vm F)) ''GENESIS_HEIGHT'') (\<lambda>height.
       bind_s (env_s (vm_bytes32 (fd_vm F)) ''GENESIS_HEADER'') (\<lambda>header.
       bind_s (env_s (vm_uint (fd_vm F)) ''AUTHORITY_SET_ID'') (\<lambda>set_id.
       bind_s (env_s (vm_bytes32 (fd_vm F)) ''AUTHORITY_SET_HASH'') (\<lambda>set_hash.
       call_as_sender F a (\<lambda>g. update_genesis_state g (of_nat height) header (of_nat set_id) set_hash) E))))
     else Inr E)"

definition script_update_function_ids :: "'r foundry \<Rightarrow> nat \<Rightarrow> 'r evm \<Rightarrow> 'r evm script" where
  "script_update_function_ids F a E =
     bind_s (env_s (vm_bool (fd_vm F)) ''UPDATE_FUNCTION_IDS'') (\<lambda>update.
     if update then
       bind_s (env_s (vm_bytes32 (fd_vm F)) ''HEADER_RANGE_FUNCTION_ID'') (\<lambda>header_range_id.
       bind_s (env_s (vm_bytes32 (fd_vm F)) ''ROTATE_FUNCTION_ID'') (\<lambda>rotate_id.
       call_as_sender F a (\<lambda>g. update_function_ids g header_range_id rotate_id) E))
     else Inr E)"

definition script_updates :: "'r foundry \<Rightarrow> nat \<Rightarrow> 'r evm \<Rightarrow> 'r evm script" where
  "script_updates F a E =
     bind_s (script_update_gateway F a E) (\<lambda>E.
     bind_s (script_update_genesis_state F a E) (script_update_function_ids F a))"

text \<open>The result is the address that the script logs at its end.\<close>

definition deploy_run :: "'r foundry \<Rightarrow> 'r evm \<Rightarrow> (nat \<times> 'r evm) script" where
  "deploy_run F E =
     bind_s (env_s (vm_bytes (fd_vm F)) ''CREATE2_SALT'') (\<lambda>salt_bytes.
     let create2_salt = bytes32_of salt_bytes in
     bind_s (env_s (vm_bool (fd_vm F)) ''UPGRADE'') (\<lambda>upgrade.
     let impl = fd_create2 F create2_salt (fd_vectorx F) in
     bind_s (create impl E) (\<lambda>E.
     bind_s (script_client F create2_salt upgrade impl E) (\<lambda>(a, E).
     bind_s (script_updates F a E) (\<lambda>E. Inr (a, E))))))"

section \<open>A new light client\<close>

text \<open>The variables of a new deployment; \<open>params\<close> are those of the call of \<open>initialize\<close>.\<close>

definition new_deployment :: "'r foundry \<Rightarrow> 'r evm \<Rightarrow> bytes32 \<Rightarrow> init_parameters \<Rightarrow> bool" where
  "new_deployment F E salt params \<longleftrightarrow> (\<exists>bs. vm_bytes (fd_vm F) ''CREATE2_SALT'' = Some bs \<and> salt = bytes32_of bs)
     \<and> vm_bool (fd_vm F) ''UPGRADE'' = Some False \<and> vm_bool (fd_vm F) ''UPDATE_GATEWAY'' = Some False
     \<and> vm_bool (fd_vm F) ''UPDATE_GENESIS_STATE'' = Some False \<and> vm_bool (fd_vm F) ''UPDATE_FUNCTION_IDS'' = Some False
     \<and> read_init_parameters (fd_vm F) = Inr params
     \<and> (let impl = fd_create2 F salt (fd_vectorx F); a = fd_create2 F salt (fd_proxy F impl)
        in \<not> evm_code E impl \<and> \<not> evm_code E a \<and> impl \<noteq> a)"

lemma deploy_run_new:
  assumes "new_deployment F E salt params"
    and "impl = fd_create2 F salt (fd_vectorx F)" and "a = fd_create2 F salt (fd_proxy F impl)"
  shows "deploy_run F E = Inr (a, E\<lparr>evm_code := (evm_code E)(impl := True, a := True),
    evm_proxy := (evm_proxy E)(a \<mapsto> \<lparr>px_implementation = impl,
      px_storage = initialize_vx (ip_gateway params) (ip_height params) (ip_header params)
        (ip_authority_set_id params) (ip_authority_set_hash params) (ip_header_range_function_id params)
        (ip_rotate_function_id params),
      px_roles = Some (tl_init (fd_roles F) (ip_guardian params) (ip_guardian params))\<rparr>)\<rparr>)"
  using assms
  by (auto simp: new_deployment_def deploy_run_def create_def script_client_def script_updates_def
      script_update_gateway_def script_update_genesis_state_def script_update_function_ids_def call_proxy_def
      initialize_proxy_def Let_def)

text \<open>The values of the genesis script in the variables of the deployment script.\<close>

definition genesis_variables :: "cheats \<Rightarrow> u32 \<Rightarrow> bytes32 \<times> u64 \<times> bytes32 \<Rightarrow> bool" where
  "genesis_variables vm height = (\<lambda>(header, set_id, set_hash).
     vm_uint vm ''GENESIS_HEIGHT'' = Some (unat height) \<and> vm_bytes32 vm ''GENESIS_HEADER'' = Some header
     \<and> vm_uint vm ''AUTHORITY_SET_ID'' = Some (unat set_id) \<and> vm_bytes32 vm ''AUTHORITY_SET_HASH'' = Some set_hash)"

lemma read_genesis_variables:
  assumes "genesis_variables vm height (header, set_id, set_hash)" and "read_init_parameters vm = Inr params"
  shows "ip_height params = height" "ip_header params = header" "ip_authority_set_id params = set_id"
    "ip_authority_set_hash params = set_hash"
  using assms by (auto simp: genesis_variables_def read_init_parameters_def bind_s_Inr_iff)

text \<open>C5. From the genesis script to the running system: if the genesis script is run against a node of the
  chain, its output is put into the variables of the deployment script, and that is run for a new light
  client, then it succeeds, and from its contract on, however the chain, the operator, the proving service
  and other callers interleave, every hash that the contract holds is the chain's, and the operator can
  bring it up to date. The deployment is honest: the node serves the chain, the gateway answers only the
  truth about it.\<close>

theorem fresh_deployment_safe:
  assumes "genesis_main W env (Some height) = Inr (header, set_id, set_hash)"
    and "fetcher_env W env c" and "get_header c height = Inr x" and "c_header_hash c x = cv_header V (unat height)"
    and "get_authority_set_id c height = Inr (of_nat (cv_ids V (unat height)))"
    and "authority_set_hash_at c height = Inr (cv_set V (cv_ids V (unat height)))"
    and "new_deployment F E salt params" and "genesis_variables (fd_vm F) height (header, set_id, set_hash)"
    and "honest_deployment D V (ip_gateway params) (ip_header_range_function_id params) (ip_rotate_function_id params)"
    and "0 < unat height" and "unat height \<le> h" and "h \<le> dp_limit D"
  shows "\<exists>a E' p. deploy_run F E = Inr (a, E') \<and> evm_proxy E' a = Some p
    \<and> (\<forall>y. (sys_step D)\<^sup>*\<^sup>* \<lparr>sy_head = h, sy_contract = px_storage p, sy_pending = []\<rparr> y \<longrightarrow>
      (let s = sy_contract y in
        vx_header_hash s (vx_latest_block s) = cv_header V (unat (vx_latest_block s))
        \<and> (\<forall>b. vx_header_hash s b \<noteq> zero_hash \<longrightarrow> unat b \<le> sy_head y \<and> vx_header_hash s b = cv_header V (unat b))
        \<and> (\<forall>i. vx_set_hash s i \<noteq> zero_hash \<longrightarrow> unat i \<le> cv_ids V (sy_head y) \<and> vx_set_hash s i = cv_set V (unat i)))
      \<and> (\<exists>z. (sys_step D)\<^sup>*\<^sup>* y z \<and> sy_head z = sy_head y
          \<and> sy_head y - sy_head y mod unat (dp_interval D) \<le> unat (vx_latest_block (sy_contract z))))"
proof -
  define s where "s = initialize_vx (ip_gateway params) (ip_height params) (ip_header params)
        (ip_authority_set_id params) (ip_authority_set_hash params) (ip_header_range_function_id params)
        (ip_rotate_function_id params)"
  have "rpc_data_fetcher_new W env = Inr c" using assms(2) by (simp add: rpc_data_fetcher_new_iff)
  then have printed: "header = cv_header V (unat height)" "set_id = of_nat (cv_ids V (unat height))"
    "set_hash = cv_set V (cv_ids V (unat height))"
    using assms(1,3-6) by (auto simp: genesis_main_def genesis_parameters_def)
  have "read_init_parameters (fd_vm F) = Inr params" using assms(7) by (simp add: new_deployment_def)
  note params = read_genesis_variables [OF assms(8) this]
  have start: "\<lparr>sy_head = h, sy_contract = s, sy_pending = []\<rparr> = deployed V (ip_gateway params)
      (ip_header_range_function_id params) (ip_rotate_function_id params) height h"
    by (simp add: deployed_def Let_def s_def params printed)
  have ok: "sys_ok D V (ip_gateway params) (ip_header_range_function_id params) (ip_rotate_function_id params) y"
    if "(sys_step D)\<^sup>*\<^sup>* \<lparr>sy_head = h, sy_contract = s, sy_pending = []\<rparr> y" for y
    using sys_steps_ok [OF assms(9) that [unfolded start]] deployed_ok [OF assms(9-12)] by blast
  show ?thesis
    unfolding deploy_run_new [OF assms(7) refl refl] s_def [symmetric]
    using sys_ok_safe [OF ok refl] recovers [OF assms(9) ok] by (auto simp: Let_def)
qed

section \<open>An upgrade\<close>

lemma call_proxy_Inr:
  "call_proxy a f E = Inr E' \<longleftrightarrow> (\<exists>p p'. evm_proxy E a = Some p \<and> f p = Inr p' \<and> E' = E\<lparr>evm_proxy := (evm_proxy E)(a \<mapsto> p')\<rparr>)"
  by (auto simp: call_proxy_def bind_s_Inr_iff split: option.splits)

lemma as_sender_Inr:
  "as_sender T sender f p = Inr p' \<longleftrightarrow> (\<exists>s. p' = p\<lparr>px_storage := s\<rparr>
     \<and> f (case px_roles p of None \<Rightarrow> False | Some r \<Rightarrow> tl_is_guardian T r sender) (px_storage p) = Inr s)"
  by (auto simp: as_sender_def split: sum.splits)

text \<open>What an upgrade may not touch: the roles, the freeze, the commitments and their ranges, and the other
  contracts.\<close>

definition locked_part :: "'r proxy \<Rightarrow> 'r option \<times> bool \<times> (bytes32 \<Rightarrow> bytes32) \<times> (bytes32 \<Rightarrow> bytes32) \<times> (bytes32 \<Rightarrow> u32)" where
  "locked_part p = (px_roles p, vx_frozen (px_storage p), vx_data_commitments (px_storage p),
     vx_state_commitments (px_storage p), vx_range_start (px_storage p))"

definition known_hashes :: "'r proxy \<Rightarrow> u32 \<times> (u32 \<Rightarrow> bytes32) \<times> (u64 \<Rightarrow> bytes32)" where
  "known_hashes p = (vx_latest_block (px_storage p), vx_header_hash (px_storage p), vx_set_hash (px_storage p))"

definition kept :: "('r proxy \<Rightarrow> 'a) \<Rightarrow> nat \<Rightarrow> 'r evm \<Rightarrow> 'r evm \<Rightarrow> bool" where
  "kept part a E E' \<longleftrightarrow> (\<forall>b. b \<noteq> a \<longrightarrow> evm_proxy E' b = evm_proxy E b) \<and> evm_code E' = evm_code E
     \<and> map_option part (evm_proxy E' a) = map_option part (evm_proxy E a)"

lemma kept_refl [simp]: "kept part a E E" and kept_trans: "kept part a E1 E2 \<Longrightarrow> kept part a E2 E3 \<Longrightarrow> kept part a E1 E3"
  by (simp_all add: kept_def)

lemma kept_call:
  assumes "call_as_sender F a f E = Inr E'"
    and "\<And>g p s. f g (px_storage p) = Inr s \<Longrightarrow> part (p\<lparr>px_storage := s\<rparr>) = part p"
  shows "kept part a E E'"
  using assms by (auto simp: call_as_sender_def call_proxy_Inr as_sender_Inr kept_def)

lemma kept_steps:
  fixes E :: "'r evm"
  defines "part \<equiv> \<lambda>p :: 'r proxy. (px_implementation p, locked_part p)"
  shows "script_update_gateway F a E = Inr E' \<Longrightarrow> kept part a E E' \<and> kept known_hashes a E E'"
    and "script_update_genesis_state F a E = Inr E' \<Longrightarrow> kept part a E E'"
    and "script_update_function_ids F a E = Inr E' \<Longrightarrow> kept part a E E' \<and> kept known_hashes a E E'"
  by (auto simp: script_update_gateway_def script_update_genesis_state_def script_update_function_ids_def bind_s_Inr_iff
      update_gateway_def update_genesis_state_def update_function_ids_def part_def locked_part_def known_hashes_def
      split: if_splits elim!: kept_call)

lemma kept_script_updates:
  assumes "script_updates F a E = Inr E'"
  shows "kept (\<lambda>p. (px_implementation p, locked_part p)) a E E'"
    and "vm_bool (fd_vm F) ''UPDATE_GENESIS_STATE'' = Some False \<Longrightarrow> kept known_hashes a E E'"
proof -
  obtain E1 E2 where E: "script_update_gateway F a E = Inr E1" "script_update_genesis_state F a E1 = Inr E2"
    "script_update_function_ids F a E2 = Inr E'"
    using assms by (auto simp: script_updates_def bind_s_Inr_iff)
  note k = kept_steps(1) [OF E(1)] kept_steps(2) [OF E(2)] kept_steps(3) [OF E(3)]
  show "kept (\<lambda>p. (px_implementation p, locked_part p)) a E E'" using k by (blast intro: kept_trans)
  show "kept known_hashes a E E'" if "vm_bool (fd_vm F) ''UPDATE_GENESIS_STATE'' = Some False"
  proof -
    have "E2 = E1" using E(2) that by (simp add: script_update_genesis_state_def env_s_def)
    then show ?thesis using k by (blast intro: kept_trans)
  qed
qed

text \<open>C17. An upgrade is safe for the contract: whenever the script succeeds with \<open>UPGRADE\<close>, whatever else it
  updates, the sender was the contract's timelock, the proxy at \<open>CONTRACT_ADDRESS\<close> runs newly created code with
  its roles, its freeze and every stored commitment and range as they were, and no other contract has
  changed; unless the genesis state is updated, the head and every known hash are as they were, too.\<close>

theorem upgrade_keeps_commitments:
  assumes "timelocked_laws (fd_roles F)"
    and "vm_bool (fd_vm F) ''UPGRADE'' = Some True" and "deploy_run F E = Inr (a, E')"
    and "evm_proxy E a = Some p" and "px_roles p = Some (tl_init (fd_roles F) timelock guardian)"
  shows "\<exists>p'. vm_address (fd_vm F) ''CONTRACT_ADDRESS'' = Some a \<and> fd_sender F = timelock \<and> evm_proxy E' a = Some p'
    \<and> evm_code E' (px_implementation p') \<and> \<not> evm_code E (px_implementation p')
    \<and> locked_part p' = locked_part p \<and> (\<forall>b. b \<noteq> a \<longrightarrow> evm_proxy E' b = evm_proxy E b)
    \<and> (vm_bool (fd_vm F) ''UPDATE_GENESIS_STATE'' = Some False \<longrightarrow> known_hashes p' = known_hashes p)"
proof -
  obtain salt impl E1 E2 where E1: "create impl E = Inr E1" and E2: "script_client F salt True impl E1 = Inr (a, E2)"
    and E': "script_updates F a E2 = Inr E'"
    using assms(2,3) by (auto simp: deploy_run_def bind_s_Inr_iff Let_def script_client_def)
  have created: "\<not> evm_code E impl" "evm_code E1 impl" "evm_proxy E1 = evm_proxy E"
    using E1 by (auto simp: create_def bind_s_Inr_iff)
  have p: "vm_address (fd_vm F) ''CONTRACT_ADDRESS'' = Some a" "fd_sender F = timelock"
    "E2 = E1\<lparr>evm_proxy := (evm_proxy E)(a \<mapsto> p\<lparr>px_implementation := impl\<rparr>)\<rparr>"
    using E2 assms(1,4,5)
    by (auto simp: script_client_def bind_s_Inr_iff call_proxy_Inr upgrade_call_def created timelocked_laws_def
        split: option.splits if_splits)
  note k = kept_script_updates [OF E', unfolded kept_def]
  obtain p' where p': "evm_proxy E' a = Some p'" "px_implementation p' = impl" "locked_part p' = locked_part p"
    using k(1) by (auto simp: p(3) locked_part_def)
  moreover have "known_hashes p' = known_hashes p" if "vm_bool (fd_vm F) ''UPDATE_GENESIS_STATE'' = Some False"
    using k(2) [OF that] p'(1) by (simp add: p(3) known_hashes_def)
  moreover have "evm_code E' impl" "\<forall>b. b \<noteq> a \<longrightarrow> evm_proxy E' b = evm_proxy E b"
    using k(1) created by (simp_all add: p(3))
  ultimately show ?thesis using p created by blast
qed

section \<open>Widths and missing variables\<close>

text \<open>The casts to \<open>uint32\<close> and \<open>uint64\<close> are silent: a height of \<open>2 ^ 32 + n\<close> or a set id of \<open>2 ^ 64 + i\<close> in
  the environment deploys, or updates, the same contract as \<open>n\<close> and \<open>i\<close>.\<close>

theorem genesis_values_wrap:
  assumes "vm_uint (fd_vm F) ''GENESIS_HEIGHT'' = Some height" and "vm_uint (fd_vm F) ''AUTHORITY_SET_ID'' = Some set_id"
    and "G = F\<lparr>fd_vm := (fd_vm F)\<lparr>vm_uint := (vm_uint (fd_vm F))(''GENESIS_HEIGHT'' \<mapsto> height mod 2 ^ 32,
      ''AUTHORITY_SET_ID'' \<mapsto> set_id mod 2 ^ 64)\<rparr>\<rparr>"
  shows "deploy_run G E = deploy_run F E"
proof -
  have w: "(of_nat (n mod 4294967296) :: u32) = of_nat n" "(of_nat (n mod 18446744073709551616) :: u64) = of_nat n" for n
    by (simp_all add: word_of_nat_eq_iff take_bit_eq_mod)
  have same: "fd_create2 G = fd_create2 F" "fd_proxy G = fd_proxy F" "fd_vectorx G = fd_vectorx F" "fd_roles G = fd_roles F"
    "fd_sender G = fd_sender F" "vm_bool (fd_vm G) = vm_bool (fd_vm F)" "vm_address (fd_vm G) = vm_address (fd_vm F)"
    "vm_bytes32 (fd_vm G) = vm_bytes32 (fd_vm F)" "vm_bytes (fd_vm G) = vm_bytes (fd_vm F)"
    by (simp_all add: assms(3))
  have call: "call_as_sender G a f = call_as_sender F a f" for a f by (simp add: call_as_sender_def fun_eq_iff same)
  have uint: "vm_uint (fd_vm G) ''GENESIS_HEIGHT'' = Some (height mod 4294967296)"
    "vm_uint (fd_vm G) ''AUTHORITY_SET_ID'' = Some (set_id mod 18446744073709551616)" by (simp_all add: assms(3))
  have params: "read_init_parameters (fd_vm G) = read_init_parameters (fd_vm F)"
    by (simp add: read_init_parameters_def same uint assms(1,2) w)
  have steps: "script_update_gateway G a = script_update_gateway F a"
    "script_update_genesis_state G a = script_update_genesis_state F a"
    "script_update_function_ids G a = script_update_function_ids F a" for a
    by (simp_all add: fun_eq_iff script_update_gateway_def script_update_genesis_state_def script_update_function_ids_def
        same call uint assms(1,2) w cong: if_cong)
  show ?thesis
    by (simp add: deploy_run_def script_client_def script_updates_def same params steps cong: if_cong)
qed

text \<open>The variables that \<open>contracts/README.md\<close> lists for a new deployment, and those it adds for an upgrade.\<close>

definition readme_variables :: "string list" where
  "readme_variables = [''PRIVATE_KEY'', ''RPC_URL'', ''ETHERSCAN_API_KEY'', ''CREATE2_SALT'', ''GUARDIAN_ADDRESS'',
     ''GATEWAY_ADDRESS'', ''GENESIS_HEIGHT'', ''GENESIS_HEADER'', ''GENESIS_AUTHORITY_SET_ID'',
     ''GENESIS_AUTHORITY_SET_HASH'', ''ROTATE_FUNCTION_ID'', ''HEADER_RANGE_FUNCTION_ID'',
     ''CONTRACT_ADDRESS'', ''UPGRADE'', ''UPDATE_GENESIS_STATE'', ''UPDATE_GATEWAY'', ''UPDATE_FUNCTION_IDS'']"

text \<open>With only the documented variables no light client can be deployed, and no genesis state can be
  updated: the script reads \<open>AUTHORITY_SET_ID\<close>, which the documentation and the example file call
  \<open>GENESIS_AUTHORITY_SET_ID\<close>.\<close>

theorem documented_variables_fail:
  assumes "\<forall>name. vm_uint (fd_vm F) name \<noteq> None \<longrightarrow> name \<in> set readme_variables"
    and "vm_bool (fd_vm F) ''UPGRADE'' = Some False \<or> vm_bool (fd_vm F) ''UPDATE_GENESIS_STATE'' = Some True"
  shows "\<exists>e. deploy_run F E = Inl e"
proof -
  have "''AUTHORITY_SET_ID'' \<notin> set readme_variables" by (simp add: readme_variables_def)
  then have none: "vm_uint (fd_vm F) ''AUTHORITY_SET_ID'' = None" using assms(1) by blast
  have "read_init_parameters (fd_vm F) \<noteq> Inr params" for params
    using none by (simp add: read_init_parameters_def bind_s_Inr_iff)
  then have "vm_bool (fd_vm F) ''UPGRADE'' = Some False \<Longrightarrow> deploy_run F E \<noteq> Inr out" for out
    by (auto simp: deploy_run_def script_client_def bind_s_Inr_iff Let_def)
  moreover have "vm_bool (fd_vm F) ''UPDATE_GENESIS_STATE'' = Some True \<Longrightarrow> deploy_run F E \<noteq> Inr out" for out
    using none by (auto simp: deploy_run_def script_updates_def script_update_genesis_state_def bind_s_Inr_iff Let_def)
  ultimately show ?thesis using assms(2) by (cases "deploy_run F E") auto
qed

section \<open>Who may deploy with updates\<close>

definition sender_guards :: "'r foundry \<Rightarrow> nat \<Rightarrow> 'r evm \<Rightarrow> bool" where
  "sender_guards F a E \<longleftrightarrow>
     (\<exists>p r. evm_proxy E a = Some p \<and> px_roles p = Some r \<and> tl_is_guardian (fd_roles F) r (fd_sender F))"

lemma call_as_sender_guardian:
  assumes "call_as_sender F a f E = Inr E'" and "\<And>s. f False s = Inl Not_guardian"
  shows "sender_guards F a E"
proof -
  obtain p s where p: "evm_proxy E a = Some p"
    "f (case px_roles p of None \<Rightarrow> False | Some r \<Rightarrow> tl_is_guardian (fd_roles F) r (fd_sender F)) (px_storage p) = Inr s"
    using assms(1) by (auto simp: call_as_sender_def call_proxy_Inr as_sender_Inr)
  have "case px_roles p of None \<Rightarrow> False | Some r \<Rightarrow> tl_is_guardian (fd_roles F) r (fd_sender F)"
    by (rule ccontr) (use p(2) assms(2) in simp)
  then show ?thesis using p(1) by (auto simp: sender_guards_def split: option.splits)
qed

lemma update_needs_guardian:
  "script_update_gateway F a E = Inr E' \<Longrightarrow> vm_bool (fd_vm F) ''UPDATE_GATEWAY'' = Some True \<Longrightarrow> sender_guards F a E"
  "script_update_genesis_state F a E = Inr E' \<Longrightarrow> vm_bool (fd_vm F) ''UPDATE_GENESIS_STATE'' = Some True
    \<Longrightarrow> sender_guards F a E"
  "script_update_function_ids F a E = Inr E' \<Longrightarrow> vm_bool (fd_vm F) ''UPDATE_FUNCTION_IDS'' = Some True
    \<Longrightarrow> sender_guards F a E"
  by (auto simp: script_update_gateway_def script_update_genesis_state_def script_update_function_ids_def bind_s_Inr_iff
      update_gateway_def update_genesis_state_def update_function_ids_def dest!: call_as_sender_guardian)

lemma roles_kept:
  assumes "kept (\<lambda>p. (px_implementation p, locked_part p)) a E E'" and "evm_proxy E a = Some p"
  shows "\<exists>p'. evm_proxy E' a = Some p' \<and> px_roles p' = px_roles p"
  using assms by (auto simp: kept_def locked_part_def)

text \<open>The first guardian is \<open>GUARDIAN_ADDRESS\<close>, not the deployer: a new deployment that also sets one of the
  update flags reverts as a whole unless the guardian itself runs the script.\<close>

theorem new_deployment_updates_need_guardian:
  assumes "timelocked_laws (fd_roles F)" and "vm_bool (fd_vm F) ''UPGRADE'' = Some False"
    and "vm_address (fd_vm F) ''GUARDIAN_ADDRESS'' = Some guardian" and "guardian \<noteq> fd_sender F"
    and "flag \<in> {''UPDATE_GATEWAY'', ''UPDATE_GENESIS_STATE'', ''UPDATE_FUNCTION_IDS''}"
    and "vm_bool (fd_vm F) flag = Some True"
  shows "\<exists>e. deploy_run F E = Inl e"
proof (cases "deploy_run F E")
  case (Inr out)
  obtain salt impl a E1 E2 E3 where E1: "script_client F salt False impl E1 = Inr (a, E2)"
    and "script_updates F a E2 = Inr E3"
    using Inr assms(2) by (auto simp: deploy_run_def bind_s_Inr_iff Let_def)
  then obtain X Y where steps: "script_update_gateway F a E2 = Inr X" "script_update_genesis_state F a X = Inr Y"
    "script_update_function_ids F a Y = Inr E3" by (auto simp: script_updates_def bind_s_Inr_iff)
  have "\<exists>params. read_init_parameters (fd_vm F) = Inr params \<and> ip_guardian params = guardian
      \<and> (\<exists>p. evm_proxy E2 a = Some p \<and> px_roles p = Some (tl_init (fd_roles F) guardian guardian))"
    using E1 assms(3)
    by (auto simp: script_client_def bind_s_Inr_iff Let_def call_proxy_Inr initialize_proxy_def read_init_parameters_def)
  then obtain p where p: "evm_proxy E2 a = Some p" "px_roles p = Some (tl_init (fd_roles F) guardian guardian)" by blast
  obtain q where q: "evm_proxy X a = Some q" "px_roles q = px_roles p"
    using roles_kept [OF kept_steps(1) [THEN conjunct1, OF steps(1)] p(1)] by blast
  obtain u where u: "evm_proxy Y a = Some u" "px_roles u = px_roles p"
    using roles_kept [OF kept_steps(2) [OF steps(2)] q(1)] q(2) by auto
  have "sender_guards F a E2 \<or> sender_guards F a X \<or> sender_guards F a Y"
    using assms(5,6) update_needs_guardian(1) [OF steps(1)] update_needs_guardian(2) [OF steps(2)]
      update_needs_guardian(3) [OF steps(3)] by blast
  then show ?thesis
    using p q u assms(1,4) by (auto simp: sender_guards_def timelocked_laws_def)
qed simp

section \<open>An example\<close>

text \<open>Addresses are the lengths of the init codes, roles are pairs; the sender is account 5.\<close>

definition toy_roles :: "(nat \<times> nat) timelocked" where
  "toy_roles = \<lparr>tl_init = Pair, tl_is_guardian = (\<lambda>(timelock, guardian) who. who = guardian),
     tl_upgrade_to = (\<lambda>(timelock, guardian) who impl. if who = timelock then Some impl else None)\<rparr>"

lemma toy_roles_laws: "timelocked_laws toy_roles"
  by (simp add: timelocked_laws_def toy_roles_def)

definition toy_vm :: "nat \<Rightarrow> (string \<times> bool) list \<Rightarrow> (string \<times> nat) list \<Rightarrow> cheats" where
  "toy_vm guardian flags numbers = \<lparr>vm_bool = map_of flags, vm_uint = map_of numbers,
     vm_address = map_of [(''GUARDIAN_ADDRESS'', guardian), (''GATEWAY_ADDRESS'', 0), (''CONTRACT_ADDRESS'', 40)],
     vm_bytes32 = map_of [(''GENESIS_HEADER'', header_hash_of 2), (''AUTHORITY_SET_HASH'', set_hash_of 0),
       (''HEADER_RANGE_FUNCTION_ID'', replicate 32 3), (''ROTATE_FUNCTION_ID'', replicate 32 4)],
     vm_bytes = map_of [(''CREATE2_SALT'', [170])]\<rparr>"

definition toy_foundry :: "cheats \<Rightarrow> (nat \<times> nat) foundry" where
  "toy_foundry vm = \<lparr>fd_create2 = (\<lambda>salt code. length code), fd_vectorx = [], fd_proxy = (\<lambda>impl. [0]),
     fd_roles = toy_roles, fd_sender = 5, fd_vm = vm\<rparr>"

definition no_contracts :: "(nat \<times> nat) evm" where
  "no_contracts = \<lparr>evm_code = (\<lambda>a. False), evm_proxy = Map.empty\<rparr>"

definition new_flags :: "(string \<times> bool) list" where
  "new_flags = [(''UPGRADE'', False), (''UPDATE_GATEWAY'', False), (''UPDATE_GENESIS_STATE'', False),
     (''UPDATE_FUNCTION_IDS'', False)]"

abbreviation toy_numbers :: "(string \<times> nat) list" where
  "toy_numbers \<equiv> [(''GENESIS_HEIGHT'', 2), (''AUTHORITY_SET_ID'', 0)]"

definition toy_params :: init_parameters where
  "toy_params = \<lparr>ip_guardian = 5, ip_gateway = 0, ip_height = 2, ip_header = header_hash_of 2, ip_authority_set_id = 0,
     ip_authority_set_hash = set_hash_of 0, ip_header_range_function_id = replicate 32 3,
     ip_rotate_function_id = replicate 32 4\<rparr>"

lemma toy_new_deployment: "new_deployment (toy_foundry (toy_vm 5 new_flags toy_numbers)) no_contracts
    (bytes32_of [170]) toy_params"
  by (simp add: new_deployment_def toy_foundry_def toy_vm_def new_flags_def no_contracts_def read_init_parameters_def
      env_s_def toy_params_def)

text \<open>A node of the chain of \<open>example_view\<close>.\<close>

definition genesis_client :: client where
  "genesis_client = (finality_client three_keys)\<lparr>c_header_hash := \<lambda>x. header_hash_of (unat (hdr_number x)),
     c_sha256 := \<lambda>m. set_hash_of 0\<rparr>"

lemma genesis_client_simps:
  "get_header genesis_client 2 = Inr (numbered_header 2)" "c_header_hash genesis_client (numbered_header 2) = header_hash_of 2"
  "get_authority_set_id genesis_client 2 = Inr 0" "authority_set_hash_at genesis_client 2 = Inr (set_hash_of 0)"
proof -
  let ?c = "finality_client three_keys"
  have "refresh_loop genesis_client is = refresh_loop ?c is" for "is"
    by (induction "is") (simp_all add: genesis_client_def)
  then have same: "get_header genesis_client = get_header ?c" "get_authority_set_id genesis_client = get_authority_set_id ?c"
    "get_authorities genesis_client = get_authorities ?c"
    by (simp_all add: fun_eq_iff get_header_def get_authority_set_id_def get_authorities_def get_block_hash_def
        refresh_ws_connection_def) (simp_all add: genesis_client_def)
  show "get_header genesis_client 2 = Inr (numbered_header 2)" "get_authority_set_id genesis_client 2 = Inr 0"
    using proving_client_simps(6) [of 2] proving_client_simps(7) [of 2] by (simp_all add: same example_ids_def)
  show "c_header_hash genesis_client (numbered_header 2) = header_hash_of 2"
    by (simp add: genesis_client_def numbered_header_def)
  have "get_authorities ?c 2 = Inr three_keys"
    using proving_client_simps(8) [of 2 "\<lambda>i. three_keys"] by (simp add: three_keys_def)
  moreover have "compute_authority_set_hash (\<lambda>m. set_hash_of 0) three_keys = set_hash_of 0"
    by (simp add: compute_authority_set_hash_def three_keys_def)
  ultimately show "authority_set_hash_at genesis_client 2 = Inr (set_hash_of 0)"
    by (simp add: authority_set_hash_at_def same) (simp add: genesis_client_def)
qed

theorem fresh_deployment_safe_witness:
  "\<exists>E' p y. deploy_run (toy_foundry (toy_vm 5 new_flags toy_numbers)) no_contracts = Inr (1, E') \<and> evm_proxy E' 1 = Some p
    \<and> (sys_step example_deployment)\<^sup>*\<^sup>* \<lparr>sy_head = 10, sy_contract = px_storage p, sy_pending = []\<rparr> y
    \<and> 10 \<le> unat (vx_latest_block (sy_contract y))"
proof -
  let ?F = "toy_foundry (toy_vm 5 new_flags toy_numbers)" and ?W = "toy_services genesis_client []" and ?env = "toy_env []"
  have fetcher: "fetcher_env ?W ?env genesis_client" by (rule toy_envs(1)) simp
  then have "rpc_data_fetcher_new ?W ?env = Inr genesis_client" by (simp add: rpc_data_fetcher_new_iff)
  then have printed: "genesis_main ?W ?env (Some 2) = Inr (header_hash_of 2, 0, set_hash_of 0)"
    by (simp add: genesis_main_def genesis_parameters_def genesis_client_simps)
  have V: "cv_header example_view (unat (2 :: u32)) = header_hash_of 2" "cv_ids example_view (unat (2 :: u32)) = 0"
    "cv_set example_view 0 = set_hash_of 0" by (simp_all add: example_view_def example_ids_def)
  have vars: "genesis_variables (fd_vm ?F) 2 (header_hash_of 2, 0, set_hash_of 0)"
    by (simp add: genesis_variables_def toy_foundry_def toy_vm_def)
  have D: "10 \<le> dp_limit example_deployment" "dp_interval example_deployment = 5" by (simp_all add: example_deployment_def)
  have honest: "honest_deployment example_deployment example_view (ip_gateway toy_params)
      (ip_header_range_function_id toy_params) (ip_rotate_function_id toy_params)"
    using example_honest by (simp add: toy_params_def)
  obtain a E' p where run: "deploy_run ?F no_contracts = Inr (a, E')" "evm_proxy E' a = Some p"
    and safe: "\<And>y. (sys_step example_deployment)\<^sup>*\<^sup>* \<lparr>sy_head = 10, sy_contract = px_storage p, sy_pending = []\<rparr> y \<Longrightarrow>
      \<exists>z. (sys_step example_deployment)\<^sup>*\<^sup>* y z \<and> sy_head z = sy_head y
        \<and> sy_head y - sy_head y mod 5 \<le> unat (vx_latest_block (sy_contract z))"
    using fresh_deployment_safe [OF printed fetcher genesis_client_simps(1) _ _ _ toy_new_deployment vars honest _ _ D(1)]
      genesis_client_simps V D(2) by auto
  have "a = 1" using run(1) unfolding deploy_run_new [OF toy_new_deployment refl refl] by (simp add: toy_foundry_def)
  moreover obtain z where "(sys_step example_deployment)\<^sup>*\<^sup>* \<lparr>sy_head = 10, sy_contract = px_storage p, sy_pending = []\<rparr> z"
    "10 \<le> unat (vx_latest_block (sy_contract z))"
    using safe [OF rtranclp.rtrancl_refl] by auto
  ultimately show ?thesis using run by blast
qed

text \<open>An upgrade of the contract at address 40 by its timelock, with a new gateway.\<close>

definition old_contract :: "(nat \<times> nat) proxy" where
  "old_contract = \<lparr>px_implementation = 39, px_storage = example_contract, px_roles = Some (5, 5)\<rparr>"

theorem upgrade_keeps_commitments_witness:
  "\<exists>E E' p'. deploy_run (toy_foundry (toy_vm 9 [(''UPGRADE'', True), (''UPDATE_GATEWAY'', True),
      (''UPDATE_GENESIS_STATE'', False), (''UPDATE_FUNCTION_IDS'', False)] [])) E = Inr (40, E')
    \<and> evm_proxy E 40 = Some old_contract \<and> evm_proxy E' 40 = Some p'
    \<and> known_hashes p' = known_hashes old_contract \<and> locked_part p' = locked_part old_contract"
proof -
  let ?F = "toy_foundry (toy_vm 9 [(''UPGRADE'', True), (''UPDATE_GATEWAY'', True),
      (''UPDATE_GENESIS_STATE'', False), (''UPDATE_FUNCTION_IDS'', False)] [])"
  let ?E = "\<lparr>evm_code = (\<lambda>a. a = 40), evm_proxy = [40 \<mapsto> old_contract]\<rparr>"
  have "\<exists>E'. deploy_run ?F ?E = Inr (40, E')"
    by (simp add: deploy_run_def toy_foundry_def toy_vm_def env_s_def create_def script_client_def call_proxy_def
        upgrade_call_def old_contract_def toy_roles_def script_updates_def script_update_gateway_def
        script_update_genesis_state_def script_update_function_ids_def call_as_sender_def as_sender_def update_gateway_def)
  then obtain E' where run: "deploy_run ?F ?E = Inr (40, E')" by blast
  have laws: "timelocked_laws (fd_roles ?F)" by (simp add: toy_foundry_def toy_roles_laws)
  have up: "vm_bool (fd_vm ?F) ''UPGRADE'' = Some True" by (simp add: toy_foundry_def toy_vm_def)
  have genesis: "vm_bool (fd_vm ?F) ''UPDATE_GENESIS_STATE'' = Some False" by (simp add: toy_foundry_def toy_vm_def)
  have contract: "evm_proxy ?E 40 = Some old_contract" by simp
  have roles: "px_roles old_contract = Some (tl_init (fd_roles ?F) 5 5)"
    by (simp add: toy_foundry_def toy_roles_def old_contract_def)
  obtain p' where "evm_proxy E' 40 = Some p'" "locked_part p' = locked_part old_contract"
    "known_hashes p' = known_hashes old_contract"
    using upgrade_keeps_commitments [OF laws up run contract roles] genesis by blast
  then show ?thesis using run by (intro exI [of _ ?E] exI [of _ E'] exI [of _ p']) simp
qed

theorem genesis_values_wrap_witness:
  "deploy_run (toy_foundry (toy_vm 5 new_flags [(''GENESIS_HEIGHT'', 2 ^ 32 + 2), (''AUTHORITY_SET_ID'', 2 ^ 64)]))
      no_contracts
    = deploy_run (toy_foundry (toy_vm 5 new_flags toy_numbers)) no_contracts"
proof -
  let ?F = "toy_foundry (toy_vm 5 new_flags [(''GENESIS_HEIGHT'', 2 ^ 32 + 2), (''AUTHORITY_SET_ID'', 2 ^ 64)])"
  have "vm_uint (fd_vm ?F) ''GENESIS_HEIGHT'' = Some (2 ^ 32 + 2)" "vm_uint (fd_vm ?F) ''AUTHORITY_SET_ID'' = Some (2 ^ 64)"
    by (simp_all add: toy_foundry_def toy_vm_def)
  moreover have "toy_foundry (toy_vm 5 new_flags toy_numbers) = ?F\<lparr>fd_vm := (fd_vm ?F)\<lparr>vm_uint := (vm_uint (fd_vm ?F))
      (''GENESIS_HEIGHT'' \<mapsto> (2 ^ 32 + 2) mod 2 ^ 32, ''AUTHORITY_SET_ID'' \<mapsto> 2 ^ 64 mod 2 ^ 64)\<rparr>\<rparr>"
    by (simp add: toy_foundry_def toy_vm_def fun_eq_iff)
  ultimately show ?thesis by (rule genesis_values_wrap [symmetric])
qed

theorem documented_variables_fail_witness:
  "\<exists>e. deploy_run (toy_foundry (toy_vm 5 new_flags [(''GENESIS_HEIGHT'', 2), (''GENESIS_AUTHORITY_SET_ID'', 0)]))
    no_contracts = Inl e"
  by (rule documented_variables_fail) (simp_all add: toy_foundry_def toy_vm_def new_flags_def readme_variables_def)

theorem new_deployment_updates_need_guardian_witness:
  "\<exists>e. deploy_run (toy_foundry (toy_vm 9 ((''UPDATE_GATEWAY'', True) # new_flags) toy_numbers)) no_contracts = Inl e"
  by (rule new_deployment_updates_need_guardian [where guardian = 9 and flag = "''UPDATE_GATEWAY''"])
    (simp_all add: toy_foundry_def toy_vm_def new_flags_def toy_roles_laws)

end
