(* ===== verification/Circuit_Tests.thy ===== *)
theory Circuit_Tests
  imports Dummy_Programs
begin

text \<open>
  The tests of the circuits as programs over the gadgets and, where they fetch their data, the node. To
  prove an unsatisfiable circuit panics. On a node that serves the chain the tests pass whatever the block
  they ask for; the concrete test vectors hold on any gadgets.
\<close>

section \<open>Proving in a test\<close>

definition proved :: "'a option \<Rightarrow> 'a host" where
  "proved r = (case r of None \<Rightarrow> Inl (Panic ''unsatisfied constraint'') | Some x \<Rightarrow> Inr x)"

lemma proved_Inr [simp]: "proved r = Inr x \<longleftrightarrow> r = Some x"
  by (simp add: proved_def split: option.splits)

text \<open>\<open>Vec::resize\<close> with zeros, and the digits of a hash.\<close>

definition resize_bytes :: "nat \<Rightarrow> byte list \<Rightarrow> byte list" where
  "resize_bytes n bs = take n bs @ replicate (n - length bs) 0"

definition nibble :: "char \<Rightarrow> nat" where
  "nibble ch = (let n = of_char ch in if n \<ge> 97 then n - 87 else n - 48)"

fun hex_bytes :: "string \<Rightarrow> byte list" where
  "hex_bytes (a # b # rest) = of_nat (16 * nibble a + nibble b) # hex_bytes rest"
| "hex_bytes _ = []"

section \<open>Decoders\<close>

definition test_decode_compact_int :: "gadgets \<Rightarrow> unit host" where
  "test_decode_compact_int G =
     bind_h (map_h (\<lambda>(n, m). let encoded = resize_bytes MAX_COMPACT_UINT_BYTES (scale_compact n) in
       bind_h (proved (decode_compact_int G encoded)) (\<lambda>(v, compress_mode).
       bind_h (assert_h Assertion_failed (v = n)) (\<lambda>_.
       assert_h Assertion_failed (compress_mode = m))))
       [(1, 0), (64, 1), (16384, 2), (4294967295, 3)]) (\<lambda>_. Inr ())"

definition test_precommit_bytes :: "byte list" where
  "test_precommit_bytes = [1, 38, 27, 45, 113, 196, 242, 16, 36, 228, 137, 117, 93, 79, 157, 136, 222, 239, 71,
     241, 37, 152, 13, 194, 159, 190, 169, 38, 234, 124, 89, 223, 233, 161, 217, 4, 0, 75,
     58, 0, 0, 0, 0, 0, 0, 42, 1, 0, 0, 0, 0, 0, 0]"

definition test_decode_precommit :: "gadgets \<Rightarrow> unit host" where
  "test_decode_precommit G =
     bind_h (proved (decode_precommit G test_precommit_bytes)) (\<lambda>p.
     bind_h (assert_h Assertion_failed (precommit_block_number p = 317857)) (\<lambda>_.
     assert_h Assertion_failed (precommit_authority_set_id p = 298)))"

text \<open>A header of the node in the circuit's array.\<close>

definition encoded_header_value :: "client \<Rightarrow> avail_header \<Rightarrow> encoded_header" where
  "encoded_header_value c x = (let header = c_encode_header c x; header_len = length header
     in \<lparr>header_bytes = resize_bytes MAX_HEADER_SIZE header, header_size = of_nat header_len\<rparr>)"

text \<open>The node returns one header more than the test uses.\<close>

definition test_headers :: "client \<Rightarrow> u32 \<Rightarrow> nat \<Rightarrow> avail_header list host" where
  "test_headers c head_block block_count =
     bind_h (get_block_headers_range c head_block (head_block + of_nat block_count)) (\<lambda>headers.
     slice_h 0 block_count headers)"

definition test_decode_headers :: "client \<Rightarrow> gadgets \<Rightarrow> unit host" where
  "test_decode_headers c G = (let head_block = 272515; block_count = 1 in
     bind_h (test_headers c head_block block_count) (\<lambda>headers.
     bind_h (map_h (\<lambda>i. bind_h (nth_h headers i) (\<lambda>x. proved (do {
         decoded \<leftarrow> decode_header G (encoded_header_value c x) (c_header_hash c x);
         assert_c (block_number decoded = head_block + of_nat i);
         assert_c (parent_hash decoded = hdr_parent_hash x);
         assert_c (state_root decoded = hdr_state_root x);
         assert_c (data_root decoded = hdr_data_root x)
       }))) [0..<block_count]) (\<lambda>_. Inr ())))"

section \<open>Header hashes\<close>

definition hash_headers_from :: "client \<Rightarrow> gadgets \<Rightarrow> u32 \<Rightarrow> unit host" where
  "hash_headers_from c G head_block =
     bind_h (test_headers c head_block 1) (\<lambda>headers.
     bind_h (map_h (\<lambda>x. assert_h Assertion_failed (hash_encoded_header G (encoded_header_value c x) = c_header_hash c x))
       headers) (\<lambda>_. Inr ()))"

definition test_hash_headers :: "client \<Rightarrow> gadgets \<Rightarrow> unit host" where
  "test_hash_headers c G = hash_headers_from c G 1000"

definition test_hash_output_check :: "client \<Rightarrow> gadgets \<Rightarrow> unit host" where
  "test_hash_output_check c G = hash_headers_from c G 397857"

definition test_max_header_len :: "client \<Rightarrow> nat host" where
  "test_max_header_len c = (let start_block_num = 452578; block_count = 10 in
     bind_h (get_block_headers_range c start_block_num (start_block_num + block_count)) (\<lambda>headers.
     Inr (foldl (\<lambda>max_size x. let encoded_len = length (c_encode_header c x)
         in if encoded_len > max_size then encoded_len else max_size) 0 headers)))"

definition test_blake2b_correctness :: "client \<Rightarrow> gadgets \<Rightarrow> unit host" where
  "test_blake2b_correctness c G =
     bind_h (get_header c 397859) (\<lambda>header.
     let bytes = c_encode_header c header; expected_hash = blake2b G bytes in
     bind_h (assert_h Assertion_failed (expected_hash = c_header_hash c header)) (\<lambda>_.
     bind_h (assert_h Assertion_failed (length bytes = 15360)) (\<lambda>_.
     assert_h Assertion_failed (expected_hash = curta_blake2b_variable G bytes 15360))))"

section \<open>Whole circuits\<close>

definition genesis_set_hash :: bytes32 where
  "genesis_set_hash = hex_bytes ''54eb3049b763a6a84c391d53ffb5e93515a171b2dbaaa6a900ec09e3b6bb8dfb''"

definition test_verify_simple_justification :: "client \<Rightarrow> gadgets \<Rightarrow> unit host" where
  "test_verify_simple_justification c G = (let target_block = 4321; authority_set_id = 0;
       target_header = hex_bytes ''c70877fed9ae5a040edb11e8800b3df53ec4c9ec67d07b5655a300ae11727dc1'' in
     bind_h (hint_simple_justification c 8 target_block authority_set_id) (\<lambda>j.
     proved (verify_simple_justification G target_block target_header authority_set_id genesis_set_hash j)))"

definition test_subchain_define ::
    "client \<Rightarrow> gadgets \<Rightarrow> map_reduce_subchain mapreduce \<Rightarrow> nat \<Rightarrow> nat \<Rightarrow> byte list \<Rightarrow> subchain_verification option" where
  "test_subchain_define c G mapreduce max_header_size max_count input =
     (let (trusted_block, input) = evm_read_u32 input;
          (trusted_header_hash, input) = evm_read_bytes32 input;
          (target_block, input) = evm_read_u32 input
      in verify_subchain G mapreduce (hint_output (client_range c) max_header_size) max_count
           trusted_block trusted_header_hash target_block)"

definition test_verify_subchain :: "client \<Rightarrow> gadgets \<Rightarrow> map_reduce_subchain mapreduce \<Rightarrow> subchain_verification host" where
  "test_verify_subchain c G mapreduce = (let trusted_block = 397855; target_block = 397862;
       trusted_header = hex_bytes ''42933743127422ab194445ad5bf0d27ea7ccd20f98cdc902ee7fc55df00fca68''
     in proved (test_subchain_define c G mapreduce (MAX_HEADER_CHUNK_SIZE * BLAKE2B_CHUNK_SIZE_BYTES) 16
          (u32_to_be trusted_block @ trusted_header @ u32_to_be target_block)))"

text \<open>The tests of \<open>circuits/header_range.rs\<close> differ in the sizes and the input.\<close>

definition prove_header_range ::
    "client \<Rightarrow> gadgets \<Rightarrow> map_reduce_subchain mapreduce \<Rightarrow> nat \<Rightarrow> nat \<Rightarrow> u32 \<Rightarrow> bytes32 \<Rightarrow> u64 \<Rightarrow> bytes32 \<Rightarrow> u32
      \<Rightarrow> byte list host" where
  "prove_header_range c G mapreduce authority_count header_count trusted_block trusted_header
       authority_set_id authority_set_hash target_block =
     bind_h (hint_simple_justification c authority_count target_block authority_set_id) (\<lambda>j.
     proved (header_range_define G mapreduce (hint_output (client_range c) MAX_HEADER_SIZE) (\<lambda>b i. j) header_count
       (header_range_input trusted_block trusted_header authority_set_id authority_set_hash target_block)))"

definition test_header_range_small :: "client \<Rightarrow> gadgets \<Rightarrow> map_reduce_subchain mapreduce \<Rightarrow> byte list host" where
  "test_header_range_small c G mapreduce = prove_header_range c G mapreduce 5 32 4310
     (hex_bytes ''087ee7c739e35c46b2ac422cf683ecf6d4cb4571610efe6a5dff6f5b3d5818c9'') 0 genesis_set_hash 4321"

definition test_header_range :: "client \<Rightarrow> gadgets \<Rightarrow> map_reduce_subchain mapreduce \<Rightarrow> byte list host" where
  "test_header_range c G mapreduce = prove_header_range c G mapreduce 76 100 4310
     (hex_bytes ''087ee7c739e35c46b2ac422cf683ecf6d4cb4571610efe6a5dff6f5b3d5818c9'') 0 genesis_set_hash 4321"

definition test_header_range_large :: "client \<Rightarrow> gadgets \<Rightarrow> map_reduce_subchain mapreduce \<Rightarrow> byte list host" where
  "test_header_range_large c G mapreduce = prove_header_range c G mapreduce MAX_AUTHORITY_SET_SIZE MAX_NUM_HEADERS 529000
     (hex_bytes ''86f967bbe95f2314e6e6b81d434997672b3d6fa3a1a32c8de80dade137bc74cf'') 215
     (hex_bytes ''a97ebe6c36b2bcde9b8193c0f03b54fe6df67c725ba7b53b915af1735150fc75'') 529200"

text \<open>So do those of \<open>circuits/rotate.rs\<close>.\<close>

definition prove_rotate :: "client \<Rightarrow> gadgets \<Rightarrow> nat \<Rightarrow> u64 \<Rightarrow> bytes32 \<Rightarrow> byte list host" where
  "prove_rotate c G authority_count authority_set_id authority_set_hash =
     bind_h (rotate_hint c MAX_HEADER_SIZE authority_count authority_set_id) (\<lambda>r.
     bind_h (hint_simple_justification c authority_count (epoch_end_block_number r) authority_set_id) (\<lambda>j.
     proved (rotate_define G authority_count (authority_count * VALIDATOR_LENGTH + DELAY_LENGTH) (\<lambda>i. r) (\<lambda>b i. j)
       (rotate_input authority_set_id authority_set_hash))))"

definition test_rotate_small_authority_set :: "client \<Rightarrow> gadgets \<Rightarrow> byte list host" where
  "test_rotate_small_authority_set c G = prove_rotate c G 8 0 genesis_set_hash"

definition test_rotate_medium_authority_set :: "client \<Rightarrow> gadgets \<Rightarrow> byte list host" where
  "test_rotate_medium_authority_set c G = prove_rotate c G 100 0 genesis_set_hash"

definition test_rotate_large_authority_set :: "client \<Rightarrow> gadgets \<Rightarrow> byte list host" where
  "test_rotate_large_authority_set c G = prove_rotate c G 300 48
     (hex_bytes ''a699e49272d2d23f12e1624fba2ed8d28e1fc777ef25a40a7bcacbb8c0d8d252'')"

text \<open>Those of the test programs compare with recorded outputs; the input of the second has four bytes that the
  program no longer reads.\<close>

definition dummy_header_range_output :: "byte list" where
  "dummy_header_range_output = hex_bytes
     ''3aaa82535ce715acb251047c280d5492d1330c41fe24c9841db508ba961dce464cb5c2a82cc64e401ac01ba85c471fe1dab4fe4baf7a96c306d4e94dcb428f47ead156d58c77adfa928845f048b50fd92e871776dfa76ed2f98c6ef823aa7a2d''"

definition test_dummy_header_range :: "client \<Rightarrow> unit host" where
  "test_dummy_header_range c = (let input_bytes = hex_bytes
       ''0003c18695f303b01e4834da35e5fdc3971fe297d1b48feb0c3f330491639136a6ada5980000000000000075f2da06eb7ec36f683d2908648c431a1b3f968fa5212b72cc7e8eddce8b80958d0003c23a''
     in bind_h (dummy_header_range c input_bytes) (\<lambda>output.
       assert_h Assertion_failed (output = dummy_header_range_output)))"

definition test_dummy_rotate :: "client \<Rightarrow> unit host" where
  "test_dummy_rotate c = (let input_bytes = hex_bytes
       ''0000000000000075f2da06eb7ec36f683d2908648c431a1b3f968fa5212b72cc7e8eddce8b80958d0003c6f0'';
       expected_output = hex_bytes ''21969829db96b6cc8171290a231a150fbf4b11911eea1edb7b1d785716797a7f''
     in bind_h (dummy_rotate c input_bytes) (\<lambda>output. assert_h Assertion_failed (output = expected_output)))"

section \<open>The tests pass\<close>

text \<open>The concrete vectors hold on any gadgets.\<close>

lemma resize_short: "length bs \<le> n \<Longrightarrow> resize_bytes n bs = bs @ replicate (n - length bs) 0"
  by (simp add: resize_bytes_def)

theorem decoder_vectors_pass:
  assumes "gadgets_ok G"
  shows "test_decode_compact_int G = Inr () \<and> test_decode_precommit G = Inr ()"
proof
  have "decode_compact_int G (resize_bytes 5 (scale_compact n)) = Some (n, compact_mode n)" for n
  proof -
    let ?bs = "scale_compact n @ replicate 5 0"
    have "resize_bytes 5 (scale_compact n) = take 5 ?bs"
      using length_scale_compact_le [of n] by (simp add: resize_bytes_def)
    then show ?thesis
      using decode_compact_int_window [OF gadgets_okD(1,2) [OF assms], of n "replicate 5 0"] by simp
  qed
  then show "test_decode_compact_int G = Inr ()"
    by (simp add: test_decode_compact_int_def proved_def compact_mode_def)
  define t where "t = \<lparr>target_hash = segment 1 33 test_precommit_bytes,
      target_number = u32_from_le (segment 33 37 test_precommit_bytes)\<rparr>"
  have "test_precommit_bytes = signed_message t (u64_from_le (segment 37 45 test_precommit_bytes))
      (u64_from_le (segment 45 53 test_precommit_bytes))"
    unfolding t_def by (rule signed_message_of_bytes [symmetric]) (simp_all add: test_precommit_bytes_def)
  moreover have "length (target_hash t) = 32" by (simp add: t_def test_precommit_bytes_def)
  note decode_precommit_signed_message [OF gadgets_okD(3) [OF assms] this]
  ultimately obtain p where "decode_precommit G test_precommit_bytes = Some p"
    "precommit_block_number p = target_number t"
    "precommit_authority_set_id p = u64_from_le (segment 45 53 test_precommit_bytes)"
    by (metis precommit.select_convs(2,4))
  moreover have "segment 33 37 test_precommit_bytes = [161, 217, 4, 0]"
    "segment 45 53 test_precommit_bytes = [42, 1, 0, 0, 0, 0, 0, 0]"
    by (simp_all add: segment_def test_precommit_bytes_def)
  moreover have "u32_from_le [161, 217, 4, 0] = 317857" "u64_from_le [42, 1, 0, 0, 0, 0, 0, 0] = 298"
    by (simp_all add: u32_from_le_def u64_from_le_def bytes_simps)
  ultimately show "test_decode_precommit G = Inr ()" by (simp add: test_decode_precommit_def proved_def t_def)
qed

text \<open>On a node that serves a chain of headers that fit the array, the tests that fetch headers pass at every
  block.\<close>

lemma served_header:
  assumes "served_chain c G MAX_HEADER_SIZE hdr a b" and "a < i" "i \<le> b"
  shows "encoded_header_value c (hdr i) = pad_header MAX_HEADER_SIZE (c_encode_header c (hdr i))"
    and "c_encode_header c (hdr i) = encode_chain_header i (block_of c (hdr i))"
    and "length (c_encode_header c (hdr i)) \<le> MAX_HEADER_SIZE"
    and "c_header_hash c (hdr i) = blake2b G (c_encode_header c (hdr i))" and "hdr_number (hdr i) = of_nat i"
proof -
  show eq: "c_encode_header c (hdr i) = encode_chain_header i (block_of c (hdr i))"
    by (rule encode_block_of [symmetric]) (use assms in \<open>simp_all add: served_chain_def\<close>)
  show len: "length (c_encode_header c (hdr i)) \<le> MAX_HEADER_SIZE"
    using assms unfolding eq by (simp add: served_chain_def avail_chain_def)
  show "encoded_header_value c (hdr i) = pad_header MAX_HEADER_SIZE (c_encode_header c (hdr i))"
    using len by (simp add: encoded_header_value_def pad_header_def resize_short Let_def)
qed (use assms in \<open>simp_all add: served_chain_def\<close>)

lemma test_headers_served:
  assumes "served_chain c G S hdr a b" and "a < unat h" and "unat h + 1 \<le> b" and "unat h + 201 < 2 ^ 32"
  shows "test_headers c h 1 = Inr [hdr (unat h)]"
proof -
  have next_block: "unat (h + 1) = unat h + 1" using assms(4) by (simp add: unat_word_ariths)
  have "get_block_headers_range c h (h + 1) = Inr (map hdr [unat h..<unat (h + 1) + 1])"
    by (rule get_block_headers_range_eq) (use assms next_block in \<open>auto simp: served_chain_def\<close>)
  then show ?thesis by (simp add: test_headers_def next_block segment_def upt_rec)
qed

lemma hash_padded:
  assumes "gadgets_ok G" and "length bs \<le> MAX_HEADER_SIZE"
  shows "hash_encoded_header G (pad_header MAX_HEADER_SIZE bs) = blake2b G bs"
proof -
  have "unat (of_nat (length bs) :: u32) = length bs"
    using assms(2) by (intro unat_of_nat_small) (simp add: MAX_HEADER_SIZE_def)
  then show ?thesis
    using assms(2) hash_gadget_simps(4) [OF gadgets_okD(5) [OF assms(1)]] by (simp add: hash_encoded_header_def pad_header_def)
qed

theorem header_tests_pass:
  assumes "gadgets_ok G" and "served_chain c G MAX_HEADER_SIZE hdr a b"
  shows "a < unat h \<Longrightarrow> unat h + 1 \<le> b \<Longrightarrow> unat h + 201 < 2 ^ 32 \<Longrightarrow> hash_headers_from c G h = Inr ()"
    and "a < 272515 \<Longrightarrow> 272516 \<le> b \<Longrightarrow> test_decode_headers c G = Inr ()"
proof -
  assume h: "a < unat h" "unat h + 1 \<le> b" "unat h + 201 < 2 ^ 32"
  have "unat h \<le> b" using h(2) by simp
  note x = served_header [OF assms(2) h(1) this]
  show "hash_headers_from c G h = Inr ()"
    using x hash_padded [OF assms(1)] unfolding hash_headers_from_def test_headers_served [OF assms(2) h] by simp
next
  assume h: "a < 272515" "272516 \<le> b"
  have u: "unat (272515 :: u32) = 272515" by simp
  have h': "a < unat (272515 :: u32)" "unat (272515 :: u32) + 1 \<le> b" "unat (272515 :: u32) + 201 < 2 ^ 32"
    using h unfolding u by simp_all
  note served = test_headers_served [OF assms(2) h', unfolded u]
  have le: "(272515 :: nat) \<le> b" using h(2) by simp
  note x = served_header [OF assms(2) h(1) le]
  have "avail_chain G MAX_HEADER_SIZE (\<lambda>i. block_of c (hdr i)) (a + 1) b" using assms(2) by (simp add: served_chain_def)
  then have fields: "length (hdr_parent_hash (hdr 272515)) = 32" "length (hdr_state_root (hdr 272515)) = 32"
    "length (hdr_data_root (hdr 272515)) = 32"
    using h by (auto simp: avail_chain_def block_of_def)
  have size: "unat (of_nat (length bs) :: u32) = length bs" if "length bs \<le> MAX_HEADER_SIZE" for bs :: "byte list"
    using that by (intro unat_of_nat_small) (simp add: MAX_HEADER_SIZE_def)
  have "decode_header G (pad_header MAX_HEADER_SIZE (encode_chain_header 272515 (block_of c (hdr 272515)))) seed = Some
      \<lparr>block_number = 272515, parent_hash = hdr_parent_hash (hdr 272515), state_root = hdr_state_root (hdr 272515),
       data_root = hdr_data_root (hdr 272515)\<rparr>" for seed
    by (rule decode_header_fields [OF gadgets_okD(1-4) [OF assms(1)]])
      (use fields x(2,3) size in \<open>auto simp: pad_header_def encode_chain_header_def block_of_def\<close>)
  then show "test_decode_headers c G = Inr ()"
    unfolding test_decode_headers_def Let_def served bind_h_simps by (simp add: nth_h_def x(1,2) proved_def)
qed

theorem blake2b_test_passes:
  assumes "gadgets_ok G" and "served_chain c G MAX_HEADER_SIZE hdr a b" and "a < 397859" and "397859 \<le> b"
    and "length (c_encode_header c (hdr 397859)) = 15360"
  shows "test_blake2b_correctness c G = Inr ()"
proof -
  have "get_header c (of_nat 397859) = Inr (hdr 397859)" using assms(2-4) unfolding served_chain_def by blast
  then show ?thesis
    using served_header(4) [OF assms(2-4)] assms(5) hash_gadget_simps(4) [OF gadgets_okD(5) [OF assms(1)]]
    by (simp add: test_blake2b_correctness_def Let_def)
qed

theorem justification_test_passes:
  assumes "gadgets_ok G" and "same_crypto c G" and "length (c_dummy_signature c) = 64"
    and "finality_proof c 4321 0 (hex_bytes ''c70877fed9ae5a040edb11e8800b3df53ec4c9ec67d07b5655a300ae11727dc1'') ks signers"
    and "genesis_set_hash = compute_authority_set_hash (c_sha256 c) ks" and "length ks \<le> 8"
    and "2 * length ks < 3 * card (signer_slots ks signers)"
  shows "test_verify_simple_justification c G = Inr ()"
proof -
  obtain j where "hint_simple_justification c 8 4321 0 = Inr j"
    "verify_simple_justification G 4321 (hex_bytes ''c70877fed9ae5a040edb11e8800b3df53ec4c9ec67d07b5655a300ae11727dc1'') 0
      genesis_set_hash j = Some ()"
    using epoch_end_hint_accepted [OF assms(1-4,6) _ assms(7)] unfolding assms(5) by auto
  then show ?thesis by (simp add: test_verify_simple_justification_def proved_def del: hex_bytes.simps)
qed

text \<open>So do those of the whole circuits, of every size they use, when more than two thirds of the set signed
  the target block.\<close>

lemma test_sizes:
  "num_map_jobs 16 = 2" "num_map_jobs 32 = 4" "num_map_jobs 100 = 16" "num_map_jobs MAX_NUM_HEADERS = 32"
  by (simp_all add: num_map_jobs_def ceil_log2_def log2_floor.simps)

lemma served_subchain:
  assumes ok: "gadgets_ok G" "mapreduce_gadget mapreduce" and size: "n \<in> {16, 32, 100, MAX_NUM_HEADERS}"
    and chain: "served_chain c G MAX_HEADER_SIZE hdr (unat trusted) (unat target)"
    and link: "hdr_parent_hash (hdr (unat trusted + 1)) = trusted_hash"
    and range: "trusted < target" "unat target - unat trusted \<le> 8 * num_map_jobs n" "unat target + 256 < 2 ^ 32"
  shows "\<exists>sub. verify_subchain G mapreduce (hint_output (client_range c) MAX_HEADER_SIZE) n trusted trusted_hash target = Some sub
    \<and> target_header_hash sub = blake2b G (c_encode_header c (hdr (unat target)))"
proof -
  have jobs: "2 \<le> num_map_jobs n" "num_map_jobs n \<le> 32" using size by (auto simp: test_sizes simp del: MAX_NUM_HEADERS_def)
  have lt: "unat trusted < unat target" using range(1) by (simp add: word_less_nat_alt)
  then have small: "unat trusted + 8 * num_map_jobs n < 2 ^ 32" "unat target + 200 < 2 ^ 32" using jobs(2) range(3) by linarith+
  have target: "encode_chain_header (unat target) (block_of c (hdr (unat target))) = c_encode_header c (hdr (unat target))"
    by (rule encode_block_of) (use chain lt in \<open>auto simp: served_chain_def\<close>)
  have "avail_chain G MAX_HEADER_SIZE (\<lambda>i. block_of c (hdr i)) (unat trusted + 1) (unat target)"
    using chain by (simp add: served_chain_def)
  note honest = verify_subchain_honest [OF ok jobs(1) small(1) _ _ this _ range(1,2), of trusted_hash]
  show ?thesis
    unfolding verify_subchain_client [OF ok jobs(1) small chain] using honest link target
    by (simp add: MAX_HEADER_SIZE_def block_of_def Let_def del: upt_Suc)
qed

theorem subchain_test_passes:
  assumes "gadgets_ok G" and "mapreduce_gadget mapreduce" and "served_chain c G MAX_HEADER_SIZE hdr 397855 397862"
    and "hdr_parent_hash (hdr 397856) = hex_bytes ''42933743127422ab194445ad5bf0d27ea7ccd20f98cdc902ee7fc55df00fca68''"
  shows "\<exists>sub. test_verify_subchain c G mapreduce = Inr sub
    \<and> target_header_hash sub = blake2b G (c_encode_header c (hdr 397862))"
proof -
  let ?h = "hex_bytes ''42933743127422ab194445ad5bf0d27ea7ccd20f98cdc902ee7fc55df00fca68''"
  have "length ?h = 32" by simp
  then have "test_subchain_define c G mapreduce MAX_HEADER_SIZE 16 (u32_to_be 397855 @ ?h @ u32_to_be 397862)
      = verify_subchain G mapreduce (hint_output (client_range c) MAX_HEADER_SIZE) 16 397855 ?h 397862"
    by (simp add: test_subchain_define_def evm_read_u32_def evm_read_bytes32_def u32_to_be_def [where n = 397855]
        u32_to_be_def [where n = 397862] u32_from_be_def del: hex_bytes.simps)
  then show ?thesis
    using served_subchain [OF assms(1,2), of 16 c hdr 397855 397862 ?h] assms(3,4)
    by (auto simp: test_verify_subchain_def test_sizes proved_def MAX_HEADER_SIZE_def simp del: hex_bytes.simps)
qed

theorem header_range_tests_pass:
  assumes "gadgets_ok G" and "mapreduce_gadget mapreduce" and "same_crypto c G" and "length (c_dummy_signature c) = 64"
    and "n \<in> {32, 100, MAX_NUM_HEADERS}"
    and "served_chain c G MAX_HEADER_SIZE hdr (unat trusted) (unat target)"
    and "hdr_parent_hash (hdr (unat trusted + 1)) = trusted_hash" and "length trusted_hash = 32"
    and "trusted < target" and "unat target - unat trusted \<le> 8 * num_map_jobs n" and "unat target + 256 < 2 ^ 32"
    and "finality_proof c target set_id (blake2b G (c_encode_header c (hdr (unat target)))) ks signers"
    and "2 * length ks < 3 * card (signer_slots ks signers)" and "length ks \<le> N" and "3 * N < 2 ^ 32"
  shows "\<exists>out. prove_header_range c G mapreduce N n trusted trusted_hash set_id
      (compute_authority_set_hash (c_sha256 c) ks) target = Inr out"
proof -
  obtain j where j: "hint_simple_justification c N target set_id = Inr j"
    "verify_simple_justification G target (blake2b G (c_encode_header c (hdr (unat target)))) set_id
      (compute_authority_set_hash (c_sha256 c) ks) j = Some ()"
    using epoch_end_hint_accepted [OF assms(1,3,4,12,14,15,13)] by blast
  obtain sub where sub: "verify_subchain G mapreduce (hint_output (client_range c) MAX_HEADER_SIZE) n trusted trusted_hash target = Some sub"
    "target_header_hash sub = blake2b G (c_encode_header c (hdr (unat target)))"
    using served_subchain [OF assms(1,2) _ assms(6,7,9,10,11)] assms(5) by blast
  have "signer_slots ks signers \<noteq> {}" using assms(13) by auto
  then have "ks \<noteq> []" by (auto simp: signer_slots_def)
  then have len: "length (compute_authority_set_hash (c_sha256 c) ks) = 32"
    using assms(3) length_authority_set_hash [OF gadgets_okD(5) [OF assms(1)]] by (simp add: same_crypto_def)
  show ?thesis
    unfolding prove_header_range_def j(1) bind_h_simps header_range_define_eq [OF assms(8) len]
    using sub j(2) by (simp add: proved_def)
qed

theorem rotate_tests_pass:
  assumes "gadgets_ok G" and "same_crypto c G" and "length (c_dummy_signature c) = 64" and "N \<in> {8, 100, 300}"
    and "epoch_end_header c MAX_HEADER_SIZE N n set_id ks h" and "last_justified_block c set_id = Inr n"
    and "finality_proof c n set_id (blake2b G (c_encode_header c h)) old signers"
    and "2 * length old < 3 * card (signer_slots old signers)" and "length old \<le> N"
    and "2 \<le> length ks" and "length ks \<le> N"
  shows "prove_rotate c G N set_id (compute_authority_set_hash (c_sha256 c) old)
    = Inr (compute_authority_set_hash (c_sha256 c) ks)"
proof -
  have sizes: "N < 410" "MAX_HEADER_SIZE < 2 ^ 32" using assms(4) by (auto simp: MAX_HEADER_SIZE_def)
  obtain r j where r: "rotate_hint c MAX_HEADER_SIZE N set_id = Inr r" "hint_simple_justification c N n set_id = Inr j"
    "rotate_define G N (N * VALIDATOR_LENGTH + DELAY_LENGTH) (\<lambda>i. r) (\<lambda>b i. j)
        (rotate_input set_id (compute_authority_set_hash (c_sha256 c) old))
      = Some (compute_authority_set_hash (c_sha256 c) ks)"
    using rotation_from_chain [OF assms(1-3,5-11) sizes] by blast
  have "epoch_end_block_number r = n" using r(1) assms(6) by (auto simp: rotate_hint_def bind_h_Inr_iff)
  then show ?thesis using r by (simp add: prove_rotate_def proved_def)
qed

text \<open>The tests of the test programs pass on the chain they were recorded on: the first where the output of the
  header range circuit for the blocks 246151 to 246330 is the recorded one, the second where the set
  that the authorities of set 117 hand over to has the recorded hash.\<close>

lemma nat_le_numeral: "nat_le (numeral k) n = of_nat (n mod 256) # nat_le (pred_numeral k) (n div 256)"
  unfolding numeral_eq_Suc [of k] nat_le.simps ..

lemma test_dummy_header_range_iff:
  assumes "same_crypto c G" and "served_chain c G S hdr 246150 246330"
  shows "test_dummy_header_range c = Inr () \<longleftrightarrow> header_range_output c G hdr 246150 246330 = dummy_header_range_output"
proof -
  let ?trusted = "hex_bytes ''95f303b01e4834da35e5fdc3971fe297d1b48feb0c3f330491639136a6ada598''"
  let ?set = "hex_bytes ''f2da06eb7ec36f683d2908648c431a1b3f968fa5212b72cc7e8eddce8b80958d''"
  have len: "length ?trusted = 32" "length ?set = 32" by simp_all
  have "hex_bytes ''0003c18695f303b01e4834da35e5fdc3971fe297d1b48feb0c3f330491639136a6ada5980000000000000075f2da06eb7ec36f683d2908648c431a1b3f968fa5212b72cc7e8eddce8b80958d0003c23a''
      = header_range_input 246150 ?trusted 117 ?set 246330"
    by (simp add: header_range_input_def u32_to_be_def u64_to_be_def u32_to_le_def u64_to_le_def nat_le_numeral nibble_def)
  moreover have "dummy_header_range c (header_range_input 246150 ?trusted 117 ?set 246330)
      = Inr (header_range_output c G hdr 246150 246330)"
    using dummy_header_range_eq [OF assms(1), of S hdr 246150 246330, OF _ _ _ _ len] assms(2) by simp
  ultimately show ?thesis
    by (simp add: test_dummy_header_range_def assert_h_def del: hex_bytes.simps)
qed

lemma test_dummy_rotate_iff:
  "test_dummy_rotate c = Inr () \<longleftrightarrow> (\<exists>n. last_justified_block c 117 = Inr n
     \<and> authority_set_hash_at c n = Inr (hex_bytes ''21969829db96b6cc8171290a231a150fbf4b11911eea1edb7b1d785716797a7f''))"
proof -
  let ?set = "hex_bytes ''f2da06eb7ec36f683d2908648c431a1b3f968fa5212b72cc7e8eddce8b80958d''"
  let ?input = "hex_bytes ''0000000000000075f2da06eb7ec36f683d2908648c431a1b3f968fa5212b72cc7e8eddce8b80958d0003c6f0''"
  have "?input = u64_to_be 117 @ ?set @ u32_to_be 247536"
    by (simp add: u32_to_be_def u64_to_be_def u32_to_le_def u64_to_le_def nat_le_numeral nibble_def)
  moreover have "length ?set = 32" by simp
  ultimately have "slice_h 0 8 ?input = Inr (u64_to_be 117)" "slice_h 8 40 ?input = Inr ?set"
    by (simp_all add: u64_to_be_def u32_to_be_def segment_def del: hex_bytes.simps)
  then show ?thesis
    by (auto simp: test_dummy_rotate_def dummy_rotate_def Let_def bind_h_Inr_iff assert_h_def
        simp del: hex_bytes.simps slice_h_simps split: if_splits)
qed

end
