(* ===== verification/Entry_Points.thy ===== *)
theory Entry_Points
  imports Circuit_Tests Operator
begin

text \<open>
  The entry points of the binaries \<open>bin/header_range.rs\<close> and \<open>bin/rotate.rs\<close>, which fix the sizes of the
  circuits, and the tests whose input does not have the layout that the tested code reads. Registering the
  generators (\<open>register_generators\<close>) and the serialization tests are not modelled.
\<close>

section \<open>The entry points\<close>

definition header_range_entrypoint ::
    "gadgets \<Rightarrow> map_reduce_subchain mapreduce \<Rightarrow> (u32 \<Rightarrow> u32 \<Rightarrow> u32 \<Rightarrow> encoded_header list)
      \<Rightarrow> (u32 \<Rightarrow> u64 \<Rightarrow> justification) \<Rightarrow> byte list \<Rightarrow> byte list option" where
  "header_range_entrypoint G mapreduce fetch justification_hint =
     header_range_define G mapreduce fetch justification_hint MAX_NUM_HEADERS"

definition rotate_entrypoint ::
    "gadgets \<Rightarrow> (u64 \<Rightarrow> rotate_variable) \<Rightarrow> (u32 \<Rightarrow> u64 \<Rightarrow> justification) \<Rightarrow> byte list \<Rightarrow> byte list option" where
  "rotate_entrypoint G = rotate_define G MAX_AUTHORITY_SET_SIZE MAX_SUBARRAY_SIZE"

text \<open>The binary of the rotate circuit and its test program are interchangeable on any set of up to 300
  authorities that schedules at least two and at most 300.\<close>

lemma rotate_binaries_agree:
  assumes "gadgets_ok G" and "same_crypto c G" and "length (c_dummy_signature c) = 64"
    and "epoch_end_header c MAX_HEADER_SIZE MAX_AUTHORITY_SET_SIZE n set_id ks h" and "last_justified_block c set_id = Inr n"
    and "finality_proof c n set_id (blake2b G (c_encode_header c h)) old signers"
    and "2 * length old < 3 * card (signer_slots old signers)" and "length old \<le> MAX_AUTHORITY_SET_SIZE"
    and "2 \<le> length ks" and "length ks \<le> MAX_AUTHORITY_SET_SIZE"
    and "input = rotate_input set_id (compute_authority_set_hash (c_sha256 c) old)"
  shows "\<exists>r j out. rotate_hint c MAX_HEADER_SIZE MAX_AUTHORITY_SET_SIZE set_id = Inr r
    \<and> hint_simple_justification c MAX_AUTHORITY_SET_SIZE n set_id = Inr j
    \<and> rotate_entrypoint G (\<lambda>i. r) (\<lambda>b i. j) input = Some out \<and> dummy_rotate c input = Inr out"
  unfolding rotate_entrypoint_def MAX_SUBARRAY_SIZE_def
  by (rule dummy_rotate_agrees [OF assms(1-10) _ _ assms(11)]) (simp_all add: MAX_HEADER_SIZE_def)

section \<open>Tests that cannot pass\<close>

text \<open>A circuit with less than two map jobs is not built, and what is not built proves nothing.\<close>

lemma unbuilt: "num_map_jobs k < 2 \<Longrightarrow> header_range_define G mapreduce fetch justification_hint k input = None"
  by (simp add: header_range_define_def verify_subchain_def split: prod.splits)

text \<open>48 bytes, for a circuit of four headers.\<close>

definition test_circuit_with_input_bytes ::
    "client \<Rightarrow> gadgets \<Rightarrow> map_reduce_subchain mapreduce \<Rightarrow> (u32 \<Rightarrow> u64 \<Rightarrow> justification) \<Rightarrow> bytes32 host" where
  "test_circuit_with_input_bytes c G mapreduce justification_hint =
     (let input_bytes = hex_bytes ''a8512f18c34b70e1533cfd5aa04f251fcb0d7be56ec570051fbad9bdb9435e6a0000000000000bb80000000000000c1c'';
          header_count = 4 in
     bind_h (proved (header_range_define G mapreduce (hint_output (client_range c) MAX_HEADER_SIZE) justification_hint
       header_count input_bytes)) (\<lambda>output. Inr (take 32 output)))"

text \<open>The streams of a hint are lists of field elements; how many a value takes and what they say of it is up to
  plonky2x.\<close>

record layout =
  ly_u32 :: "u32 \<Rightarrow> felt list"
  ly_u64_size :: nat
  ly_u64 :: "felt list \<Rightarrow> u64"
  ly_header_size :: "nat \<Rightarrow> nat"
  ly_header :: "felt list \<Rightarrow> encoded_header"
  ly_hash_size :: nat
  ly_hash :: "felt list \<Rightarrow> bytes32"
  ly_keys_size :: "nat \<Rightarrow> nat"
  ly_keys :: "felt list \<Rightarrow> bytes32 list"
  ly_rotate :: "rotate_variable \<Rightarrow> felt list"

definition read_values :: "nat \<Rightarrow> felt list \<Rightarrow> (felt list \<times> felt list) host" where
  "read_values n stream = (if n \<le> length stream then Inr (take n stream, drop n stream) else Inl Index_out_of_range)"

text \<open>\<open>RotateHint::hint\<close> between its streams.\<close>

definition rotate_hint_streams :: "layout \<Rightarrow> client \<Rightarrow> nat \<Rightarrow> nat \<Rightarrow> felt list \<Rightarrow> felt list host" where
  "rotate_hint_streams ly c header_length max_size input_stream =
     bind_h (read_values (ly_u64_size ly) input_stream) (\<lambda>(set_id, _).
     bind_h (rotate_hint c header_length max_size (ly_u64 ly set_id)) (\<lambda>rotate_data. Inr (ly_rotate ly rotate_data)))"

text \<open>What the three tests of the rotation builder read from it: a header, two variables, a hash, the keys.\<close>

definition rotate_test_values ::
    "layout \<Rightarrow> client \<Rightarrow> nat \<Rightarrow> u32 \<Rightarrow> (encoded_header \<times> felt \<times> felt \<times> bytes32 \<times> bytes32 list) host" where
  "rotate_test_values ly c authority_count epoch_end_block =
     bind_h (rotate_hint_streams ly c MAX_HEADER_SIZE authority_count (ly_u32 ly epoch_end_block)) (\<lambda>stream.
     bind_h (read_values (ly_header_size ly MAX_HEADER_SIZE) stream) (\<lambda>(header, stream).
     bind_h (read_values 1 stream) (\<lambda>(count, stream).
     bind_h (read_values 1 stream) (\<lambda>(start_position, stream).
     bind_h (read_values (ly_hash_size ly) stream) (\<lambda>(hash, stream).
     bind_h (read_values (ly_keys_size ly authority_count) stream) (\<lambda>(ks, stream).
     Inr (ly_header ly header, hd count, hd start_position, ly_hash ly hash, ly_keys ly ks)))))))"

definition test_verify_prefix_epoch_end_header :: "layout \<Rightarrow> client \<Rightarrow> gadgets \<Rightarrow> unit host" where
  "test_verify_prefix_epoch_end_header ly c G =
     bind_h (rotate_test_values ly c 100 4321) (\<lambda>(header, count, start_position, _, _).
     let dummy_hash = take 32 (header_bytes header) in
     proved (do {
       prefix_subarray \<leftarrow> get_fixed_subarray G MAX_PREFIX_LENGTH (header_bytes header) start_position dummy_hash;
       verify_prefix_epoch_end_header G prefix_subarray;
       get_new_authority_set_size_encoded_byte_length G prefix_subarray count;
       Some () }))"

definition verify_epoch_end_header_test :: "layout \<Rightarrow> client \<Rightarrow> gadgets \<Rightarrow> nat \<Rightarrow> unit host" where
  "verify_epoch_end_header_test ly c G authority_count =
     bind_h (rotate_test_values ly c authority_count 4321) (\<lambda>(header, count, start_position, hash, ks).
     proved (verify_epoch_end_header G (authority_count * VALIDATOR_LENGTH + DELAY_LENGTH) header hash count
       start_position ks))"

definition test_verify_epoch_end_header_small_authority_set :: "layout \<Rightarrow> client \<Rightarrow> gadgets \<Rightarrow> unit host" where
  "test_verify_epoch_end_header_small_authority_set ly c G = verify_epoch_end_header_test ly c G 16"

definition test_verify_epoch_end_header_large_authority_set :: "layout \<Rightarrow> client \<Rightarrow> gadgets \<Rightarrow> unit host" where
  "test_verify_epoch_end_header_large_authority_set ly c G = verify_epoch_end_header_test ly c G 100"

text \<open>Four tests are out of date and fail whatever the node serves and the gadgets do: the circuit for four
  headers of \<open>test_circuit_with_input_bytes\<close> would need one map job and does not build, and the three tests of
  the rotation builder pass a block number of 32 bits to a hint that reads a set id of 64 bits.\<close>

theorem outdated_tests_fail:
  assumes "length (ly_u32 ly 4321) < ly_u64_size ly"
  shows "test_circuit_with_input_bytes c G mapreduce justification_hint = Inl (Panic ''unsatisfied constraint'')
    \<and> test_verify_prefix_epoch_end_header ly c G = Inl Index_out_of_range
    \<and> test_verify_epoch_end_header_small_authority_set ly c G = Inl Index_out_of_range
    \<and> test_verify_epoch_end_header_large_authority_set ly c G = Inl Index_out_of_range"
proof -
  have "rotate_test_values ly c n 4321 = Inl Index_out_of_range" for n
    using assms by (simp add: rotate_test_values_def rotate_hint_streams_def read_values_def)
  moreover have "header_range_define G mapreduce fetch justification_hint 4 input = None" for fetch input
    by (rule unbuilt) (simp add: num_map_jobs_def ceil_log2_def log2_floor.simps)
  ultimately show ?thesis
    by (simp add: test_circuit_with_input_bytes_def proved_def Let_def test_verify_prefix_epoch_end_header_def
        verify_epoch_end_header_test_def test_verify_epoch_end_header_small_authority_set_def
        test_verify_epoch_end_header_large_authority_set_def)
qed

text \<open>A layout of one element for 32 bits and two for 64.\<close>

definition toy_layout :: layout where
  "toy_layout = \<lparr>ly_u32 = (\<lambda>n. [unat n]), ly_u64_size = 2, ly_u64 = (\<lambda>xs. of_nat (hd xs)),
     ly_header_size = (\<lambda>s. s + 1), ly_header = (\<lambda>xs. \<lparr>header_bytes = map of_nat (butlast xs), header_size = of_nat (last xs)\<rparr>),
     ly_hash_size = 32, ly_hash = map of_nat, ly_keys_size = (\<lambda>n. 32 * n), ly_keys = (\<lambda>xs. []), ly_rotate = (\<lambda>r. [])\<rparr>"

theorem outdated_tests_fail_witness:
  "test_verify_prefix_epoch_end_header toy_layout example_client toy_gadgets = Inl Index_out_of_range"
  using outdated_tests_fail [of toy_layout] by (simp add: toy_layout_def)

end
