(* ===== verification/Ideal_Client.thy ===== *)
theory Ideal_Client
  imports Finalised_Contract
begin

text \<open>
  The contract against an ideal light client, whose state holds no hash, only which blocks, sets and ranges of
  a finalised chain it has taken. Behind a gateway whose proofs are honestly made, and with a guardian who
  hands over true values, the whole storage of the contract is a function of the ideal client's state.
\<close>

section \<open>The ideal light client\<close>

record ideal =
  il_frozen :: bool
  il_head :: u32
  il_blocks :: "u32 set"
  il_sets :: "u64 set"
  il_ranges :: "(u32 \<times> u32) list"

fun chained :: "u32 \<Rightarrow> (u32 \<times> u32) list \<Rightarrow> u32 \<Rightarrow> bool" where
  "chained a [] b \<longleftrightarrow> a = b"
| "chained a ((x, y) # rs) b \<longleftrightarrow> x = a \<and> chained y rs b"

text \<open>It extends its head by at most 256 blocks that a known set finalises, adopts the set after a known one,
  and is frozen and melted; by its guardian's hand it restarts at a block, or imports consecutive ranges.\<close>

inductive ideal_step :: "avail_model \<Rightarrow> ideal \<Rightarrow> ideal \<Rightarrow> bool" for A where
  extend: "\<not> il_frozen l \<Longrightarrow> il_head l \<in> il_blocks l \<Longrightarrow> i \<in> il_sets l \<Longrightarrow> il_head l < b \<Longrightarrow>
    unat b \<le> unat (il_head l) + MAX_NUM_HEADERS \<Longrightarrow> unat b \<le> av_head A \<Longrightarrow> unat i = av_ids A (unat b - 1) \<Longrightarrow>
    ideal_step A l (l\<lparr>il_head := b, il_blocks := insert b (il_blocks l), il_ranges := il_ranges l @ [(il_head l, b)]\<rparr>)"
| adopt: "\<not> il_frozen l \<Longrightarrow> i \<in> il_sets l \<Longrightarrow> unat i < av_ids A (av_head A) \<Longrightarrow>
    ideal_step A l (l\<lparr>il_sets := insert (i + 1) (il_sets l)\<rparr>)"
| freeze: "ideal_step A l (l\<lparr>il_frozen := f\<rparr>)"
| restart: "unat b \<le> av_head A \<Longrightarrow> unat i \<le> av_ids A (av_head A) \<Longrightarrow>
    ideal_step A l (l\<lparr>il_head := b, il_blocks := insert b (il_blocks l), il_sets := insert i (il_sets l)\<rparr>)"
| import_ranges: "rs \<noteq> [] \<Longrightarrow> chained (il_head l) rs b \<Longrightarrow> \<forall>x\<in>snd ` set rs. unat x \<le> av_head A \<Longrightarrow> unat i \<le> av_ids A (av_head A) \<Longrightarrow>
    ideal_step A l (l\<lparr>il_head := b, il_blocks := snd ` set rs \<union> il_blocks l, il_sets := insert i (il_sets l),
      il_ranges := il_ranges l @ rs\<rparr>)"

section \<open>The contract as its implementation\<close>

definition true_commitments :: "gadgets \<Rightarrow> avail_model \<Rightarrow> u32 \<times> u32 \<Rightarrow> u32 \<times> bytes32 \<times> bytes32" where
  "true_commitments G A = (\<lambda>(a, b). (a, true_root ch_data_root G A (unat a) (unat b), true_root ch_state_root G A (unat a) (unat b)))"

definition range_log ::
    "gadgets \<Rightarrow> avail_model \<Rightarrow> (byte list \<Rightarrow> bytes32) \<Rightarrow> (u32 \<times> u32) list \<Rightarrow> bytes32 \<Rightarrow> u32 \<times> bytes32 \<times> bytes32" where
  "range_log G A keccak rs = foldl (\<lambda>m r. m(range_key keccak r := true_commitments G A r)) no_commitments rs"

definition implements :: "gadgets \<Rightarrow> avail_model \<Rightarrow> (byte list \<Rightarrow> bytes32) \<Rightarrow> ideal \<Rightarrow> vectorx \<Rightarrow> bool" where
  "implements G A keccak l s \<longleftrightarrow> vx_frozen s = il_frozen l \<and> vx_latest_block s = il_head l
     \<and> vx_header_hash s = (\<lambda>b. if b \<in> il_blocks l then true_header G A (unat b) else zero_hash)
     \<and> vx_set_hash s = (\<lambda>i. if i \<in> il_sets l then true_set G A (unat i) else zero_hash)
     \<and> commitments s = range_log G A keccak (il_ranges l)"

text \<open>The ideal client stays within the chain.\<close>

definition ideal_ok :: "avail_model \<Rightarrow> ideal \<Rightarrow> bool" where
  "ideal_ok A l \<longleftrightarrow> unat (il_head l) \<le> av_head A \<and> (\<forall>b\<in>il_blocks l. unat b \<le> av_head A)
     \<and> (\<forall>i\<in>il_sets l. unat i \<le> av_ids A (av_head A))"

text \<open>A commitment that an event reports is the one of the chain's blocks.\<close>

definition true_event :: "gadgets \<Rightarrow> avail_model \<Rightarrow> vx_event \<Rightarrow> bool" where
  "true_event G A e = (case e of
       HeaderRangeCommitmentStored a b dr sr \<Rightarrow> (a, dr, sr) = true_commitments G A (a, b)
     | HeadUpdate b h \<Rightarrow> h = true_header G A (unat b)
     | AuthoritySetStored i k \<Rightarrow> k = true_set G A (unat i)
     | _ \<Rightarrow> True)"

lemma true_event_simps [simp]:
  "true_event G A (HeaderRangeCommitmentStored a b dr sr) \<longleftrightarrow> (a, dr, sr) = true_commitments G A (a, b)"
  "true_event G A (HeadUpdate b h) \<longleftrightarrow> h = true_header G A (unat b)"
  "true_event G A (AuthoritySetStored i k) \<longleftrightarrow> k = true_set G A (unat i)"
  by (simp_all add: true_event_def)

text \<open>The calls of a deployment whose guardian hands over true values and switches to careful gateways only.\<close>

inductive honest_call ::
    "gadgets \<Rightarrow> map_reduce_subchain mapreduce \<Rightarrow> nat \<Rightarrow> nat \<Rightarrow> avail_model \<Rightarrow> (byte list \<Rightarrow> bytes32) \<Rightarrow> gateway
      \<Rightarrow> vectorx \<Rightarrow> vx_event list \<Rightarrow> vectorx \<Rightarrow> bool" for G mapreduce N S A keccak gw where
  public: "vx_step keccak gw s evs s' \<Longrightarrow> honest_call G mapreduce N S A keccak gw s evs s'"
| function_ids: "update_function_ids guardian h r s = Inr s' \<Longrightarrow> careful_gateway G mapreduce N S A gw s' \<Longrightarrow>
    honest_call G mapreduce N S A keccak gw s [] s'"
| gateway: "update_gateway guardian g s = Inr s' \<Longrightarrow> careful_gateway G mapreduce N S A gw s' \<Longrightarrow>
    honest_call G mapreduce N S A keccak gw s [] s'"
| genesis: "update_genesis_state guardian b (true_header G A (unat b)) i (true_set G A (unat i)) s = Inr s' \<Longrightarrow>
    unat b \<le> av_head A \<Longrightarrow> unat i \<le> av_ids A (av_head A) \<Longrightarrow> honest_call G mapreduce N S A keccak gw s [] s'"
| block_ranges: "update_block_range_data keccak guardian starts ends (map (\<lambda>b. true_header G A (unat b)) ends)
      (map2 (\<lambda>a b. true_root ch_data_root G A (unat a) (unat b)) starts ends)
      (map2 (\<lambda>a b. true_root ch_state_root G A (unat a) (unat b)) starts ends) i (true_set G A (unat i)) s = Inr (s', evs) \<Longrightarrow>
    \<forall>b\<in>set ends. unat b \<le> av_head A \<Longrightarrow> unat i \<le> av_ids A (av_head A) \<Longrightarrow> honest_call G mapreduce N S A keccak gw s evs s'"

inductive honest_calls ::
    "gadgets \<Rightarrow> map_reduce_subchain mapreduce \<Rightarrow> nat \<Rightarrow> nat \<Rightarrow> avail_model \<Rightarrow> (byte list \<Rightarrow> bytes32) \<Rightarrow> gateway
      \<Rightarrow> vectorx \<Rightarrow> vx_event list \<Rightarrow> vectorx \<Rightarrow> bool" for G mapreduce N S A keccak gw s where
  start: "honest_calls G mapreduce N S A keccak gw s [] s"
| step: "honest_calls G mapreduce N S A keccak gw s evs s' \<Longrightarrow> honest_call G mapreduce N S A keccak gw s' evs' s'' \<Longrightarrow>
    honest_calls G mapreduce N S A keccak gw s (evs @ evs') s''"

section \<open>The simulation\<close>

lemma careful_sound: "careful_gateway G mapreduce N S A gw s \<Longrightarrow> sound_gateway G mapreduce N S gw s"
  unfolding careful_gateway_def sound_gateway_def careful_fetch_def careful_justification_def careful_rotate_def by meson

lemma range_log_append: "range_log G A keccak (rs @ rs') = foldl (\<lambda>m r. m(range_key keccak r := true_commitments G A r)) (range_log G A keccak rs) rs'"
  by (simp add: range_log_def)

lemma replay_true:
  "list_all (true_event G A) evs \<Longrightarrow> replay keccak evs (range_log G A keccak rs) = range_log G A keccak (rs @ stored_ranges evs)"
proof (induction evs arbitrary: rs)
  case (Cons e evs)
  show ?case
  proof (cases "\<exists>a b dr sr. e = HeaderRangeCommitmentStored a b dr sr")
    case True
    then obtain a b dr sr where e: "e = HeaderRangeCommitmentStored a b dr sr" "(a, dr, sr) = true_commitments G A (a, b)"
      using Cons.prems by auto
    then show ?thesis
      using Cons.IH [of "rs @ [(a, b)]"] Cons.prems by (simp add: range_log_append del: fun_upd_apply)
  next
    case False
    then have "replay keccak (e # evs) m = replay keccak evs m" "stored_ranges (e # evs) = stored_ranges evs" for m
      by (cases e; auto)+
    then show ?thesis using Cons by simp
  qed
qed simp

lemma implements_tracks:
  assumes "gadgets_ok G" and "finalised_chain G S A" and "implements G A keccak l s" and "ideal_ok A l"
  shows "wf_storage s" and "tracks (view_of G A) (vx_header_hash s) (vx_set_hash s)"
  using assms(3,4) true_lengths [OF assms(1,2)]
  by (auto simp: implements_def ideal_ok_def wf_storage_def tracks_def zero_hash_def)

text \<open>A step that anyone may take.\<close>

lemma public_simulated:
  assumes ok: "gadgets_ok G" "mapreduce_gadget mapreduce" and N: "0 < N" "3 * N < 2 ^ 32" and S: "S < 2 ^ 32"
    and chain: "finalised_chain G S A" and small: "av_head A + 256 < 2 ^ 32"
    and gateway: "careful_gateway G mapreduce N S A gw s" and l: "implements G A keccak l s" "ideal_ok A l"
    and step: "vx_step keccak gw s evs s'"
  shows "\<exists>l'. ideal_step A l l' \<and> ideal_ok A l' \<and> list_all (true_event G A) evs \<and> il_ranges l' = il_ranges l @ stored_ranges evs
    \<and> (commitments s' = range_log G A keccak (il_ranges l') \<longrightarrow> implements G A keccak l' s')"
proof -
  note wf = implements_tracks(1) [OF ok(1) chain l] and tracks = implements_tracks(2) [OF ok(1) chain l]
  have s: "vx_frozen s = il_frozen l" "vx_latest_block s = il_head l" and small': "unat (vx_latest_block s) + 256 < 2 ^ 32"
    and known: "\<And>b. vx_header_hash s b \<noteq> zero_hash \<Longrightarrow> b \<in> il_blocks l" "\<And>i. vx_set_hash s i \<noteq> zero_hash \<Longrightarrow> i \<in> il_sets l"
    using l small by (auto simp: implements_def ideal_ok_def split: if_splits)
  have len: "length (vx_header_hash s (vx_latest_block s)) = 32" using wf by (simp add: wf_storage_def)
  from step show ?thesis
  proof (cases rule: vx_step.cases)
    case (commit i b)
    obtain h d r where evs: "evs = [HeadUpdate b h, HeaderRangeCommitmentStored (vx_latest_block s) b d r]"
      and h: "h = vx_header_hash s' b" and s': "\<not> vx_frozen s" "vx_frozen s' = vx_frozen s"
      using commit by (auto simp: commit_header_range_Inr Let_def)
    have c: "\<exists>h. commit_header_range keccak gw i b s
        = Inr (s', [HeadUpdate b h, HeaderRangeCommitmentStored (vx_latest_block s) b d r])" using commit evs by blast
    note true = vx_store.commit_true [OF c tracks careful_range_answers [OF ok N S chain gateway] small' len, simplified]
      and law = vx_store.commit_law [OF c]
    have "unat b \<le> unat (il_head l) + MAX_NUM_HEADERS"
      using commit_proved [OF ok N careful_sound [OF gateway] wf small' commit] by (auto simp: proved_range_def s(2))
    then have "ideal_step A l (l\<lparr>il_head := b, il_blocks := insert b (il_blocks l), il_ranges := il_ranges l @ [(il_head l, b)]\<rparr>)"
      (is "ideal_step A l ?l'") using law true known s s'(1) by (intro ideal_step.extend [of l i b]) auto
    moreover have "ideal_ok A ?l'" using l(2) true by (simp add: ideal_ok_def)
    moreover have "list_all (true_event G A) evs" "il_ranges ?l' = il_ranges l @ stored_ranges evs"
      using true h s(2) by (simp_all add: evs true_commitments_def)
    moreover have "vx_frozen s' = il_frozen ?l'" "vx_latest_block s' = il_head ?l'"
      "vx_header_hash s' = (\<lambda>b. if b \<in> il_blocks ?l' then true_header G A (unat b) else zero_hash)"
      "vx_set_hash s' = (\<lambda>i. if i \<in> il_sets ?l' then true_set G A (unat i) else zero_hash)"
      using law true s s' l(1) by (simp_all add: implements_def fun_eq_iff)
    ultimately show ?thesis unfolding implements_def by blast
  next
    case (rotate i)
    obtain k where evs: "evs = [AuthoritySetStored (i + 1) k]" "k = vx_set_hash s' (i + 1)"
      and s': "\<not> vx_frozen s" "vx_frozen s' = vx_frozen s"
      using rotate by (auto simp: rotate_set_Inr Let_def)
    have r: "\<exists>evs. rotate_set gw i s = Inr (s', evs)" using rotate by blast
    note true = vx_store.rotate_true [OF r tracks careful_rotation_answers [OF ok(1) N S chain gateway], simplified]
      and law = vx_store.rotate_law [OF r]
    have "ideal_step A l (l\<lparr>il_sets := insert (i + 1) (il_sets l)\<rparr>)" (is "ideal_step A l ?l'")
      using law true known s s'(1) by (intro ideal_step.adopt) auto
    moreover have "ideal_ok A ?l'" using l(2) true by (simp add: ideal_ok_def)
    moreover have "list_all (true_event G A) evs" "il_ranges ?l' = il_ranges l @ stored_ranges evs"
      using true by (simp_all add: evs)
    moreover have "vx_frozen s' = il_frozen ?l'" "vx_latest_block s' = il_head ?l'"
      "vx_header_hash s' = (\<lambda>b. if b \<in> il_blocks ?l' then true_header G A (unat b) else zero_hash)"
      "vx_set_hash s' = (\<lambda>i. if i \<in> il_sets ?l' then true_set G A (unat i) else zero_hash)"
      using law true s s' l(1) by (simp_all add: implements_def fun_eq_iff)
    ultimately show ?thesis unfolding implements_def by blast
  next
    case (freeze f)
    then show ?thesis
      using l by (intro exI [of _ "l\<lparr>il_frozen := f\<rparr>"])
        (auto simp: update_freeze_def implements_def ideal_ok_def intro: ideal_step.freeze)
  qed
qed

text \<open>An import of true ranges.\<close>

definition true_row :: "gadgets \<Rightarrow> avail_model \<Rightarrow> block_range \<Rightarrow> bool" where
  "true_row G A r \<longleftrightarrow> unat (br_end r) \<le> av_head A \<and> br_header_hash r = true_header G A (unat (br_end r))
     \<and> (br_start r, br_data r, br_state r) = true_commitments G A (br_start r, br_end r)"

abbreviation row_range :: "block_range \<Rightarrow> u32 \<times> u32" where
  "row_range r \<equiv> (br_start r, br_end r)"

lemma store_ranges_Cons:
  assumes "store_ranges keccak (r # rs) s = Inr (s', evs)"
  obtains evs1 s1 where "rs = [] \<or> br_end r = br_start (hd rs)" and "store_ranges keccak rs s1 = Inr (s', evs1)"
    and "evs = HeadUpdate (br_end r) (br_header_hash r)
      # HeaderRangeCommitmentStored (br_start r) (br_end r) (br_data r) (br_state r) # evs1"
    and "vx_header_hash s1 = (vx_header_hash s)(br_end r := br_header_hash r)" and "vx_set_hash s1 = vx_set_hash s"
    and "vx_frozen s1 = vx_frozen s" and "vx_gateway s1 = vx_gateway s"
    and "vx_header_range_function_id s1 = vx_header_range_function_id s" and "vx_rotate_function_id s1 = vx_rotate_function_id s"
proof -
  let ?key = "keccak (abi_range (br_start r) (br_end r))"
  let ?s1 = "s\<lparr>vx_data_commitments := (vx_data_commitments s)(?key := br_data r),
    vx_state_commitments := (vx_state_commitments s)(?key := br_state r),
    vx_range_start := (vx_range_start s)(?key := br_start r),
    vx_header_hash := (vx_header_hash s)(br_end r := br_header_hash r)\<rparr>"
  obtain p where p: "rs = [] \<or> br_end r = br_start (hd rs)" "store_ranges keccak rs ?s1 = Inr p"
    "s' = fst p" "evs = HeadUpdate (br_end r) (br_header_hash r)
      # HeaderRangeCommitmentStored (br_start r) (br_end r) (br_data r) (br_state r) # snd p"
    using assms by (auto simp: Let_def split: prod.splits)
  show thesis by (rule that [of ?s1 "snd p"]) (use p in simp_all)
qed

lemma store_ranges_true:
  assumes "store_ranges keccak rs s = Inr (s', evs)" and "list_all (true_row G A) rs"
  shows "list_all (true_event G A) evs \<and> stored_ranges evs = map row_range rs
    \<and> vx_header_hash s' = (\<lambda>b. if b \<in> br_end ` set rs then true_header G A (unat b) else vx_header_hash s b)
    \<and> vx_set_hash s' = vx_set_hash s \<and> vx_frozen s' = vx_frozen s \<and> vx_gateway s' = vx_gateway s
    \<and> vx_header_range_function_id s' = vx_header_range_function_id s \<and> vx_rotate_function_id s' = vx_rotate_function_id s
    \<and> (rs \<noteq> [] \<longrightarrow> chained (br_start (hd rs)) (map row_range rs) (br_end (last rs)))"
  using assms
proof (induction rs arbitrary: s evs)
  case (Cons r rs)
  obtain evs1 s1 where r: "rs = [] \<or> br_end r = br_start (hd rs)" "store_ranges keccak rs s1 = Inr (s', evs1)"
    "evs = HeadUpdate (br_end r) (br_header_hash r)
      # HeaderRangeCommitmentStored (br_start r) (br_end r) (br_data r) (br_state r) # evs1"
    "vx_header_hash s1 = (vx_header_hash s)(br_end r := br_header_hash r)" "vx_set_hash s1 = vx_set_hash s"
    "vx_frozen s1 = vx_frozen s" "vx_gateway s1 = vx_gateway s"
    "vx_header_range_function_id s1 = vx_header_range_function_id s" "vx_rotate_function_id s1 = vx_rotate_function_id s"
    by (rule store_ranges_Cons [OF Cons.prems(1)])
  have row: "true_row G A r" "list_all (true_row G A) rs" using Cons.prems(2) by simp_all
  note IH = Cons.IH [OF r(2) row(2)]
  have "list_all (true_event G A) evs \<and> stored_ranges evs = map row_range (r # rs)"
    using IH row(1) by (simp add: r(3) true_row_def)
  moreover have "vx_header_hash s' = (\<lambda>b. if b \<in> br_end ` set (r # rs) then true_header G A (unat b) else vx_header_hash s b)"
    using IH row(1) by (simp add: r(4) true_row_def fun_eq_iff)
  moreover have "chained (br_start r) (map row_range (r # rs)) (br_end (last (r # rs)))"
    using IH r(1) by auto
  ultimately show ?case using IH r(5-9) by simp
qed simp

lemma honest_rows:
  assumes "length ends = length starts" and "\<forall>b\<in>set ends. unat b \<le> av_head A"
    and "rs = zip_ranges starts ends (map (\<lambda>b. true_header G A (unat b)) ends)
      (map2 (\<lambda>a b. true_root ch_data_root G A (unat a) (unat b)) starts ends)
      (map2 (\<lambda>a b. true_root ch_state_root G A (unat a) (unat b)) starts ends)"
  shows "list_all (true_row G A) rs" and "map br_start rs = starts" and "map br_end rs = ends"
proof -
  have "unat (ends ! x) \<le> av_head A" if "x < length starts" for x using assms(1,2) that by simp
  then show "list_all (true_row G A) rs"
    using assms(1) by (auto simp: assms(3) zip_ranges_def list_all_iff true_row_def true_commitments_def)
  show "map br_start rs = starts" "map br_end rs = ends"
    using assms(1) by (auto simp: assms(3) zip_ranges_def intro: nth_equalityI)
qed

lemma import_simulated:
  assumes l: "implements G A keccak l s" "ideal_ok A l"
    and call: "update_block_range_data keccak guardian starts ends (map (\<lambda>b. true_header G A (unat b)) ends)
      (map2 (\<lambda>a b. true_root ch_data_root G A (unat a) (unat b)) starts ends)
      (map2 (\<lambda>a b. true_root ch_state_root G A (unat a) (unat b)) starts ends) i (true_set G A (unat i)) s = Inr (s', evs)"
    and true: "\<forall>b\<in>set ends. unat b \<le> av_head A" "unat i \<le> av_ids A (av_head A)"
  shows "\<exists>l'. ideal_step A l l' \<and> ideal_ok A l' \<and> list_all (true_event G A) evs \<and> il_ranges l' = il_ranges l @ stored_ranges evs
    \<and> (commitments s' = range_log G A keccak (il_ranges l') \<longrightarrow> implements G A keccak l' s')"
    and "vx_gateway s' = vx_gateway s \<and> vx_header_range_function_id s' = vx_header_range_function_id s
      \<and> vx_rotate_function_id s' = vx_rotate_function_id s"
proof -
  define rs where "rs = zip_ranges starts ends (map (\<lambda>b. true_header G A (unat b)) ends)
      (map2 (\<lambda>a b. true_root ch_data_root G A (unat a) (unat b)) starts ends)
      (map2 (\<lambda>a b. true_root ch_state_root G A (unat a) (unat b)) starts ends)"
  obtain s1 where s1: "store_ranges keccak rs s = Inr (s1, evs)"
    "s' = s1\<lparr>vx_set_hash := (vx_set_hash s1)(i := true_set G A (unat i)), vx_latest_block := ends ! (length ends - 1)\<rparr>"
    and len: "0 < length starts" "length ends = length starts"
    unfolding rs_def by (rule update_block_range_Inr [OF call])
  have first: "starts ! 0 = vx_latest_block s"
    using call unfolding update_block_range_data_def vx_simps(1,4) by blast
  note rows = honest_rows [OF len(2) true(1) rs_def]
  note stored = store_ranges_true [OF s1(1) rows(1)]
  have nonempty: "rs \<noteq> []" using rows(2) len(1) by auto
  have ends: "br_end (last rs) = ends ! (length ends - 1)" "br_start (hd rs) = starts ! 0"
    using rows(2,3) nonempty len by (auto simp: last_map [symmetric] hd_map [symmetric] last_conv_nth hd_conv_nth)
  have set_ends: "snd ` set (map row_range rs) = set ends" "br_end ` set rs = set ends"
    using rows(3) by (auto simp: image_image)
  let ?b = "ends ! (length ends - 1)"
  have b: "?b \<in> set ends" using len by (intro nth_mem) simp
  let ?l' = "l\<lparr>il_head := ?b, il_blocks := snd ` set (map row_range rs) \<union> il_blocks l, il_sets := insert i (il_sets l),
      il_ranges := il_ranges l @ map row_range rs\<rparr>"
  have "chained (il_head l) (map row_range rs) ?b"
    using stored nonempty l(1) first by (simp add: ends implements_def)
  then have "ideal_step A l ?l'"
    using nonempty true by (intro ideal_step.import_ranges) (simp_all only: set_ends, simp_all)
  moreover have "ideal_ok A ?l'" using l(2) true b by (auto simp: ideal_ok_def set_ends simp del: set_map)
  moreover have "list_all (true_event G A) evs" "il_ranges ?l' = il_ranges l @ stored_ranges evs"
    using stored by simp_all
  moreover have "vx_frozen s' = il_frozen ?l'" "vx_latest_block s' = il_head ?l'"
    "vx_header_hash s' = (\<lambda>b. if b \<in> il_blocks ?l' then true_header G A (unat b) else zero_hash)"
    "vx_set_hash s' = (\<lambda>i. if i \<in> il_sets ?l' then true_set G A (unat i) else zero_hash)"
    using stored l(1) by (simp_all add: s1(2) implements_def set_ends fun_eq_iff del: set_map)
  ultimately show "\<exists>l'. ideal_step A l l' \<and> ideal_ok A l' \<and> list_all (true_event G A) evs
      \<and> il_ranges l' = il_ranges l @ stored_ranges evs
      \<and> (commitments s' = range_log G A keccak (il_ranges l') \<longrightarrow> implements G A keccak l' s')"
    unfolding implements_def by blast
  show "vx_gateway s' = vx_gateway s \<and> vx_header_range_function_id s' = vx_header_range_function_id s
      \<and> vx_rotate_function_id s' = vx_rotate_function_id s" using stored by (simp add: s1(2))
qed

lemma commitments_kept [simp]:
  "commitments (s\<lparr>vx_header_range_function_id := h, vx_rotate_function_id := r\<rparr>) = commitments s"
  "commitments (s\<lparr>vx_gateway := g\<rparr>) = commitments s"
  "commitments (s\<lparr>vx_header_hash := hh, vx_set_hash := sh, vx_latest_block := b\<rparr>) = commitments s"
  by (simp_all add: commitments_def fun_eq_iff)

lemma careful_gateway_fields:
  "vx_gateway s' = vx_gateway s \<Longrightarrow> vx_header_range_function_id s' = vx_header_range_function_id s \<Longrightarrow>
    vx_rotate_function_id s' = vx_rotate_function_id s \<Longrightarrow> careful_gateway G mr N S A gw s \<Longrightarrow> careful_gateway G mr N S A gw s'"
  by (simp add: careful_gateway_def)

lemma honest_call_simulated:
  assumes ok: "gadgets_ok G" "mapreduce_gadget mapreduce" and N: "0 < N" "3 * N < 2 ^ 32" and S: "S < 2 ^ 32"
    and chain: "finalised_chain G S A" and small: "av_head A + 256 < 2 ^ 32"
    and gateway: "careful_gateway G mapreduce N S A gw s" and l: "implements G A keccak l s" "ideal_ok A l"
    and call: "honest_call G mapreduce N S A keccak gw s evs s'"
  shows "\<exists>l'. (ideal_step A)\<^sup>*\<^sup>* l l' \<and> ideal_ok A l' \<and> implements G A keccak l' s' \<and> list_all (true_event G A) evs
      \<and> il_ranges l' = il_ranges l @ stored_ranges evs \<and> careful_gateway G mapreduce N S A gw s'"
proof -
  have log: "commitments s = range_log G A keccak (il_ranges l)" using l(1) by (simp add: implements_def)
  have step: ?thesis if ex: "\<exists>l'. ideal_step A l l' \<and> ideal_ok A l' \<and> list_all (true_event G A) evs
      \<and> il_ranges l' = il_ranges l @ stored_ranges evs
      \<and> (commitments s' = range_log G A keccak (il_ranges l') \<longrightarrow> implements G A keccak l' s')"
    and op: "vx_op_step keccak op s evs s'" and careful: "careful_gateway G mapreduce N S A gw s'" for op
  proof -
    obtain l' where "ideal_step A l l'" "ideal_ok A l'" "list_all (true_event G A) evs"
      "il_ranges l' = il_ranges l @ stored_ranges evs"
      "commitments s' = range_log G A keccak (il_ranges l') \<longrightarrow> implements G A keccak l' s'" using ex by blast
    moreover from this have "commitments s' = range_log G A keccak (il_ranges l')"
      using vx_op_step_replay [OF op] by (simp add: log replay_true)
    ultimately show ?thesis using careful by blast
  qed
  from call show ?thesis
  proof (cases rule: honest_call.cases)
    case public
    then show ?thesis
      by (intro step [OF public_simulated [OF ok N S chain small gateway l] vx_op_step.public] careful_gateway_step [OF _ gateway])
  next
    case (function_ids guardian h r)
    then have "implements G A keccak l s'"
      using l(1) by (auto simp: update_function_ids_def implements_def)
    then show ?thesis using function_ids l(2) by (intro exI [of _ l]) simp
  next
    case (gateway guardian g)
    then have "implements G A keccak l s'"
      using l(1) by (auto simp: update_gateway_def implements_def)
    then show ?thesis using gateway l(2) by (intro exI [of _ l]) simp
  next
    case (genesis guardian b i)
    let ?l' = "l\<lparr>il_head := b, il_blocks := insert b (il_blocks l), il_sets := insert i (il_sets l)\<rparr>"
    have "ideal_step A l ?l'" "ideal_ok A ?l'"
      using genesis l(2) by (auto simp: ideal_ok_def intro: ideal_step.restart)
    moreover have "implements G A keccak ?l' s'" "careful_gateway G mapreduce N S A gw s'"
      using genesis(2) l(1) careful_gateway_fields [OF _ _ _ \<open>careful_gateway G mapreduce N S A gw s\<close>, of s']
      by (auto simp: update_genesis_state_def implements_def fun_eq_iff)
    ultimately show ?thesis using genesis(1) by (intro exI [of _ ?l']) simp
  next
    case (block_ranges guardian starts ends i)
    note sim = import_simulated [OF l block_ranges]
    have "careful_gateway G mapreduce N S A gw s'" using sim(2) by (intro careful_gateway_fields [OF _ _ _ gateway]) simp_all
    then show ?thesis by (rule step [OF sim(1) vx_op_step.block_ranges [OF block_ranges(1)]])
  qed
qed

text \<open>The client that starts with one block and one set.\<close>

definition ideal_start :: "u32 \<Rightarrow> u64 \<Rightarrow> ideal" where
  "ideal_start height set_id = \<lparr>il_frozen = False, il_head = height, il_blocks = {height}, il_sets = {set_id}, il_ranges = []\<rparr>"

lemma honest_run_simulated:
  assumes "honest_calls G mapreduce N S A keccak gw init evs s"
    and ok: "gadgets_ok G" "mapreduce_gadget mapreduce" and N: "0 < N" "3 * N < 2 ^ 32" and S: "S < 2 ^ 32"
    and chain: "finalised_chain G S A" and small: "av_head A + 256 < 2 ^ 32"
    and genesis: "unat height \<le> av_head A" "unat set_id \<le> av_ids A (av_head A)"
    and init: "init = initialize_vx gateway_address height (true_header G A (unat height)) set_id (true_set G A (unat set_id))
      header_range_id rotate_id"
    and gateway: "careful_gateway G mapreduce N S A gw init"
  shows "\<exists>l. (ideal_step A)\<^sup>*\<^sup>* (ideal_start height set_id) l \<and> ideal_ok A l \<and> implements G A keccak l s
    \<and> list_all (true_event G A) evs \<and> il_ranges l = stored_ranges evs \<and> careful_gateway G mapreduce N S A gw s"
  using assms(1)
proof (induction rule: honest_calls.induct)
  case start
  have "implements G A keccak (ideal_start height set_id) init"
    by (simp add: implements_def ideal_start_def init initial_commitments range_log_def)
      (simp add: initialize_vx_def fun_eq_iff)
  then show ?case
    using genesis gateway by (intro exI [of _ "ideal_start height set_id"]) (simp add: ideal_ok_def ideal_start_def)
next
  case (step evs s evs' s')
  then obtain l where l: "(ideal_step A)\<^sup>*\<^sup>* (ideal_start height set_id) l" "ideal_ok A l" "implements G A keccak l s"
    "list_all (true_event G A) evs" "il_ranges l = stored_ranges evs" "careful_gateway G mapreduce N S A gw s" by blast
  obtain l' where "(ideal_step A)\<^sup>*\<^sup>* l l'" "ideal_ok A l'" "implements G A keccak l' s'" "list_all (true_event G A) evs'"
    "il_ranges l' = il_ranges l @ stored_ranges evs'" "careful_gateway G mapreduce N S A gw s'"
    using honest_call_simulated [OF ok N S chain small l(6,3,2) step.hyps(2)] by blast
  then show ?case using l(1,4,5) by (intro exI [of _ l']) auto
qed

text \<open>What the log of the true ranges holds.\<close>

lemma range_log_snoc: "range_log G A keccak (rs @ [r]) = (range_log G A keccak rs)(range_key keccak r := true_commitments G A r)"
  by (simp add: range_log_def)

lemma range_log_sound:
  "range_log G A keccak rs key \<noteq> no_commitments key \<Longrightarrow> \<exists>r\<in>set rs. key = range_key keccak r \<and> range_log G A keccak rs key = true_commitments G A r"
proof (induction rs rule: rev_induct)
  case (snoc r rs)
  then show ?case by (cases "key = range_key keccak r") (auto simp: range_log_snoc)
qed (simp add: range_log_def)

lemma range_log_complete:
  "inj_on (range_key keccak) (set rs) \<Longrightarrow> r \<in> set rs \<Longrightarrow> range_log G A keccak rs (range_key keccak r) = true_commitments G A r"
proof (induction rs rule: rev_induct)
  case (snoc x rs)
  show ?case
  proof (cases "r = x")
    case False
    then have "range_key keccak r \<noteq> range_key keccak x" using snoc.prems by (auto simp: inj_on_def)
    then show ?thesis using snoc False by (simp add: range_log_snoc inj_on_insert)
  qed (simp add: range_log_snoc)
qed simp

text \<open>The contract that follows a chain of five blocks, after one step.\<close>

lemma linked_init: "linked_contract = initialize_vx 0 1 (true_header toy_gadgets linked_model (unat (1 :: u32))) 0
    (true_set toy_gadgets linked_model (unat (0 :: u64))) (replicate 32 1) (replicate 32 2)"
  unfolding linked_contract_def linked_true_header true_set_def by (simp add: numeral_2_eq_2 del: linked_parent.simps)

lemma linked_honest_run:
  obtains s h d r where "honest_calls toy_gadgets tree_mapreduce 3 160 linked_model toy_digest linked_gateway linked_contract
      [HeadUpdate 4 h, HeaderRangeCommitmentStored 1 4 d r] s" and "vx_header_hash s 4 = h" and "h = linked_parent 5"
proof -
  obtain s h d r where s: "commit_header_range toy_digest linked_gateway 0 4 linked_contract
      = Inr (s, [HeadUpdate 4 h, HeaderRangeCommitmentStored 1 4 r d])" "h = linked_parent 5"
    by (rule linked_commit) blast
  have "vx_header_hash s 4 = h" using s(1) by (auto simp: commit_header_range_Inr Let_def)
  moreover have "honest_calls toy_gadgets tree_mapreduce 3 160 linked_model toy_digest linked_gateway linked_contract
      ([] @ [HeadUpdate 4 h, HeaderRangeCommitmentStored 1 4 r d]) s"
    by (rule honest_calls.step [OF honest_calls.start honest_call.public [OF vx_step.commit [OF s(1)]]])
  ultimately show thesis using that s(2) by simp
qed

section \<open>Properties\<close>



text \<open>C3. End to end, from the circuits to the storage: a contract deployed with the true hashes of a block and
  a set of a chain that GRANDPA finalises, behind a gateway that takes only proofs of the two circuits whose
  unchecked values are honestly chosen, and with a guardian who hands over true values, holds no header hash
  and no set hash but those of the chain; what its commitment mappings hold under any key, if anything, are
  the start and the two Merkle roots over the chain's blocks of a range that was stored under this key; the
  commitments of every stored range are found under its key, if Keccak has no collision among the stored
  ranges; and the events report the same.\<close>

theorem stored_commitments_true:
  assumes "gadgets_ok G" and "mapreduce_gadget mapreduce" and "0 < N" and "3 * N < 2 ^ 32" and "S < 2 ^ 32"
    and "finalised_chain G S A" and "av_head A + 256 < 2 ^ 32"
    and "unat height \<le> av_head A" and "unat set_id \<le> av_ids A (av_head A)"
    and "init = initialize_vx gateway_address height (true_header G A (unat height)) set_id (true_set G A (unat set_id))
      header_range_id rotate_id"
    and "careful_gateway G mapreduce N S A gw init" and "honest_calls G mapreduce N S A keccak gw init evs s"
    and "ranges = set (stored_ranges evs)"
    and "data = (\<lambda>a b. true_root ch_data_root G A (unat a) (unat b))"
    and "state = (\<lambda>a b. true_root ch_state_root G A (unat a) (unat b))"
  shows "(\<forall>b. vx_header_hash s b \<noteq> zero_hash \<longrightarrow> unat b \<le> av_head A \<and> vx_header_hash s b = true_header G A (unat b))
    \<and> (\<forall>i. vx_set_hash s i \<noteq> zero_hash \<longrightarrow> unat i \<le> av_ids A (av_head A) \<and> vx_set_hash s i = true_set G A (unat i))
    \<and> (\<forall>key. vx_data_commitments s key \<noteq> zero_hash \<or> vx_state_commitments s key \<noteq> zero_hash \<or> vx_range_start s key \<noteq> 0 \<longrightarrow>
         (\<exists>a b. (a, b) \<in> ranges \<and> key = range_key keccak (a, b) \<and> vx_range_start s key = a
           \<and> vx_data_commitments s key = data a b \<and> vx_state_commitments s key = state a b))
    \<and> (inj_on (range_key keccak) ranges \<longrightarrow> (\<forall>a b key. (a, b) \<in> ranges \<longrightarrow> key = range_key keccak (a, b) \<longrightarrow>
         vx_range_start s key = a \<and> vx_data_commitments s key = data a b \<and> vx_state_commitments s key = state a b))
    \<and> (\<forall>a b dr sr. HeaderRangeCommitmentStored a b dr sr \<in> set evs \<longrightarrow> dr = data a b \<and> sr = state a b)"
proof -
  obtain l where l: "ideal_ok A l" "implements G A keccak l s" "list_all (true_event G A) evs" "il_ranges l = stored_ranges evs"
    using honest_run_simulated [OF assms(12,1-11)] by blast
  have log: "commitments s = range_log G A keccak (stored_ranges evs)" using l(2,4) by (simp add: implements_def)
  have pair: "true_commitments G A (a, b) = (a, data a b, state a b)" for a b by (simp add: true_commitments_def assms(14,15))
  have "\<exists>a b. (a, b) \<in> ranges \<and> key = range_key keccak (a, b) \<and> vx_range_start s key = a
      \<and> vx_data_commitments s key = data a b \<and> vx_state_commitments s key = state a b"
    if "vx_data_commitments s key \<noteq> zero_hash \<or> vx_state_commitments s key \<noteq> zero_hash \<or> vx_range_start s key \<noteq> 0" for key
  proof -
    have "commitments s key \<noteq> no_commitments key" using that by (auto simp: commitments_def no_commitments_def)
    then obtain a b where "(a, b) \<in> ranges" "key = range_key keccak (a, b)" "commitments s key = true_commitments G A (a, b)"
      using range_log_sound [of G A keccak "stored_ranges evs" key] unfolding log assms(13) by auto
    then show ?thesis by (intro exI [of _ a] exI [of _ b]) (simp add: commitments_def pair)
  qed
  moreover have "vx_range_start s key = a \<and> vx_data_commitments s key = data a b \<and> vx_state_commitments s key = state a b"
    if "inj_on (range_key keccak) ranges" "(a, b) \<in> ranges" "key = range_key keccak (a, b)" for a b key
  proof -
    have "commitments s key = true_commitments G A (a, b)"
      using range_log_complete [of keccak "stored_ranges evs" "(a, b)"] that unfolding log assms(13) by simp
    then show ?thesis by (simp add: commitments_def pair)
  qed
  moreover have "dr = data a b \<and> sr = state a b" if "HeaderRangeCommitmentStored a b dr sr \<in> set evs" for a b dr sr
    using l(3) that by (force simp: list_all_iff pair dest: bspec)
  moreover have "tracks (view_of G A) (vx_header_hash s) (vx_set_hash s)"
    by (rule implements_tracks(2) [OF assms(1,6) l(2,1)])
  ultimately show ?thesis by (simp add: tracks_def)
qed

theorem stored_commitments_true_witness:
  "\<exists>s evs. honest_calls toy_gadgets tree_mapreduce 3 160 linked_model toy_digest linked_gateway linked_contract evs s
    \<and> vx_header_hash s 4 = true_header toy_gadgets linked_model 4
    \<and> vx_data_commitments s (toy_digest (abi_range 1 4)) = true_root ch_data_root toy_gadgets linked_model 1 4
    \<and> vx_state_commitments s (toy_digest (abi_range 1 4)) = true_root ch_state_root toy_gadgets linked_model 1 4"
proof -
  obtain s h d r where run: "honest_calls toy_gadgets tree_mapreduce 3 160 linked_model toy_digest linked_gateway linked_contract
      [HeadUpdate 4 h, HeaderRangeCommitmentStored 1 4 d r] s" and h: "vx_header_hash s 4 = h" "h = linked_parent 5"
    by (rule linked_honest_run)
  let ?R = "set (stored_ranges [HeadUpdate 4 h, HeaderRangeCommitmentStored 1 4 d r])"
  let ?t = "\<lambda>root (a :: u32) (b :: u32). true_root root toy_gadgets linked_model (unat a) (unat b)"
  note true = stored_commitments_true [OF toy_gadgets_ok tree_mapreduce_ok _ _ _ linked_finalised _ _ _ linked_init
      linked_careful run refl [of ?R] refl [of "?t ch_data_root"] refl [of "?t ch_state_root"]]
  have "vx_data_commitments s (range_key toy_digest (1, 4)) = ?t ch_data_root 1 4
      \<and> vx_state_commitments s (range_key toy_digest (1, 4)) = ?t ch_state_root 1 4"
    using true by simp
  moreover have "vx_header_hash s 4 = true_header toy_gadgets linked_model 4"
    using linked_true_header [of 4] unfolding h by (simp del: linked_parent.simps)
  ultimately show ?thesis using run by (auto simp: range_key_def)
qed

end
