(* ===== verification/Fetcher_Tests.thy ===== *)
theory Fetcher_Tests
  imports Rotation_Data
begin

text \<open>
  The tests of the fetcher (\<open>circuits/input/mod.rs\<close>) as programs over the node: a test passes when it
  returns a value, which is what it prints, and fails with the error of the first panic. One of them
  asserts the contrary of what the search for epoch ends returns, and fails on every chain.
\<close>

section \<open>The tests\<close>

definition test_get_block_headers_range :: "client \<Rightarrow> byte list host" where
  "test_get_block_headers_range c =
     bind_h (get_block_headers_range c 100000 100256) (\<lambda>_.
     bind_h (get_merkle_root_commitments c 441000 441001) (\<lambda>(_, data_root_commitment).
     Inr data_root_commitment))"

definition test_get_header_hash :: "client \<Rightarrow> (bytes32 \<times> bytes32 \<times> u64) host" where
  "test_get_header_hash c = (let target_block = 529000 in
     bind_h (get_header c target_block) (\<lambda>header.
     bind_h (sub_ck target_block 1) (\<lambda>before.
     bind_h (get_authority_set_id c before) (\<lambda>authority_set_id.
     bind_h (authority_set_hash_at c before) (\<lambda>authority_set_hash.
     Inr (c_header_hash c header, authority_set_hash, authority_set_id))))))"

text \<open>The loop of \<open>test_get_authority_set_id\<close>: steps of 1000 blocks until the set changes its size; it ends at
  the latest when the block number overflows.\<close>

function genesis_search :: "client \<Rightarrow> u32 \<Rightarrow> (u64 \<times> bytes32 \<times> u32 \<times> bytes32) host" where
  "genesis_search c block =
     bind_h (get_authority_set_id c block) (\<lambda>authority_set_id.
     bind_h (sub_ck authority_set_id 1) (\<lambda>prev_id.
     bind_h (last_justified_block c prev_id) (\<lambda>prev_epoch_end_block.
     bind_h (get_authorities c prev_epoch_end_block) (\<lambda>curr_authorities.
     bind_h (last_justified_block c authority_set_id) (\<lambda>epoch_end_block.
     bind_h (get_authorities c epoch_end_block) (\<lambda>next_authorities.
     if length curr_authorities \<noteq> length next_authorities then
       bind_h (get_header c epoch_end_block) (\<lambda>genesis_header.
       Inr (authority_set_id, compute_authority_set_hash (c_sha256 c) curr_authorities, epoch_end_block,
         c_header_hash c genesis_header))
     else bind_h (add_ck block 1000) (\<lambda>block'. genesis_search c block')))))))"
  by pat_completeness auto

termination
proof (relation "measure (\<lambda>(c, block). 2 ^ 32 - unat block)", goal_cases)
  case (2 c block i p e ks e' ks' block')
  then have "unat block' = unat block + 1000" "unat block' < 2 ^ 32"
    using unsigned_less [of block', where 'a = nat] by (auto dest!: add_ck_InrD)
  then show ?case by simp
qed simp

declare genesis_search.simps [simp del]

definition test_get_authority_set_id :: "client \<Rightarrow> (u64 \<times> bytes32 \<times> u32 \<times> bytes32) host" where
  "test_get_authority_set_id c = genesis_search c 215000"

definition test_get_simple_justification_change_authority_set ::
    "client \<Rightarrow> (u64 \<times> bytes32 \<times> bytes32 \<times> circuit_justification) host" where
  "test_get_simple_justification_change_authority_set c = (let block = 645570 in
     bind_h (sub_ck block 1) (\<lambda>before.
     bind_h (get_authority_set_id c before) (\<lambda>authority_set_id.
     bind_h (authority_set_hash_at c before) (\<lambda>authority_set_hash.
     bind_h (get_header c block) (\<lambda>header.
     bind_h (get_justification_from_block c 100 block) (\<lambda>j.
     Inr (authority_set_id, authority_set_hash, c_header_hash c header, j)))))))"

definition test_get_new_authority_set :: "client \<Rightarrow> header_rotate_data host" where
  "test_get_new_authority_set c = (let target_authority_set_id = 513 in
     bind_h (last_justified_block c target_authority_set_id) (\<lambda>epoch_end_block_number.
     bind_h (assert_h Assertion_failed (epoch_end_block_number \<noteq> 0)) (\<lambda>_.
     bind_h (sub_ck epoch_end_block_number 1) (\<lambda>before.
     bind_h (get_authority_set_id c before) (\<lambda>previous_authority_set_id.
     bind_h (get_authority_set_id c epoch_end_block_number) (\<lambda>authority_set_id.
     bind_h (add_ck previous_authority_set_id 1) (\<lambda>next_id.
     bind_h (assert_h Assertion_failed (next_id = authority_set_id)) (\<lambda>_.
     bind_h (assert_h Assertion_failed (authority_set_id = target_authority_set_id)) (\<lambda>_.
     get_header_rotate c MAX_HEADER_SIZE MAX_AUTHORITY_SET_SIZE epoch_end_block_number)))))))))"

definition test_grandpa_prove_finality :: "client \<Rightarrow> (bytes32 \<times> bytes32 \<times> u64 \<times> u32 \<times> u64 \<times> u32) host" where
  "test_grandpa_prove_finality c = (let block_number = 642000 in
     bind_h (sub_ck block_number 1) (\<lambda>before.
     bind_h (get_authority_set_id c before) (\<lambda>authority_set_id.
     bind_h (last_justified_block c authority_set_id) (\<lambda>last_justified.
     bind_h (get_header c last_justified) (\<lambda>header.
     bind_h (authority_set_hash_at c before) (\<lambda>authority_set_hash.
     bind_h (get_authority_set_id c last_justified) (\<lambda>new_authority_set_id.
     bind_h (add_ck last_justified 1) (\<lambda>asked.
     bind_h (unwrap (c_prove_finality c asked)) (\<lambda>gj.
     bind_h (get_authority_set_id c before) (\<lambda>authority_set_id.
     bind_h (nth_h (cm_precommits (gj_commit gj)) 0) (\<lambda>first.
     let message = signed_message (sp_precommit first) (gj_round gj) authority_set_id in
     bind_h (decode_precommit_host message) (\<lambda>(_, number, _, _).
     Inr (c_header_hash c header, authority_set_hash, authority_set_id, last_justified, new_authority_set_id,
       number)))))))))))))"

definition test_query_redis_block_range :: "client \<Rightarrow> (u32 \<times> u32 \<times> u32 list) host" where
  "test_query_redis_block_range c =
     bind_h (last_justified_block c 615) (\<lambda>prev_last_justified_block.
     bind_h (last_justified_block c 616) (\<lambda>last_justified.
     bind_h (find_justifications_in_range c prev_last_justified_block last_justified) (\<lambda>blocks.
     Inr (prev_last_justified_block, last_justified, blocks))))"

text \<open>The loop of \<open>test_get_header_rotate\<close> over the epochs, up to the first that has not ended.\<close>

function rotate_epochs :: "client \<Rightarrow> u64 \<Rightarrow> nat list host" where
  "rotate_epochs c epoch =
     bind_h (last_justified_block c epoch) (\<lambda>epoch_end_block.
     if epoch_end_block = 0 then Inr []
     else bind_h (get_header_rotate c MAX_HEADER_SIZE MAX_AUTHORITY_SET_SIZE epoch_end_block) (\<lambda>_.
       bind_h (get_authorities c epoch_end_block) (\<lambda>authorities.
       bind_h (add_ck epoch 1) (\<lambda>epoch'.
       bind_h (rotate_epochs c epoch') (\<lambda>rest. Inr (length authorities # rest))))))"
  by pat_completeness auto

termination
proof (relation "measure (\<lambda>(c, epoch). 2 ^ 64 - unat epoch)", goal_cases)
  case (2 c epoch b d ks epoch')
  then have "unat epoch' = unat epoch + 1" "unat epoch' < 2 ^ 64"
    using unsigned_less [of epoch', where 'a = nat] by (auto dest!: add_ck_InrD)
  then show ?case by simp
qed simp

declare rotate_epochs.simps [simp del]

definition test_get_header_rotate :: "client \<Rightarrow> nat list host" where
  "test_get_header_rotate c = rotate_epochs c 179"

section \<open>A test that cannot pass\<close>

text \<open>The test of the search for the new set asserts that the block that the search returns for a set
  has the id of that set, but the search returns the block at which the set hands over, whose id is the next:
  the test fails by a failed assertion on every chain.\<close>

theorem new_authority_set_test_fails:
  assumes "id_chain c head ids"
  shows "test_get_new_authority_set c = Inl Assertion_failed"
proof -
  obtain r where r: "r \<le> head" "last_justified_block c 513 = Inr (of_nat r)"
    and handover: "\<forall>b. b \<le> head \<and> epoch_end ids 513 b \<longleftrightarrow> b = r \<and> 0 < r"
    using last_justified_block_finds [OF assms, of 513] by auto
  have unat_r: "unat (of_nat i :: u32) = i" if "i \<le> head" for i
    using assms that by (intro unat_of_nat_small) (simp add: id_chain_def)
  show ?thesis
  proof (cases "r = 0")
    case True
    then show ?thesis using r(2) by (simp add: test_get_new_authority_set_def)
  next
    case False
    then have ids: "ids (r - 1) = 513" "ids r = 514" using handover by (auto simp: epoch_end_def)
    have nonzero: "(of_nat r :: u32) \<noteq> 0" using unat_r [OF r(1)] False by (metis unat_0)
    have "(1 :: u32) \<le> of_nat r" using unat_r [OF r(1)] False by (simp add: word_le_nat_alt)
    moreover have "(of_nat r :: u32) - 1 = of_nat (r - 1)" using False by (simp add: of_nat_diff)
    ultimately have before: "sub_ck (of_nat r :: u32) 1 = Inr (of_nat (r - 1))" by (simp add: sub_ck_def)
    have set_ids: "get_authority_set_id c (of_nat r) = Inr 514" "get_authority_set_id c (of_nat (r - 1)) = Inr 513"
      using assms r(1) ids by (auto simp: id_chain_def)
    show ?thesis
      using r(2) nonzero before set_ids by (simp add: test_get_new_authority_set_def add_ck_def)
  qed
qed

text \<open>The set 513 hands over at block 5.\<close>

theorem new_authority_set_test_fails_witness:
  "\<exists>c. last_justified_block c 513 = Inr 5 \<and> get_authority_set_id c 5 = Inr 514
    \<and> test_get_new_authority_set c = Inl Assertion_failed"
proof -
  define ids :: "nat \<Rightarrow> nat" where "ids i = (if i = 0 then 0 else if i < 5 then 513 else 514)" for i
  let ?c = "toy_client numbered_header 10 ids (\<lambda>i. []) (\<lambda>m. m)"
  have con: "connected ?c" by (auto simp: connected_iff toy_client_def Let_def intro: exI [of _ 2])
  then have "\<exists>h. get_head ?c = Inr h \<and> unat (hdr_number h) = 10"
    by (simp add: get_head_def) (simp add: toy_client_def Let_def numbered_header_def)
  moreover have served: "get_authority_set_id ?c (of_nat i) = Inr (of_nat (ids i))" if "i \<le> 10" for i
    by (rule toy_client_simps) (use that in simp)
  ultimately have chain: "id_chain ?c 10 ids"
    using con by (auto simp: id_chain_def ids_def)
  obtain r where "last_justified_block ?c 513 = Inr (of_nat r)"
    "\<forall>b. b \<le> 10 \<and> epoch_end ids 513 b \<longleftrightarrow> b = r \<and> 0 < r"
    using last_justified_block_finds [OF chain, of 513] by auto
  moreover have "epoch_end ids 513 5" by (simp add: epoch_end_def ids_def)
  ultimately have "5 = r" "last_justified_block ?c 513 = Inr (of_nat r)" by auto
  then have "last_justified_block ?c 513 = Inr 5" by auto
  moreover have "get_authority_set_id ?c 5 = Inr 514" using served [of 5] by (simp add: ids_def)
  ultimately show ?thesis using new_authority_set_test_fails [OF chain] by blast
qed

end
