(* ===== verification/Spec2Isabelle.thy ===== *)
theory Spec2Isabelle
  imports Deploy_Script Entry_Points Ideal_Client Fetcher_Tests
begin

text \<open>
  VectorX is a light client of the Avail chain. Zero-knowledge circuits (Rust, on plonky2x) prove two
  statements: that a range of headers links a trusted block to a target block which the authority set has
  finalised (header range), and that an epoch end block, finalised by the current set, schedules the next
  set (rotate). A contract keeps the head, the known header hashes and the known set hashes, and advances
  by verified outputs of the circuits. A fetcher reads chain data for the circuits' hints, an indexer keeps
  justifications in Redis, an operator requests the proofs the contract needs, an event listener records the
  ranges that the contract stores, and scripts deploy, upgrade and fill the contract. This library models
  these parts from their \<open>main\<close> functions on and proves what each promises and how they fit.

  \<^bold>\<open>Theories, in the order of their imports.\<close>
  \<^item> \<open>Bytes_Prelude\<close>: bytes, words, slices, the option monad of circuit constraints (None is an
    unsatisfied constraint) and the result type \<open>host\<close> of code that may panic or fail.
  \<^item> \<open>Merkle_Tree\<close>: pairwise reduction (locale \<open>pairwise_root\<close>), shared by the Merkle roots of circuit and
    fetcher. \<open>Codec\<close>: encoders and decoders (locales \<open>codec\<close>, \<open>windowed_codec\<close>), SCALE compact integers and
    the precommit message.
  \<^item> \<open>Vars\<close>: \<open>circuits/consts.rs\<close> and \<open>circuits/vars.rs\<close>. \<open>Circuit_Gadgets\<close>: the gadgets of plonky2x as fields
    of the record \<open>gadgets\<close>, their documented behaviour as named predicates, and an instance.
  \<^item> \<open>Decoder\<close>: \<open>builder/decoder.rs\<close>, \<open>builder/header.rs\<close>. \<open>Authority_Set\<close>: the chained hash of a set
    (locale \<open>chained_hash\<close>, interpreted on the circuit's and the fetcher's version). \<open>Justification\<close>:
    \<open>builder/justification.rs\<close>. \<open>Rotate_Builder\<close>: \<open>builder/rotate.rs\<close>. \<open>Subchain\<close>:
    \<open>builder/subchain_verification.rs\<close>. \<open>Circuits\<close>: the \<open>define\<close> of \<open>circuits/header_range.rs\<close> and
    \<open>circuits/rotate.rs\<close> as functions from input bytes to output bytes.
  \<^item> \<open>Client\<close>, \<open>Epochs\<close>, \<open>Fetcher\<close>, \<open>Rotation_Data\<close>: \<open>circuits/input/mod.rs\<close> and \<open>types.rs\<close>; the connections,
    header ranges and Merkle roots, the search for epoch ends, authorities and justifications, and the
    scheduled change in an epoch end header. \<open>Hints\<close> and \<open>Rotation_Data\<close> hold the hints that feed the circuits.
    \<open>Dummy_Programs\<close>: \<open>circuits/dummy_header_range.rs\<close>, \<open>circuits/dummy_rotate.rs\<close>.
  \<^item> \<open>Indexer\<close>: \<open>bin/indexer.rs\<close> and the writes of \<open>RedisClient\<close>. \<open>Event_Listener\<close>: \<open>bin/events.rs\<close>.
  \<^item> \<open>Light_Client_Interface\<close>: the interface between a light client's storage and the proofs it accepts
    (locale \<open>light_client_store\<close>, interpreted on the contract).
  \<^item> \<open>Contract\<close>: \<open>contracts/src/VectorX.sol\<close>, its storage as the record \<open>vectorx\<close>, one function per
    operation, the step relation \<open>vx_step\<close> of its permissionless functions and the freeze, the sequences
    \<open>vx_ops\<close> of calls of any function, and the commitment mappings as a log of the events. \<open>Chain_Safety\<close>: a
    chain that GRANDPA finalises, and what accepted proofs of the two circuits say about it.
    \<open>Finalised_Contract\<close>: the contract on such a chain. \<open>Ideal_Client\<close>: the ideal light client
    \<open>ideal_step\<close>, whose state has no hash, and its refinement by the contract (\<open>implements\<close>).
  \<^item> \<open>Operator\<close>: \<open>bin/vectorx.rs\<close>, one definition per method and one iteration of the loop.
    \<open>Operator_Progress\<close>: the operator, a proving service and the contract in rounds. \<open>System\<close>: the state
    machine \<open>sys_step\<close> of chain, operator, proving service, contract and other callers in any interleaving.
    \<open>Block_Filler\<close>: \<open>bin/fill_block_range.rs\<close> and \<open>bin/genesis.rs\<close>.
  \<^item> \<open>Configuration\<close>: the environment, decimal numbers, the services that a program connects to (record
    \<open>services\<close>), and the constructors \<open>RedisClient::new\<close> and \<open>RpcDataFetcher::new\<close>. \<open>Programs\<close>: the \<open>main\<close>
    functions of \<open>bin/vectorx.rs\<close>, \<open>bin/events.rs\<close>, \<open>bin/fill_block_range.rs\<close>, \<open>bin/genesis.rs\<close> and
    \<open>bin/indexer.rs\<close>. \<open>Entry_Points\<close>: \<open>bin/header_range.rs\<close> and \<open>bin/rotate.rs\<close>.
    \<open>Deploy_Script\<close>: \<open>contracts/script/Deploy.s.sol\<close> over the contracts of a chain (record \<open>evm\<close>).
  \<^item> \<open>Circuit_Tests\<close>, \<open>Fetcher_Tests\<close>: the tests of the circuits and of the fetcher as programs over the gadgets
    and the node: when they pass, and one that fails on every chain. Those whose input does not have the
    layout that the tested code reads are in \<open>Entry_Points\<close>.

  \<^bold>\<open>What the lemmas show.\<close>
  \<^item> Circuits: exactly which inputs and hints each circuit accepts and what it outputs (decoders,
    justification, rotation, subchain, and the two composed circuits); that outputs bind the chain and the
    set up to hash collisions; and what the circuits do not check (padding signers, a wrapping threshold,
    logs behind the header, truncated sets).
  \<^item> Host: the fetcher's ranges, roots, searches and parsers are complete and agree with the circuits; from a
    finality proof, a stored justification, an epoch end block or a served chain to an accepted proof.
  \<^item> Contract: after calls of any kind the commitment mappings are what its events say; between the guardian's
    updates the stored ranges are contiguous, and under the key of each lie the commitments of a proved chain.
    On a finalised chain, behind proofs whose unchecked values are honestly chosen (\<open>careful_gateway\<close>: the
    hints that the circuits leave open, see above) and with a guardian who hands over true values, the whole
    storage is a function of the ideal client's state, and it holds only the hashes and, under the keys of
    the stored ranges, the Merkle roots of the chain: the end-to-end statement from the circuits' constraints
    to the storage.
  \<^item> System: one iteration of the operator submits exactly the requests it should; in every interleaving of
    growth, iterations, late, repeated or lost answers and other callers the contract follows the chain, a
    replayed answer changes nothing unless the guardian sets the head back, and from every reachable state
    the operator's own rounds, two per missing block and one, bring the contract up to date. The indexer's
    store stays sound, but its threshold counts repeated signers.
  \<^item> Programs and deployment: which variables each program needs and what it does with them; the operator,
    once started, does what \<open>System\<close> assumes of it; the event listener records the configured chains; the
    block range script moves the contract's head along the chain. The values that the genesis script prints,
    put through the deployment script, give a contract from which the system is safe and can recover, and
    an upgrade keeps its commitments.

  \<^bold>\<open>Conventions.\<close> Solidity's and Rust's unsigned integers are words. Host arithmetic is checked (\<open>add_ck\<close>,
  \<open>sub_ck\<close>: overflow is an error, as in a build with overflow checks; in a build without, the code would wrap
  where the model reports an error). Circuit arithmetic wraps. Arrays of fixed size are lists with a
  well-formedness predicate. A search or loop of the host is a function with a termination proof; no fuel
  is used. Asynchronous calls and tasks run to completion one after the other, against a node whose answers
  do not change during the call. The deployment script takes effect as a whole or not at all. The hypotheses on parameters are \<open>gadgets_ok\<close>, \<open>mapreduce_gadget\<close> (plonky2x),
  \<open>avail_encoding\<close>, \<open>same_crypto\<close> (the node's and the circuits' encodings and primitives), \<open>redis_laws\<close>
  (Redis), \<open>decodes_ranges\<close> (the ABI decoder inverts the encoding of the event), \<open>timelocked_laws\<close> (the roles
  of \<open>TimelockedUpgradeable\<close> and who may upgrade), \<open>sound_gateway\<close> (a verifying gateway), \<open>careful_gateway\<close> (one whose provers choose the unchecked
  values honestly), \<open>finalised_chain\<close> (the finality of GRANDPA, announced set changes, and no collisions among
  the byte strings that occur; where Keccak's are excluded for the keys of ranges, a statement says so) and \<open>honest_deployment\<close> (a node that serves the chain, a gateway that answers
  the truth about it, which \<open>careful_gateway_true\<close> derives from the former two, and a working proving
  service); each has an instance in the library on which the witnesses evaluate.

  \<^bold>\<open>Not modelled.\<close> The source of plonky2x, \<open>avail_subxt\<close>, \<open>sp_core\<close>, Redis, the gateway, Foundry and
  \<open>TimelockedUpgradeable\<close>, which the repository only calls; logging, sleeping and the parsing of command
  lines; the optional debug file of the fetcher; the ABI file, which is generated, and \<open>VectorX.t.sol\<close>, which
  only logs an encoded call; \<open>register_generators\<close> of the circuits and the serialization tests, which only
  exercise plonky2x's serializer. Real concurrency between the tasks of one program is outside the model: the
  tasks of \<open>bin/events.rs\<close> write under the keys of their own contracts.
\<close>

end
